(* ===== verification/PumaPrelude.thy ===== *)
theory PumaPrelude
  imports Main "HOL-Library.Word"
begin

text \<open>
  Shared by every component: machine integers (\<open>size_t\<close> as a natural number below
  \<open>2 ^ 64\<close>, with the wrap-around of each operation written out), the faults that the C
  code can run into and the error monad that propagates them, and lemmas on lists and
  numbers that several components use.
\<close>

section \<open>Machine integers\<close>

text \<open>
  A \<open>size_t\<close>, a \<open>uintptr_t\<close> and a \<open>char*\<close> of the LP64 target are natural
  numbers; every operation whose exact result can leave \<open>[0, 2 ^ 64)\<close> is one of the
  three below. \<open>NULL\<close> is address 0.
\<close>

type_synonym addr = nat

definition sz_add :: "nat \<Rightarrow> nat \<Rightarrow> nat" where
  "sz_add a b = (a + b) mod 2 ^ 64"

definition sz_sub :: "nat \<Rightarrow> nat \<Rightarrow> nat" where
  "sz_sub a b = (a + (2 ^ 64 - b)) mod 2 ^ 64"

definition sz_mul :: "nat \<Rightarrow> nat \<Rightarrow> nat" where
  "sz_mul a b = (a * b) mod 2 ^ 64"

definition SIZE_MAX :: nat where
  "SIZE_MAX = 2 ^ 64 - 1"

lemma sz_add_exact: "a + b < 2 ^ 64 \<Longrightarrow> sz_add a b = a + b"
  by (simp add: sz_add_def)

lemma sz_sub_exact: "b \<le> a \<Longrightarrow> a < 2 ^ 64 \<Longrightarrow> sz_sub a b = a - b"
proof -
  assume h: "b \<le> a" "a < 2 ^ 64"
  then have "a + (2 ^ 64 - b) = (a - b) + 2 ^ 64" by linarith
  then have "sz_sub a b = (a - b + 2 ^ 64) mod 2 ^ 64" by (simp only: sz_sub_def)
  also have "\<dots> = (a - b) mod 2 ^ 64" by (rule mod_add_self2)
  finally show ?thesis using h by simp
qed

lemma sz_mul_exact: "a * b < 2 ^ 64 \<Longrightarrow> sz_mul a b = a * b"
  by (simp add: sz_mul_def)

section \<open>Faults and the error monad\<close>

text \<open>
  What the C code can run into instead of returning: a dereference of \<open>NULL\<close> or of memory
  that is not (any more) allocated, an access outside an array, a division by zero, a
  failed allocation whose result is used unchecked, the \<open>exit(-1)\<close> calls, for the loops that
  the model bounds, the fuel running out, and, in a debug build, an assertion that fails.
\<close>

datatype c_fault =
    NullDeref
  | DanglingDeref addr
  | OutOfBounds nat
  | DivByZero
  | OutOfMemory
  | ExitElementTooLarge
  | ExitBadAffinity
  | OutOfFuel
  | AssertFailed

definition bindE :: "c_fault + 'a \<Rightarrow> ('a \<Rightarrow> c_fault + 'b) \<Rightarrow> c_fault + 'b" where
  "bindE m f = (case m of Inl e \<Rightarrow> Inl e | Inr x \<Rightarrow> f x)"

lemma bindE_simps [simp]:
  "bindE (Inl e) f = Inl e"
  "bindE (Inr x) f = f x"
  by (simp_all add: bindE_def)

lemma bindE_cong [fundef_cong]:
  "m = m' \<Longrightarrow> (\<And>x. m' = Inr x \<Longrightarrow> f x = f' x) \<Longrightarrow> bindE m f = bindE m' f'"
  by (auto simp: bindE_def split: sum.split)

lemma bindE_assoc: "bindE (bindE m f) g = bindE m (\<lambda>x. bindE (f x) g)"
  by (cases m) simp_all

lemma bindE_eq_Inr: "bindE m f = Inr y \<longleftrightarrow> (\<exists>x. m = Inr x \<and> f x = Inr y)"
  by (auto simp: bindE_def split: sum.split)

lemma bindE_eq_Inl: "bindE m f = Inl e \<longleftrightarrow> m = Inl e \<or> (\<exists>x. m = Inr x \<and> f x = Inl e)"
  by (auto simp: bindE_def split: sum.split)

text \<open>\<open>b\<close> of C as an integer, for expressions such as \<open>n += (!b)\<close>.\<close>

abbreviation c_bool :: "bool \<Rightarrow> nat" where
  "c_bool b \<equiv> of_bool b"

section \<open>Lists and numbers\<close>

lemma find_append: "find P (xs @ ys) = (case find P xs of None \<Rightarrow> find P ys | Some x \<Rightarrow> Some x)"
  by (induction xs) auto

lemma find_None_all: "find P xs = None \<longleftrightarrow> (\<forall>x\<in>set xs. \<not> P x)"
  by (auto simp: find_None_iff)

lemma find_upt_Some:
  "find P [m..<n] = Some i \<longleftrightarrow> m \<le> i \<and> i < n \<and> P i \<and> (\<forall>j. m \<le> j \<and> j < i \<longrightarrow> \<not> P j)"
proof (induction "n - m" arbitrary: m)
  case 0
  then show ?case by auto
next
  case (Suc d)
  then have lt: "m < n" and d: "d = n - Suc m" by auto
  show ?case
  proof (cases "P m")
    case True
    with lt show ?thesis by (auto simp: upt_conv_Cons)
  next
    case False
    with lt Suc.hyps(1)[OF d] show ?thesis
      by (auto simp: upt_conv_Cons) (metis Suc_leI le_antisym not_less_eq_eq)+
  qed
qed

lemma find_rev_upt_Some:
  "find P (rev [m..<n]) = Some i \<longleftrightarrow> m \<le> i \<and> i < n \<and> P i \<and> (\<forall>j. i < j \<and> j < n \<longrightarrow> \<not> P j)"
proof (induction n)
  case 0
  then show ?case by simp
next
  case (Suc n)
  show ?case
  proof (cases "m \<le> n")
    case False
    then show ?thesis by auto
  next
    case True
    then show ?thesis using Suc by (auto simp: less_Suc_eq)
  qed
qed

lemma find_rev_upt_None: "find P (rev [m..<n]) = None \<longleftrightarrow> (\<forall>i. m \<le> i \<and> i < n \<longrightarrow> \<not> P i)"
  by (auto simp: find_None_all)

text \<open>The number of distinct blocks of \<open>B\<close> bytes, aligned to \<open>B\<close>, is bounded by the address space.\<close>

lemma aligned_blocks_bound:
  assumes "distinct ns" and blk: "\<And>n. n \<in> set ns \<Longrightarrow> B dvd n \<and> 0 < n \<and> n + B \<le> M"
    and "ns \<noteq> []"
  shows "length ns * B < M"
proof -
  have B: "0 < B" using assms by (metis dvd_0_left_iff gr0I list.set_sel(1))
  have "inj_on (\<lambda>n. n div B) (set ns)"
    by (rule inj_onI) (metis blk dvd_div_mult_self)
  then have c: "card ((\<lambda>n. n div B) ` set ns) = length ns"
    using \<open>distinct ns\<close> by (simp add: card_image distinct_card)
  have sub: "(\<lambda>n. n div B) ` set ns \<subseteq> {1..<M div B}"
  proof
    fix q assume "q \<in> (\<lambda>n. n div B) ` set ns"
    then obtain n where n: "n \<in> set ns" and q: "q = n div B" by auto
    from blk[OF n] obtain k where k: "n = B * k" "0 < n" "n + B \<le> M" by (auto elim: dvdE)
    then have "q = k" using q B by simp
    moreover have "B * Suc k \<le> M" using k by simp
    then have "Suc k \<le> M div B" using B by (simp add: less_eq_div_iff_mult_less_eq mult.commute)
    ultimately show "q \<in> {1..<M div B}" using k by (cases k) auto
  qed
  have "length ns \<le> M div B - 1"
    using card_mono[OF _ sub] c by simp
  moreover have "1 \<le> M div B - 1" using \<open>ns \<noteq> []\<close> calculation by (cases ns) auto
  ultimately have "length ns < M div B" by linarith
  then have "Suc (length ns) \<le> M div B" by simp
  then have "Suc (length ns) * B \<le> M div B * B" by (rule mult_le_mono1)
  also have "\<dots> \<le> M" by (rule div_times_less_eq_dividend)
  finally show ?thesis using B by simp
qed

end
