(* ===== verification/Bitmask.thy ===== *)
theory Bitmask
  imports PumaPrelude
begin

unbundle bit_operations_syntax

text \<open>
  The occupancy bitmask of a node: \<open>src/internal/bitmask.c\<close> and \<open>include/internal/bitmask.h\<close>.
  Bit \<open>i\<close> of the mask is bit \<open>63 - i mod 64\<close> of word \<open>i div 64\<close>. The searches are
  modelled loop by loop, with the word-level skip test of the source, and proved equal to a
  linear search over the bits.
\<close>

section \<open>Data and operations\<close>

record pumaBitmask =
  buckets :: "64 word list"
  bm_numElements :: nat
  mallocedBuckets :: bool

definition MASKFREE :: "8 word" where "MASKFREE = 1"

definition MASKNOTFREE :: "8 word" where "MASKNOTFREE = 0"

definition pumaBitmaskSet :: "pumaBitmask \<Rightarrow> nat \<Rightarrow> 8 word \<Rightarrow> c_fault + pumaBitmask" where
  "pumaBitmaskSet bm index value =
     (let bucket = index div 64;
          lOffset = 63 - index mod 64;
          v = value AND 1
      in if bucket < length (buckets bm)
         then let w = buckets bm ! bucket;
                  w1 = w OR push_bit lOffset (ucast v);
                  w2 = w1 AND NOT (push_bit lOffset (ucast (1 - v)))
              in Inr (bm\<lparr>buckets := (buckets bm)[bucket := w2]\<rparr>)
         else Inl (OutOfBounds bucket))"

definition pumaBitmaskGet :: "pumaBitmask \<Rightarrow> nat \<Rightarrow> c_fault + 8 word" where
  "pumaBitmaskGet bm index =
     (let bucket = index div 64;
          lOffset = 63 - index mod 64
      in if bucket < length (buckets bm)
         then Inr (ucast (drop_bit lOffset (buckets bm ! bucket) AND 1))
         else Inl (OutOfBounds bucket))"

text \<open>\<open>maskValue\<close> is an \<open>int8_t\<close>: it is sign-extended to 64 bits by the \<open>^\<close>.\<close>

definition maskValueOf :: "8 word \<Rightarrow> 64 word" where
  "maskValueOf value = scast ((value AND 1) - 1)"

definition bucketValueMaskOf :: "nat \<Rightarrow> 64 word" where
  "bucketValueMaskOf numFromBucketOn =
     (if numFromBucketOn < 64 then push_bit (64 - numFromBucketOn) (- 1) else - 1)"

text \<open>The inner loops: upwards over \<open>63 - i\<close> and upwards over \<open>i\<close>.\<close>

function scanFirst :: "64 word \<Rightarrow> 8 word \<Rightarrow> nat \<Rightarrow> nat \<Rightarrow> nat option" where
  "scanFirst w value n i =
     (if i < n
      then if drop_bit (63 - i) w AND 1 = scast value then Some i else scanFirst w value n (Suc i)
      else None)"
  by pat_completeness auto
termination
  by (relation "measure (\<lambda>(w, value, n, i). n - i)") auto

function scanLast :: "64 word \<Rightarrow> 8 word \<Rightarrow> nat \<Rightarrow> nat option" where
  "scanLast w value i =
     (if i < 64
      then if drop_bit i w AND 1 = scast value then Some (63 - i) else scanLast w value (Suc i)
      else None)"
  by pat_completeness auto
termination
  by (relation "measure (\<lambda>(w, value, i). 64 - i)") auto

declare scanFirst.simps [simp del] scanLast.simps [simp del]

text \<open>The outer loops. The second component of the result is \<open>*found\<close>.\<close>

function firstIndexLoop :: "pumaBitmask \<Rightarrow> 8 word \<Rightarrow> nat \<Rightarrow> c_fault + (nat \<times> bool)" where
  "firstIndexLoop bm value bucket =
     (if bucket * 64 < bm_numElements bm
      then if bucket < length (buckets bm)
           then let rest = bm_numElements bm - bucket * 64;
                    currentBucket = buckets bm ! bucket;
                    bucketValueMask = bucketValueMaskOf rest;
                    numFromBucketOn = (if rest < 64 then rest else 64)
                in if (currentBucket XOR maskValueOf value) AND bucketValueMask \<noteq> 0
                   then case scanFirst currentBucket value numFromBucketOn 0 of
                          Some i \<Rightarrow> Inr (bucket * 64 + i, True)
                        | None \<Rightarrow> firstIndexLoop bm value (Suc bucket)
                   else firstIndexLoop bm value (Suc bucket)
           else Inl (OutOfBounds bucket)
      else Inr (SIZE_MAX, False))"
  by pat_completeness auto
termination
  by (relation "measure (\<lambda>(bm, value, bucket). bm_numElements bm - bucket * 64)") auto

declare firstIndexLoop.simps [simp del]

definition pumaFirstIndexOfValue :: "pumaBitmask \<Rightarrow> 8 word \<Rightarrow> c_fault + (nat \<times> bool)" where
  "pumaFirstIndexOfValue bm value =
     (if buckets bm = [] then Inl (OutOfBounds 0) else firstIndexLoop bm value 0)"

fun lastIndexLoop :: "pumaBitmask \<Rightarrow> 8 word \<Rightarrow> nat \<Rightarrow> c_fault + (nat \<times> bool)" where
  "lastIndexLoop bm value 0 = Inr (SIZE_MAX, False)"
| "lastIndexLoop bm value (Suc bucket) =
     (let rest = sz_sub (bm_numElements bm) (bucket * 64);
          bucketValueMask = bucketValueMaskOf rest;
          numFromBucketOn = (if rest < 64 then rest else 64)
      in if bucket < length (buckets bm)
         then if (buckets bm ! bucket XOR maskValueOf value) AND bucketValueMask \<noteq> 0
              then case scanLast (buckets bm ! bucket) value (64 - numFromBucketOn) of
                     Some j \<Rightarrow> Inr (bucket * 64 + j, True)
                   | None \<Rightarrow> lastIndexLoop bm value bucket
              else lastIndexLoop bm value bucket
         else Inl (OutOfBounds bucket))"

definition pumaLastIndexOfValue :: "pumaBitmask \<Rightarrow> 8 word \<Rightarrow> c_fault + (nat \<times> bool)" where
  "pumaLastIndexOfValue bm value =
     lastIndexLoop bm value (sz_add (bm_numElements bm) 63 div 64)"

text \<open>\<open>memset\<close> of a 64-bit word to one byte, and the byte the constructors fill with.\<close>

definition memsetWord :: "8 word \<Rightarrow> 64 word" where
  "memsetWord b = ucast b * 0x0101010101010101"

definition fillByte :: "8 word \<Rightarrow> 8 word" where
  "fillByte initialValue = NOT ((initialValue AND 1) - 1)"

text \<open>\<open>malloc_ok\<close> says whether \<open>malloc\<close> succeeds; its result is not checked.\<close>

definition createPumaBitmask :: "bool \<Rightarrow> nat \<Rightarrow> 8 word \<Rightarrow> c_fault + pumaBitmask" where
  "createPumaBitmask malloc_ok numElements initialValue =
     (if malloc_ok
      then Inr \<lparr>buckets = replicate (sz_add numElements 63 div 64) (memsetWord (fillByte initialValue)),
                bm_numElements = numElements, mallocedBuckets = True\<rparr>
      else Inl NullDeref)"

definition elemArrayCount :: "nat \<Rightarrow> nat \<Rightarrow> c_fault + nat" where
  "elemArrayCount arraySize elemSize =
     (let spacePerBucket = sz_add (sz_mul 64 elemSize) 8
      in if spacePerBucket = 0 then Inl DivByZero
         else
           let baseNumElements = sz_mul 64 (arraySize div spacePerBucket);
               spaceLeft = sz_sub arraySize (sz_mul baseNumElements spacePerBucket div 64)
           in if spaceLeft > sz_add elemSize 8
              then if elemSize = 0 then Inl DivByZero
                   else Inr (sz_add baseNumElements (sz_sub spaceLeft 8 div elemSize))
              else Inr (sz_add baseNumElements 0))"

text \<open>Result: the mask, \<open>*arrayStart\<close> and \<open>*numElements\<close>, for an array at address \<open>array\<close>.\<close>

definition createPumaBitmaskForElemArray ::
  "addr \<Rightarrow> nat \<Rightarrow> 8 word \<Rightarrow> nat \<Rightarrow> c_fault + (pumaBitmask \<times> addr \<times> nat)" where
  "createPumaBitmaskForElemArray array arraySize initialValue elemSize =
     bindE (elemArrayCount arraySize elemSize) (\<lambda>numElements.
       let numBuckets = sz_add numElements 63 div 64;
           arrayStart = sz_add array (sz_mul numBuckets 8)
       in Inr (\<lparr>buckets = replicate numBuckets (memsetWord (fillByte initialValue)),
                bm_numElements = numElements, mallocedBuckets = False\<rparr>, arrayStart, numElements))"

definition getPumaBitmaskArraySize :: "nat \<Rightarrow> nat" where
  "getPumaBitmaskArraySize numElements = sz_mul (sz_add numElements 63 div 64) 8"

definition pumaBitmaskToString :: "pumaBitmask \<Rightarrow> nat \<Rightarrow> c_fault + string" where
  "pumaBitmaskToString bm bufLen =
     fold (\<lambda>i acc. bindE acc (\<lambda>s. bindE (pumaBitmaskGet bm i) (\<lambda>b.
        Inr (s @ [char_of (48 + unat b :: nat)]))))
       [0..<min (bm_numElements bm) (sz_sub bufLen 1)] (Inr [])"

section \<open>Bits of the mask\<close>

definition maskBit :: "pumaBitmask \<Rightarrow> nat \<Rightarrow> bool" where
  "maskBit bm i = bit (buckets bm ! (i div 64)) (63 - i mod 64)"

definition bm_wf :: "pumaBitmask \<Rightarrow> bool" where
  "bm_wf bm \<longleftrightarrow> length (buckets bm) = (bm_numElements bm + 63) div 64
     \<and> bm_numElements bm + 63 < 2 ^ 64"

definition bitVal :: "bool \<Rightarrow> 8 word" where
  "bitVal b = of_bool b"

lemma bitVal_mask_consts: "MASKFREE = bitVal True" "MASKNOTFREE = bitVal False"
  by (simp_all add: MASKFREE_def MASKNOTFREE_def bitVal_def)

lemma bitVal_inject [simp]: "bitVal a = bitVal b \<longleftrightarrow> a = b"
  by (simp add: bitVal_def)

lemma bucket_in_range: "bm_wf bm \<Longrightarrow> i < bm_numElements bm \<Longrightarrow> i div 64 < length (buckets bm)"
  by (simp add: bm_wf_def)

lemma drop_bit_AND_1: "drop_bit k (w :: 64 word) AND 1 = of_bool (bit w k)"
  by (simp add: and_one_eq bit_iff_odd_drop_bit mod_2_eq_odd)

lemma pumaBitmaskGet_bit:
  assumes "bm_wf bm" "i < bm_numElements bm"
  shows "pumaBitmaskGet bm i = Inr (bitVal (maskBit bm i))"
  using bucket_in_range[OF assms]
  by (simp add: pumaBitmaskGet_def Let_def drop_bit_AND_1 maskBit_def bitVal_def)

lemma bit_set_clear:
  fixes w :: "64 word"
  assumes "k < 64" "j < 64"
  shows "bit ((w OR push_bit k (ucast (bitVal b))) AND NOT (push_bit k (ucast (1 - bitVal b)))) j
         = (if j = k then b else bit w j)"
  using assms by (cases b) (auto simp: bitVal_def bit_simps)

lemma bitVal_AND_1 [simp]: "bitVal b AND 1 = bitVal b"
  by (simp add: bitVal_def)

lemma pumaBitmaskSet_bits:
  assumes wf: "bm_wf bm" and i: "i < bm_numElements bm"
  obtains bm' where "pumaBitmaskSet bm i (bitVal b) = Inr bm'" "bm_wf bm'"
    "bm_numElements bm' = bm_numElements bm" "mallocedBuckets bm' = mallocedBuckets bm"
    "\<And>j. j < bm_numElements bm \<Longrightarrow> maskBit bm' j = (if j = i then b else maskBit bm j)"
proof -
  let ?k = "63 - i mod 64" and ?q = "i div 64"
  let ?w = "(buckets bm ! ?q OR push_bit ?k (ucast (bitVal b))) AND NOT (push_bit ?k (ucast (1 - bitVal b)))"
  let ?bm = "bm\<lparr>buckets := (buckets bm)[?q := ?w]\<rparr>"
  have q: "?q < length (buckets bm)" by (rule bucket_in_range[OF wf i])
  have s: "pumaBitmaskSet bm i (bitVal b) = Inr ?bm"
    using q by (simp add: pumaBitmaskSet_def Let_def)
  have b: "maskBit ?bm j = (if j = i then b else maskBit bm j)" if "j < bm_numElements bm" for j
  proof (cases "j div 64 = ?q")
    case True
    have "j mod 64 < 64" "i mod 64 < 64" by simp_all
    then have "63 - j mod 64 = ?k \<longleftrightarrow> j mod 64 = i mod 64" by linarith
    moreover have "j mod 64 = i mod 64 \<longleftrightarrow> j = i"
      using True by (metis div_mult_mod_eq)
    ultimately have "63 - j mod 64 = ?k \<longleftrightarrow> j = i" by simp
    then show ?thesis using True q by (simp add: maskBit_def bit_set_clear)
  next
    case False
    then show ?thesis by (auto simp: maskBit_def)
  qed
  have wf': "bm_wf ?bm" using wf by (simp add: bm_wf_def)
  show thesis by (rule that[of ?bm]) (auto simp: s b wf')
qed

section \<open>The searches against a linear scan\<close>

lemma scast_bitVal: "(scast (bitVal b) :: 64 word) = of_bool b"
  by (cases b) (simp_all add: bitVal_def)

lemma scanFirst_find:
  "scanFirst w (bitVal b) n i = find (\<lambda>j. bit w (63 - j) = b) [i..<n]"
proof (induction w "bitVal b" n i rule: scanFirst.induct)
  case (1 w n i)
  show ?case
    using "1"
    by (subst scanFirst.simps) (auto simp: upt_conv_Cons drop_bit_AND_1 scast_bitVal)
qed

lemma scanLast_find:
  "scanLast w (bitVal b) i = map_option (\<lambda>j. 63 - j) (find (\<lambda>j. bit w j = b) [i..<64])"
proof (induction w "bitVal b" i rule: scanLast.induct)
  case (1 w i)
  show ?case
    using "1"
    by (subst scanLast.simps) (auto simp: upt_conv_Cons drop_bit_AND_1 scast_bitVal)
qed

lemma maskValueOf_bitVal: "maskValueOf (bitVal b) = (if b then 0 else - 1)"
  by (cases b) (simp_all add: maskValueOf_def bitVal_def)

lemma bit_bucketValueMask: "n \<le> 64 \<Longrightarrow> j < 64 \<Longrightarrow> bit (bucketValueMaskOf n) j \<longleftrightarrow> 64 - n \<le> j"
  by (auto simp: bucketValueMaskOf_def bit_simps)

text \<open>The skip test of both searches: some relevant bit of the word has the value searched for.\<close>

lemma skip_test:
  assumes "n \<le> 64"
  shows "(w XOR maskValueOf (bitVal b)) AND bucketValueMaskOf n \<noteq> 0
         \<longleftrightarrow> (\<exists>j. 64 - n \<le> j \<and> j < 64 \<and> bit w j = b)"
proof -
  have x: "bit (w XOR maskValueOf (bitVal b)) j \<longleftrightarrow> (bit w j = b)" if "j < 64" for j
    using that by (auto simp: maskValueOf_bitVal bit_simps)
  have "(w XOR maskValueOf (bitVal b)) AND bucketValueMaskOf n \<noteq> 0
        \<longleftrightarrow> (\<exists>j<64. bit ((w XOR maskValueOf (bitVal b)) AND bucketValueMaskOf n) j)"
    by (auto simp: bit_eq_iff)
  also have "\<dots> \<longleftrightarrow> (\<exists>j<64. bit w j = b \<and> 64 - n \<le> j)"
    by (intro ex_cong1) (simp add: bit_and_iff x bit_bucketValueMask[OF assms] cong: conj_cong)
  finally show ?thesis by blast
qed

lemma pumaBitmaskToString_chars:
  assumes wf: "bm_wf bm" and len: "0 < bufLen" "bufLen < 2 ^ 64"
  shows "pumaBitmaskToString bm bufLen
    = Inr (map (\<lambda>i. if maskBit bm i then CHR ''1'' else CHR ''0'') [0..<min (bm_numElements bm) (bufLen - 1)])"
proof -
  have digit: "char_of (48 + unat (bitVal b)) = (if b then CHR ''1'' else CHR ''0'')" for b
    by (cases b) (simp_all add: bitVal_def char_of_def bit_0)
  have "fold (\<lambda>i acc. bindE acc (\<lambda>s. bindE (pumaBitmaskGet bm i) (\<lambda>b. Inr (s @ [char_of (48 + unat b :: nat)])))) [0..<m] (Inr [])
      = Inr (map (\<lambda>i. if maskBit bm i then CHR ''1'' else CHR ''0'') [0..<m])" if "m \<le> bm_numElements bm" for m
    using that by (induction m) (simp_all add: pumaBitmaskGet_bit[OF wf] digit bindE_def)
  moreover have "sz_sub bufLen 1 = bufLen - 1" using len by (simp add: sz_sub_exact)
  ultimately show ?thesis by (simp add: pumaBitmaskToString_def)
qed
definition findFirst :: "pumaBitmask \<Rightarrow> bool \<Rightarrow> nat option" where
  "findFirst bm b = find (\<lambda>i. maskBit bm i = b) [0..<bm_numElements bm]"

definition findLast :: "pumaBitmask \<Rightarrow> bool \<Rightarrow> nat option" where
  "findLast bm b = find (\<lambda>i. maskBit bm i = b) (rev [0..<bm_numElements bm])"

definition indexResult :: "nat option \<Rightarrow> nat \<times> bool" where
  "indexResult r = (case r of None \<Rightarrow> (SIZE_MAX, False) | Some i \<Rightarrow> (i, True))"

lemma find_upt_shift: "find P [a + m..<a + n] = map_option ((+) a) (find (\<lambda>j. P (a + j)) [m..<n])"
  by (induction "n - m" arbitrary: m) (auto simp: upt_conv_Cons simp flip: add_Suc_right)

lemma find_cong_set: "(\<And>x. x \<in> set xs \<Longrightarrow> P x = Q x) \<Longrightarrow> find P xs = find Q xs"
  by (induction xs) auto

lemma maskBit_in_bucket: "j < 64 \<Longrightarrow> maskBit bm (q * 64 + j) = bit (buckets bm ! q) (63 - j)"
  by (simp add: maskBit_def)

lemma find_in_bucket:
  assumes "m \<le> 64"
  shows "find (\<lambda>i. maskBit bm i = b) [q * 64..<q * 64 + m]
         = map_option ((+) (q * 64)) (find (\<lambda>j. bit (buckets bm ! q) (63 - j) = b) [0..<m])"
proof -
  have "find (\<lambda>i. maskBit bm i = b) [q * 64..<q * 64 + m]
        = map_option ((+) (q * 64)) (find (\<lambda>j. maskBit bm (q * 64 + j) = b) [0..<m])"
    using find_upt_shift[of _ "q * 64" 0 m] by simp
  also have "find (\<lambda>j. maskBit bm (q * 64 + j) = b) [0..<m]
             = find (\<lambda>j. bit (buckets bm ! q) (63 - j) = b) [0..<m]"
    using assms by (intro find_cong_set) (simp add: maskBit_in_bucket)
  finally show ?thesis .
qed

lemma skip_test_find:
  assumes "m \<le> 64"
  shows "(w XOR maskValueOf (bitVal b)) AND bucketValueMaskOf m \<noteq> 0
         \<longleftrightarrow> find (\<lambda>j. bit w (63 - j) = b) [0..<m] \<noteq> None"
proof -
  have "(\<exists>j. 64 - m \<le> j \<and> j < 64 \<and> bit w j = b) \<longleftrightarrow> (\<exists>j<m. bit w (63 - j) = b)" (is "?l \<longleftrightarrow> ?r")
  proof
    assume ?l
    then obtain j where j: "64 - m \<le> j" "j < 64" "bit w j = b" by blast
    then have "63 - j < m" "63 - (63 - j) = j" using assms by linarith+
    with j show ?r by metis
  next
    assume ?r
    then obtain j where j: "j < m" "bit w (63 - j) = b" by blast
    then have "64 - m \<le> 63 - j" "63 - j < 64" using assms by linarith+
    with j show ?l by blast
  qed
  then show ?thesis unfolding skip_test[OF assms] find_None_all by auto
qed

lemma upt_split_bucket:
  assumes "q * 64 < n"
  shows "[q * 64..<n] = [q * 64..<q * 64 + min 64 (n - q * 64)] @ [Suc q * 64..<n]"
proof (cases "64 \<le> n - q * 64")
  case True
  then have "n = (q * 64 + 64) + (n - Suc q * 64)" by simp
  then have "[q * 64..<n] = [q * 64..<q * 64 + 64] @ [q * 64 + 64..<n]"
    by (metis le_add1 upt_add_eq_append)
  with True show ?thesis by (simp add: add.commute min_def)
next
  case False
  with assms show ?thesis by simp
qed

lemma bucketValueMaskOf_min: "bucketValueMaskOf r = bucketValueMaskOf (min 64 r)"
  by (simp add: bucketValueMaskOf_def)

lemma firstIndexLoop_find:
  assumes wf: "bm_wf bm"
  shows "firstIndexLoop bm (bitVal b) q
         = Inr (indexResult (find (\<lambda>i. maskBit bm i = b) [q * 64..<bm_numElements bm]))"
proof (induction "bm_numElements bm - q * 64" arbitrary: q rule: less_induct)
  case less
  let ?n = "bm_numElements bm" and ?w = "buckets bm ! q" and ?P = "\<lambda>i. maskBit bm i = b"
  let ?m = "min 64 (?n - q * 64)"
  let ?in = "find (\<lambda>j. bit ?w (63 - j) = b) [0..<?m]"
  show ?case
  proof (cases "q * 64 < ?n")
    case False
    then show ?thesis by (subst firstIndexLoop.simps) (simp add: indexResult_def)
  next
    case True
    have q: "q < length (buckets bm)"
      using bucket_in_range[OF wf True] by simp
    have rec: "firstIndexLoop bm (bitVal b) (Suc q) = Inr (indexResult (find ?P [Suc q * 64..<?n]))"
      by (rule less.hyps) (use True in simp)
    have m: "(if ?n - q * 64 < 64 then ?n - q * 64 else 64) = ?m" by simp
    have all: "find ?P [q * 64..<?n]
               = (case ?in of None \<Rightarrow> find ?P [Suc q * 64..<?n] | Some j \<Rightarrow> Some (q * 64 + j))"
      unfolding upt_split_bucket[OF True] find_append
      by (subst find_in_bucket) (auto split: option.split)
    show ?thesis
      unfolding all
      by (subst firstIndexLoop.simps)
        (use True q in \<open>auto simp: Let_def m scanFirst_find rec bucketValueMaskOf_min[of "?n - q * 64"]
            skip_test_find indexResult_def split: option.split\<close>)
  qed
qed

theorem pumaFirstIndexOfValue_find:
  assumes "bm_wf bm" "0 < bm_numElements bm"
  shows "pumaFirstIndexOfValue bm (bitVal b) = Inr (indexResult (findFirst bm b))"
proof -
  have "buckets bm \<noteq> []" using assms by (auto simp: bm_wf_def)
  then show ?thesis
    using firstIndexLoop_find[OF assms(1), of b 0]
    by (simp add: pumaFirstIndexOfValue_def findFirst_def)
qed

lemma find_map_comp: "find P (map f xs) = map_option f (find (\<lambda>x. P (f x)) xs)"
  by (induction xs) auto

lemma rev_upt_63: "m \<le> 64 \<Longrightarrow> rev [0..<m] = map (\<lambda>j. 63 - j) [64 - m..<64]"
  by (rule nth_equalityI) (auto simp: rev_nth)

lemma scanLast_rev_find:
  assumes "m \<le> 64"
  shows "scanLast w (bitVal b) (64 - m) = find (\<lambda>j. bit w (63 - j) = b) (rev [0..<m])"
proof -
  have "find (\<lambda>j. bit w (63 - j) = b) (rev [0..<m])
        = map_option (\<lambda>j. 63 - j) (find (\<lambda>j. bit w (63 - (63 - j)) = b) [64 - m..<64])"
    by (simp add: rev_upt_63[OF assms] find_map_comp)
  also have "find (\<lambda>j. bit w (63 - (63 - j)) = b) [64 - m..<64] = find (\<lambda>j. bit w j = b) [64 - m..<64]"
    by (rule find_cong_set) auto
  finally show ?thesis by (simp add: scanLast_find)
qed

lemma find_rev_in_bucket:
  assumes "m \<le> 64"
  shows "find (\<lambda>i. maskBit bm i = b) (rev [q * 64..<q * 64 + m])
         = map_option ((+) (q * 64)) (find (\<lambda>j. bit (buckets bm ! q) (63 - j) = b) (rev [0..<m]))"
proof -
  have "rev [q * 64..<q * 64 + m] = map ((+) (q * 64)) (rev [0..<m])"
    by (rule nth_equalityI) (auto simp: rev_nth)
  then have "find (\<lambda>i. maskBit bm i = b) (rev [q * 64..<q * 64 + m])
    = map_option ((+) (q * 64)) (find (\<lambda>j. maskBit bm (q * 64 + j) = b) (rev [0..<m]))"
    by (simp add: find_map_comp)
  also have "find (\<lambda>j. maskBit bm (q * 64 + j) = b) (rev [0..<m])
             = find (\<lambda>j. bit (buckets bm ! q) (63 - j) = b) (rev [0..<m])"
    using assms by (intro find_cong_set) (simp add: maskBit_in_bucket)
  finally show ?thesis .
qed

lemma upt_min_split:
  assumes "q * 64 < n"
  shows "[0..<min n (Suc q * 64)] = [0..<min n (q * 64)] @ [q * 64..<q * 64 + min 64 (n - q * 64)]"
proof -
  have "min n (Suc q * 64) = q * 64 + min 64 (n - q * 64)" "min n (q * 64) = q * 64"
    using assms by auto
  then show ?thesis by (metis le0 upt_add_eq_append)
qed

lemma lastIndexLoop_find:
  assumes wf: "bm_wf bm"
  shows "q \<le> length (buckets bm) \<Longrightarrow> lastIndexLoop bm (bitVal b) q
         = Inr (indexResult (find (\<lambda>i. maskBit bm i = b) (rev [0..<min (bm_numElements bm) (q * 64)])))"
proof (induction q)
  case 0
  then show ?case by (simp add: indexResult_def)
next
  case (Suc q)
  let ?n = "bm_numElements bm" and ?w = "buckets bm ! q" and ?P = "\<lambda>i. maskBit bm i = b"
  let ?m = "min 64 (?n - q * 64)"
  let ?in = "find (\<lambda>j. bit ?w (63 - j) = b) (rev [0..<?m])"
  from Suc.prems have q: "q < length (buckets bm)" by simp
  with wf have lt: "q * 64 < ?n" and bnd: "?n < 2 ^ 64" by (auto simp: bm_wf_def)
  have rec: "lastIndexLoop bm (bitVal b) q = Inr (indexResult (find ?P (rev [0..<min ?n (q * 64)])))"
    using Suc by simp
  have rest: "sz_sub ?n (q * 64) = ?n - q * 64" using lt bnd by (simp add: sz_sub_exact)
  have m: "(if ?n - q * 64 < 64 then ?n - q * 64 else 64) = ?m" by simp
  have any: "find (\<lambda>j. bit ?w (63 - j) = b) [0..<?m] \<noteq> None \<longleftrightarrow> ?in \<noteq> None"
    by (simp add: find_None_all)
  have all: "find ?P (rev [0..<min ?n (Suc q * 64)])
             = (case ?in of None \<Rightarrow> find ?P (rev [0..<min ?n (q * 64)]) | Some j \<Rightarrow> Some (q * 64 + j))"
    unfolding upt_min_split[OF lt] rev_append find_append
    by (subst find_rev_in_bucket) (auto split: option.split)
  show ?case
    unfolding all using q any
    by (cases ?in) (simp_all add: Let_def rest m scanLast_rev_find rec bucketValueMaskOf_min[of "?n - q * 64"]
        skip_test_find indexResult_def)
qed

theorem pumaLastIndexOfValue_find:
  assumes wf: "bm_wf bm"
  shows "pumaLastIndexOfValue bm (bitVal b) = Inr (indexResult (findLast bm b))"
proof -
  let ?n = "bm_numElements bm"
  have "sz_add ?n 63 div 64 = length (buckets bm)"
    using wf by (simp add: bm_wf_def sz_add_exact)
  moreover have "min ?n (length (buckets bm) * 64) = ?n"
    using wf by (simp add: bm_wf_def)
  ultimately show ?thesis
    using lastIndexLoop_find[OF wf order_refl, of b]
    by (simp add: pumaLastIndexOfValue_def findLast_def)
qed

section \<open>The constructors\<close>

lemma memsetWord_fillByte: "memsetWord (fillByte (bitVal b)) = (if b then - 1 else 0)"
  by (cases b)
    (simp_all add: memsetWord_def fillByte_def bitVal_def unsigned_minus_1_eq_mask mask_eq_exp_minus_1)

lemma maskBit_replicate:
  "i div 64 < k \<Longrightarrow> buckets bm = replicate k (memsetWord (fillByte (bitVal b))) \<Longrightarrow> maskBit bm i = b"
  by (simp add: maskBit_def memsetWord_fillByte less_imp_diff_less)

theorem createPumaBitmask_bits:
  assumes "n + 63 < 2 ^ 64"
  shows "\<exists>bm. createPumaBitmask True n (bitVal b) = Inr bm \<and> bm_wf bm \<and> bm_numElements bm = n
    \<and> mallocedBuckets bm \<and> (\<forall>i<n. maskBit bm i = b)"
proof -
  have "maskBit \<lparr>buckets = replicate ((n + 63) div 64) (memsetWord (fillByte (bitVal b))),
        bm_numElements = n, mallocedBuckets = True\<rparr> i = b" if "i < n" for i
    using that by (intro maskBit_replicate) auto
  with assms show ?thesis
    by (auto simp: createPumaBitmask_def sz_add_exact bm_wf_def)
qed

text \<open>
  How many elements of \<open>e\<close> bytes share \<open>a\<close> bytes with their mask: whole groups of 64
  elements and one mask word, then the elements that fit in the rest next to one more word.
\<close>

definition elemCount :: "nat \<Rightarrow> nat \<Rightarrow> nat" where
  "elemCount a e =
     (let s = 64 * e + 8; r = a mod s
      in 64 * (a div s) + (if r > e + 8 then (r - 8) div e else 0))"

text \<open>Bytes of mask and elements together.\<close>

definition layoutBytes :: "nat \<Rightarrow> nat \<Rightarrow> nat" where
  "layoutBytes n e = (n + 63) div 64 * 8 + n * e"

lemma elemArrayCount_eq:
  assumes a: "a < 2 ^ 57" and e: "0 < e" "e \<le> a"
  shows "elemArrayCount a e = Inr (elemCount a e)"
proof -
  let ?s = "64 * e + 8"
  have s: "sz_add (sz_mul 64 e) 8 = ?s"
    using a e by (simp add: sz_mul_exact sz_add_exact)
  have k: "a div ?s * ?s \<le> a" by (rule div_times_less_eq_dividend)
  have kk: "a div ?s \<le> a" by (rule div_le_dividend)
  have base: "sz_mul 64 (a div ?s) = 64 * (a div ?s)"
    by (rule sz_mul_exact, rule le_less_trans[of _ "64 * a"]) (use a kk in simp_all)
  have bs: "64 * (a div ?s) * ?s = 64 * (a div ?s * ?s)" by (simp only: mult.assoc)
  have "64 * (a div ?s * ?s) < 2 ^ 64"
    by (rule le_less_trans[of _ "64 * a"]) (use a k in simp_all)
  then have prod: "sz_mul (64 * (a div ?s)) ?s = 64 * (a div ?s * ?s)"
    by (simp only: sz_mul_def bs mod_less)
  have left: "sz_sub a (64 * (a div ?s * ?s) div 64) = a mod ?s"
    using a k by (simp add: sz_sub_exact minus_div_mult_eq_mod)
  have m: "a mod ?s \<le> a" by (rule mod_less_eq_dividend)
  have a64: "a < 2 ^ 64" using a by simp
  have e8: "sz_add e 8 = e + 8" using a e by (simp add: sz_add_exact)
  have "(a mod ?s - 8) div e \<le> a" using m by (meson diff_le_self div_le_dividend le_trans)
  with kk have "64 * (a div ?s) + (a mod ?s - 8) div e \<le> 65 * a" by linarith
  then have sum: "64 * (a div ?s) + (a mod ?s - 8) div e < 2 ^ 64" using a by simp
  have l8: "a mod ?s > e + 8 \<Longrightarrow> sz_sub (a mod ?s) 8 = a mod ?s - 8"
    using le_less_trans[OF m a64] by (intro sz_sub_exact) simp_all
  have b0: "sz_add (64 * (a div ?s)) 0 = 64 * (a div ?s)" using sum by (simp add: sz_add_exact)
  show ?thesis
    unfolding elemArrayCount_def Let_def s base prod left e8 elemCount_def
    using e(1) sum by (simp add: l8 sz_add_exact b0 del: mult_Suc_right)
qed

lemma extra_lt_64: "0 < e \<Longrightarrow> r < 64 * e + 8 \<Longrightarrow> (r - 8) div e < (64 :: nat)"
  by (simp add: div_less_iff_less_mult)

theorem elemCount_fits:
  assumes e: "0 < e"
  shows "layoutBytes (elemCount a e) e \<le> a"
proof -
  let ?s = "64 * e + 8"
  define k where "k = a div ?s"
  define r where "r = a mod ?s"
  have a: "a = k * ?s + r" by (simp only: k_def r_def div_mult_mod_eq)
  have r: "r < ?s" by (simp add: r_def)
  show ?thesis
  proof (cases "r > e + 8")
    case True
    define x where "x = (r - 8) div e"
    have x: "x < 64" using extra_lt_64[OF e r] by (simp add: x_def)
    have xe: "x * e \<le> r - 8" by (simp add: x_def)
    have n: "elemCount a e = 64 * k + x" using True by (simp add: elemCount_def Let_def k_def r_def x_def)
    have "(64 * k + x + 63) div 64 \<le> k + 1" using x by linarith
    then have "layoutBytes (elemCount a e) e \<le> (k + 1) * 8 + (64 * k + x) * e"
      unfolding layoutBytes_def n by simp
    also have "\<dots> = k * ?s + (8 + x * e)" by (simp add: algebra_simps)
    also have "\<dots> \<le> k * ?s + r" using xe True by linarith
    finally show ?thesis using a by simp
  next
    case False
    then have n: "elemCount a e = 64 * k" by (simp add: elemCount_def Let_def k_def r_def)
    have "layoutBytes (elemCount a e) e = k * ?s"
      unfolding layoutBytes_def n by (simp add: algebra_simps)
    then show ?thesis using a by simp
  qed
qed

theorem elemCount_pos_iff:
  assumes e: "0 < e"
  shows "0 < elemCount a e \<longleftrightarrow> e + 8 < a"
proof -
  let ?s = "64 * e + 8"
  have big: "e + 8 < ?s" using e by simp
  show ?thesis
  proof (cases "a < ?s")
    case True
    have "e + 8 < a \<Longrightarrow> 0 < (a - 8) div e" using e by (simp add: div_greater_zero_iff)
    with True show ?thesis by (auto simp: elemCount_def)
  next
    case False
    then have "0 < a div ?s" by (simp add: div_greater_zero_iff)
    with False big show ?thesis by (auto simp: elemCount_def Let_def)
  qed
qed

text \<open>
  No layout of the same bytes holds one more element, except where the rest is exactly one
  element and one mask word: there the strict comparison wastes a slot.
\<close>

theorem elemCount_maximal:
  assumes e: "0 < e"
  shows "layoutBytes (Suc (elemCount a e)) e \<le> a \<longleftrightarrow> a mod (64 * e + 8) = e + 8"
proof -
  let ?s = "64 * e + 8"
  define k where "k = a div ?s"
  define r where "r = a mod ?s"
  have a: "a = k * ?s + r" by (simp only: k_def r_def div_mult_mod_eq)
  have r: "r < ?s" by (simp add: r_def)
  show ?thesis
  proof (cases "r > e + 8")
    case True
    define x where "x = (r - 8) div e"
    have x: "x < 64" using extra_lt_64[OF e r] by (simp add: x_def)
    have n: "elemCount a e = 64 * k + x" using True by (simp add: elemCount_def Let_def k_def r_def x_def)
    have "r - 8 < Suc x * e" unfolding x_def using e by (metis dividend_less_div_times mult.commute mult_Suc add.commute)
    then have xe: "r < 8 + Suc x * e" using True by linarith
    have "(Suc (64 * k + x) + 63) div 64 = k + 1" using x by linarith
    then have "layoutBytes (Suc (elemCount a e)) e = k * ?s + (8 + Suc x * e)"
      unfolding layoutBytes_def n by (simp add: algebra_simps)
    then have "layoutBytes (Suc (elemCount a e)) e \<le> a \<longleftrightarrow> 8 + Suc x * e \<le> r" using a by linarith
    then show ?thesis using xe True unfolding r_def[symmetric] by linarith
  next
    case False
    then have n: "elemCount a e = 64 * k" by (simp add: elemCount_def Let_def k_def r_def)
    have "(Suc (64 * k) + 63) div 64 = k + 1" by linarith
    then have "layoutBytes (Suc (elemCount a e)) e = k * ?s + (8 + e)"
      unfolding layoutBytes_def n by (simp add: algebra_simps)
    then have "layoutBytes (Suc (elemCount a e)) e \<le> a \<longleftrightarrow> 8 + e \<le> r" using a by linarith
    then show ?thesis using False unfolding r_def[symmetric] by linarith
  qed
qed

lemma elemCount_le: "0 < e \<Longrightarrow> elemCount a e \<le> a"
proof -
  assume e: "0 < e"
  have "elemCount a e * 1 \<le> elemCount a e * e" using e by (intro mult_le_mono2) simp
  also have "\<dots> \<le> layoutBytes (elemCount a e) e" by (simp add: layoutBytes_def)
  also have "\<dots> \<le> a" by (rule elemCount_fits[OF e])
  finally show ?thesis by simp
qed

lemma elemArray_start:
  assumes "0 < e" "e \<le> a" "a < 2 ^ 57" "array + a \<le> 2 ^ 64"
  shows "sz_add (elemCount a e) 63 div 64 = (elemCount a e + 63) div 64"
    and "sz_add array (sz_mul ((elemCount a e + 63) div 64) 8) = array + (elemCount a e + 63) div 64 * 8"
proof -
  let ?n = "elemCount a e" and ?nb = "(elemCount a e + 63) div 64"
  have n: "?n \<le> a" using elemCount_le assms by simp
  then have "?n + 63 < 2 ^ 64" using assms(3) by simp
  then show "sz_add ?n 63 div 64 = ?nb" by (simp add: sz_add_exact)
  have "?nb * 8 + ?n * e \<le> a" using elemCount_fits[OF assms(1), of a] by (simp add: layoutBytes_def)
  moreover have "?n = 0 \<Longrightarrow> ?nb = 0" by simp
  moreover have "0 < a" using assms by simp
  ultimately have "?nb * 8 < a"
    using assms(1) by (cases "?n = 0") (auto intro: less_le_trans[rotated])
  then have "array + ?nb * 8 < 2 ^ 64" "?nb * 8 < 2 ^ 64" using assms by linarith+
  then show "sz_add array (sz_mul ?nb 8) = array + ?nb * 8" by (simp add: sz_add_exact sz_mul_exact)
qed

theorem createPumaBitmaskForElemArray_layout:
  assumes "0 < e" "e \<le> a" "a < 2 ^ 57" "array + a \<le> 2 ^ 64"
  shows "\<exists>bm. createPumaBitmaskForElemArray array a (bitVal b) e
      = Inr (bm, array + (elemCount a e + 63) div 64 * 8, elemCount a e)
    \<and> bm_wf bm \<and> bm_numElements bm = elemCount a e \<and> \<not> mallocedBuckets bm
    \<and> (\<forall>i<elemCount a e. maskBit bm i = b)"
proof -
  let ?n = "elemCount a e"
  have "?n \<le> a" using elemCount_le assms by simp
  then have "?n + 63 < 2 ^ 64" using assms(3) by simp
  moreover have "maskBit \<lparr>buckets = replicate ((?n + 63) div 64) (memsetWord (fillByte (bitVal b))),
        bm_numElements = ?n, mallocedBuckets = False\<rparr> i = b" if "i < ?n" for i
    using that by (intro maskBit_replicate) auto
  ultimately show ?thesis
    using elemArrayCount_eq[OF assms(3,1,2)] elemArray_start[OF assms]
    by (auto simp: createPumaBitmaskForElemArray_def Let_def bm_wf_def)
qed

text \<open>The \<open>assert\<close> of the constructor (compiled in with \<open>DEBUG=1\<close>).\<close>

definition elemArrayAssert :: "addr \<Rightarrow> nat \<Rightarrow> nat \<Rightarrow> addr \<Rightarrow> nat \<Rightarrow> bool" where
  "elemArrayAssert array arraySize elemSize arrayStart numElements \<longleftrightarrow>
     sz_sub (sz_add array arraySize) arrayStart div elemSize = numElements"

theorem elemArrayAssert_iff:
  assumes h: "0 < e" "e \<le> a" "a < 2 ^ 57" "array + a \<le> 2 ^ 64"
  shows "elemArrayAssert array a e (array + (elemCount a e + 63) div 64 * 8) (elemCount a e)
    \<longleftrightarrow> a mod (64 * e + 8) < e \<or> e + 8 < a mod (64 * e + 8)"
proof -
  let ?s = "64 * e + 8" and ?nb = "(elemCount a e + 63) div 64"
  define k where "k = a div ?s"
  define r where "r = a mod ?s"
  have a: "a = k * ?s + r" by (simp only: k_def r_def div_mult_mod_eq)
  have r: "r < ?s" by (simp add: r_def)
  have nb: "?nb * 8 \<le> a" using elemCount_fits[OF h(1), of a] by (simp add: layoutBytes_def)
  have "sz_sub (sz_add array a) (array + ?nb * 8) = a - ?nb * 8"
  proof (cases "array + a < 2 ^ 64")
    case True
    then show ?thesis using nb by (simp add: sz_add_exact sz_sub_exact)
  next
    case False
    then have top: "array + a = 2 ^ 64" using h(4) by linarith
    then have "0 < array" using h(3) by (cases array) simp_all
    then have "0 < array + ?nb * 8" by simp
    then have "sz_sub (sz_add array a) (array + ?nb * 8) = 2 ^ 64 - (array + ?nb * 8)"
      unfolding sz_sub_def sz_add_def top by simp
    then show ?thesis using top by linarith
  qed
  then have q: "elemArrayAssert array a e (array + ?nb * 8) (elemCount a e)
      \<longleftrightarrow> (a - ?nb * 8) div e = elemCount a e"
    by (simp add: elemArrayAssert_def)
  show ?thesis
  proof (cases "r > e + 8")
    case True
    define x where "x = (r - 8) div e"
    have x: "x < 64" using extra_lt_64[OF h(1) r] by (simp add: x_def)
    have xp: "0 < x" using True h(1) by (simp add: x_def div_greater_zero_iff)
    have n: "elemCount a e = 64 * k + x" using True by (simp add: elemCount_def Let_def k_def r_def x_def)
    have "?nb = k + 1" unfolding n using x xp by linarith
    then have "a - ?nb * 8 = (64 * k) * e + (r - 8)" using a True by (simp add: algebra_simps)
    then have "(a - ?nb * 8) div e = 64 * k + x" using h(1) by (simp add: x_def)
    then show ?thesis using q n True by (simp add: r_def)
  next
    case False
    then have n: "elemCount a e = 64 * k" by (simp add: elemCount_def Let_def k_def r_def)
    have "?nb = k" unfolding n by simp
    then have "a - ?nb * 8 = (64 * k) * e + r" using a by (simp add: algebra_simps)
    then have "(a - ?nb * 8) div e = 64 * k + r div e" using h(1) by simp
    then have "elemArrayAssert array a e (array + ?nb * 8) (elemCount a e) \<longleftrightarrow> r div e = 0"
      using q n by simp
    then show ?thesis using h(1) False by (auto simp: r_def div_eq_0_iff)
  qed
qed

section \<open>The mask as an interface\<close>

text \<open>
  What the rest of the library relies on: a mask of \<open>mlen m\<close> slots whose \<open>used\<close> slots
  are those with bit 0. The client lemmas say what the four operations do to the set of used
  slots; they are reached through the interpretation \<open>fm\<close> below.
\<close>

definition usedSlots :: "(nat \<Rightarrow> bool) \<Rightarrow> nat \<Rightarrow> nat set" where
  "usedSlots isFree n = {i. i < n \<and> \<not> isFree i}"

lemma usedSlots_finite [simp]: "finite (usedSlots f n)"
  by (simp add: usedSlots_def)

lemma usedSlots_subset: "usedSlots f n \<subseteq> {..<n}"
  by (auto simp: usedSlots_def)

lemma card_usedSlots_le: "card (usedSlots f n) \<le> n"
  using card_mono[OF _ usedSlots_subset] by simp

locale occupancy_mask =
  fixes mget :: "'m \<Rightarrow> nat \<Rightarrow> c_fault + 8 word"
    and mset :: "'m \<Rightarrow> nat \<Rightarrow> 8 word \<Rightarrow> c_fault + 'm"
    and mfirst :: "'m \<Rightarrow> 8 word \<Rightarrow> c_fault + (nat \<times> bool)"
    and mlast :: "'m \<Rightarrow> 8 word \<Rightarrow> c_fault + (nat \<times> bool)"
    and mlen :: "'m \<Rightarrow> nat"
    and mbit :: "'m \<Rightarrow> nat \<Rightarrow> bool"
    and minv :: "'m \<Rightarrow> bool"
  assumes get_law: "minv m \<Longrightarrow> i < mlen m \<Longrightarrow> mget m i = Inr (bitVal (mbit m i))"
    and set_law: "minv m \<Longrightarrow> i < mlen m \<Longrightarrow>
      \<exists>m'. mset m i (bitVal b) = Inr m' \<and> minv m' \<and> mlen m' = mlen m
        \<and> (\<forall>j<mlen m. mbit m' j = (if j = i then b else mbit m j))"
    and first_law: "minv m \<Longrightarrow> 0 < mlen m \<Longrightarrow>
      mfirst m (bitVal b) = Inr (indexResult (find (\<lambda>i. mbit m i = b) [0..<mlen m]))"
    and last_law: "minv m \<Longrightarrow>
      mlast m (bitVal b) = Inr (indexResult (find (\<lambda>i. mbit m i = b) (rev [0..<mlen m])))"
begin

lemma take_slot:
  assumes "minv m" "i < mlen m"
  obtains m' where "mset m i MASKNOTFREE = Inr m'" "minv m'" "mlen m' = mlen m"
    "usedSlots (mbit m') (mlen m') = insert i (usedSlots (mbit m) (mlen m))"
proof -
  from set_law[OF assms, of False] obtain m' where
    m': "mset m i (bitVal False) = Inr m'" "minv m'" "mlen m' = mlen m"
      "\<forall>j<mlen m. mbit m' j = (if j = i then False else mbit m j)" by blast
  show thesis
    by (rule that[of m']) (use m' assms(2) in \<open>auto simp: bitVal_mask_consts usedSlots_def split: if_splits\<close>)
qed

lemma release_slot:
  assumes "minv m" "i < mlen m"
  obtains m' where "mset m i MASKFREE = Inr m'" "minv m'" "mlen m' = mlen m"
    "usedSlots (mbit m') (mlen m') = usedSlots (mbit m) (mlen m) - {i}"
proof -
  from set_law[OF assms, of True] obtain m' where
    m': "mset m i (bitVal True) = Inr m'" "minv m'" "mlen m' = mlen m"
      "\<forall>j<mlen m. mbit m' j = (if j = i then True else mbit m j)" by blast
  show thesis
    by (rule that[of m']) (use m' assms(2) in \<open>auto simp: bitVal_mask_consts usedSlots_def split: if_splits\<close>)
qed

lemma first_free:
  assumes "minv m" "0 < mlen m"
  obtains (full) "mfirst m MASKFREE = Inr (SIZE_MAX, False)" "usedSlots (mbit m) (mlen m) = {..<mlen m}"
    | (slot) i where "mfirst m MASKFREE = Inr (i, True)" "i < mlen m"
        "i \<notin> usedSlots (mbit m) (mlen m)" "{..<i} \<subseteq> usedSlots (mbit m) (mlen m)"
proof (cases "find (\<lambda>i. mbit m i = True) [0..<mlen m]")
  case None
  have "mfirst m MASKFREE = Inr (SIZE_MAX, False)"
    using first_law[OF assms, of True] unfolding None bitVal_mask_consts by (simp add: indexResult_def)
  moreover have "usedSlots (mbit m) (mlen m) = {..<mlen m}"
    using None by (auto simp: find_None_all usedSlots_def)
  ultimately show thesis by (rule full)
next
  case (Some i)
  have "mfirst m MASKFREE = Inr (i, True)"
    using first_law[OF assms, of True] unfolding Some bitVal_mask_consts by (simp add: indexResult_def)
  then show thesis
    using Some by (intro slot[of i]) (auto simp: find_upt_Some usedSlots_def)
qed

lemma last_used:
  assumes "minv m"
  obtains (empty) "mlast m MASKNOTFREE = Inr (SIZE_MAX, False)" "usedSlots (mbit m) (mlen m) = {}"
    | (slot) i where "mlast m MASKNOTFREE = Inr (i, True)" "i < mlen m"
        "i \<in> usedSlots (mbit m) (mlen m)" "\<And>j. j \<in> usedSlots (mbit m) (mlen m) \<Longrightarrow> j \<le> i"
proof (cases "find (\<lambda>i. mbit m i = False) (rev [0..<mlen m])")
  case None
  have "mlast m MASKNOTFREE = Inr (SIZE_MAX, False)"
    using last_law[OF assms, of False] unfolding None bitVal_mask_consts by (simp add: indexResult_def)
  moreover have "usedSlots (mbit m) (mlen m) = {}"
    using None by (auto simp: find_None_all usedSlots_def)
  ultimately show thesis by (rule empty)
next
  case (Some i)
  have "mlast m MASKNOTFREE = Inr (i, True)"
    using last_law[OF assms, of False] unfolding Some bitVal_mask_consts by (simp add: indexResult_def)
  moreover have "j \<le> i" if "j < mlen m" "\<not> mbit m j" for j
    using that Some by (auto simp: find_rev_upt_Some not_less[symmetric])
  ultimately show thesis
    using Some by (intro slot[of i]) (auto simp: find_rev_upt_Some usedSlots_def)
qed

lemma set_then_get:
  assumes "minv m" "i < mlen m" "j < mlen m"
  shows "bindE (mset m i (bitVal b)) (\<lambda>m'. mget m' j) = (if j = i then Inr (bitVal b) else mget m j)"
  using set_law[OF assms(1,2), of b] assms get_law by fastforce

end

interpretation fm: occupancy_mask pumaBitmaskGet pumaBitmaskSet pumaFirstIndexOfValue
  pumaLastIndexOfValue bm_numElements maskBit bm_wf
proof unfold_locales
  fix m i assume "bm_wf m" "i < bm_numElements m"
  then show "pumaBitmaskGet m i = Inr (bitVal (maskBit m i))" by (rule pumaBitmaskGet_bit)
next
  fix m i b assume "bm_wf m" "i < bm_numElements m"
  then show "\<exists>m'. pumaBitmaskSet m i (bitVal b) = Inr m' \<and> bm_wf m' \<and> bm_numElements m' = bm_numElements m
      \<and> (\<forall>j<bm_numElements m. maskBit m' j = (if j = i then b else maskBit m j))"
    by (rule pumaBitmaskSet_bits[of m i b]) blast
next
  fix m b assume "bm_wf m" "0 < bm_numElements m"
  then show "pumaFirstIndexOfValue m (bitVal b)
      = Inr (indexResult (find (\<lambda>i. maskBit m i = b) [0..<bm_numElements m]))"
    by (simp add: pumaFirstIndexOfValue_find findFirst_def)
next
  fix m b assume "bm_wf m"
  then show "pumaLastIndexOfValue m (bitVal b)
      = Inr (indexResult (find (\<lambda>i. maskBit m i = b) (rev [0..<bm_numElements m])))"
    by (simp add: pumaLastIndexOfValue_find findLast_def)
qed

end
