(* ===== verification/PumaMemory.thy ===== *)
theory PumaMemory
  imports Bitmask "HOL-Library.Finite_Map"
begin

unbundle bit_operations_syntax

text \<open>
  The structs of the library and the memory they live in: \<open>struct pumaNode\<close>
  (\<open>include/internal/pumanode.h\<close>), \<open>struct pumaThreadList\<close>
  (\<open>include/internal/pumathreadlist.h\<close>), and the element and address arithmetic of
  \<open>src/internal/pumautil.c\<close>. A dereference goes through \<open>derefNode\<close> or \<open>derefList\<close>, which
  fault on \<open>NULL\<close> and on memory that is not allocated, so a result \<open>Inr\<close> of an operation
  says that it made no invalid access.
\<close>

section \<open>Structs\<close>

text \<open>
  The fields of \<open>struct pumaNode\<close> that the code reads or writes; \<open>blockHeader\<close>,
  \<open>firstSkipIndex\<close> and \<open>elemsPerPageUnit\<close> are never accessed. The struct takes 152 bytes on LP64.
\<close>

record pumaNode =
  n_elementSize :: nat
  n_pageUnit :: nat
  n_blockSize :: nat
  n_numPages :: nat
  n_elementArray :: addr
  n_numElements :: nat
  n_capacity :: nat
  n_firstKnownFree :: nat
  n_next :: addr
  n_prev :: addr
  n_freeMask :: pumaBitmask
  n_dirty :: bool
  n_active :: bool
  n_index :: nat
  n_threadList :: addr

definition sizeof_pumaNode :: nat where
  "sizeof_pumaNode = 152"

text \<open>The fields of \<open>struct pumaThreadList\<close> without the run-time statistics.\<close>

record pumaThreadList =
  tl_head :: addr
  tl_tail :: addr
  tl_numElements :: nat
  tl_numNodes :: nat
  tl_active :: bool
  tl_numaDomain :: int
  tl_elementSize :: nat
  tl_tid :: nat

text \<open>
  The memory: the global \<open>pumaPageSize\<close>, the build constant \<open>PUMA_NODEPAGES\<close>, the allocated
  nodes and thread lists by address, and the content of the element slots (of any type
  \<open>'e\<close>) by address.
\<close>

record 'e mem =
  pumaPageSize :: nat
  PUMA_NODEPAGES :: nat
  nodes :: "(addr, pumaNode) fmap"
  tlists :: "addr \<Rightarrow> pumaThreadList option"
  cells :: "addr \<Rightarrow> 'e"

abbreviation nodeAt :: "'e mem \<Rightarrow> addr \<Rightarrow> pumaNode option" where
  "nodeAt s \<equiv> fmlookup (nodes s)"

definition nodeBytes :: "'e mem \<Rightarrow> nat" where
  "nodeBytes s = sz_mul (pumaPageSize s) (PUMA_NODEPAGES s)"

definition badDeref :: "addr \<Rightarrow> c_fault" where
  "badDeref a = (if a = 0 then NullDeref else DanglingDeref a)"

definition derefNode :: "'e mem \<Rightarrow> addr \<Rightarrow> c_fault + pumaNode" where
  "derefNode s a = (case nodeAt s a of None \<Rightarrow> Inl (badDeref a) | Some nd \<Rightarrow> Inr nd)"

definition derefList :: "'e mem \<Rightarrow> addr \<Rightarrow> c_fault + pumaThreadList" where
  "derefList s t = (case tlists s t of None \<Rightarrow> Inl (badDeref t) | Some l \<Rightarrow> Inr l)"

definition putNode :: "addr \<Rightarrow> pumaNode \<Rightarrow> 'e mem \<Rightarrow> 'e mem" where
  "putNode a nd s = s\<lparr>nodes := fmupd a nd (nodes s)\<rparr>"

definition putList :: "addr \<Rightarrow> pumaThreadList \<Rightarrow> 'e mem \<Rightarrow> 'e mem" where
  "putList t l s = s\<lparr>tlists := (tlists s)(t := Some l)\<rparr>"

definition dropNode :: "addr \<Rightarrow> 'e mem \<Rightarrow> 'e mem" where
  "dropNode a s = s\<lparr>nodes := fmdrop a (nodes s)\<rparr>"

definition putCell :: "addr \<Rightarrow> 'e \<Rightarrow> 'e mem \<Rightarrow> 'e mem" where
  "putCell a v s = s\<lparr>cells := (cells s)(a := v)\<rparr>"

definition updNode :: "addr \<Rightarrow> (pumaNode \<Rightarrow> pumaNode) \<Rightarrow> 'e mem \<Rightarrow> c_fault + 'e mem" where
  "updNode a f s = bindE (derefNode s a) (\<lambda>nd. Inr (putNode a (f nd) s))"

definition updList :: "addr \<Rightarrow> (pumaThreadList \<Rightarrow> pumaThreadList) \<Rightarrow> 'e mem \<Rightarrow> c_fault + 'e mem" where
  "updList t f s = bindE (derefList s t) (\<lambda>l. Inr (putList t (f l) s))"

named_theorems mem_simps

lemma mem_lookup_simps [mem_simps]:
  "fmlookup (nodes (putNode a nd s)) = (nodeAt s)(a \<mapsto> nd)"
  "fmlookup (nodes (putList t l s)) = nodeAt s"
  "fmlookup (nodes (dropNode a s)) = (nodeAt s)(a := None)"
  "fmlookup (nodes (putCell c v s)) = nodeAt s"
  "tlists (putNode a nd s) = tlists s"
  "tlists (putList t l s) = (tlists s)(t \<mapsto> l)"
  "tlists (dropNode a s) = tlists s"
  "tlists (putCell c v s) = tlists s"
  "cells (putNode a nd s) = cells s"
  "cells (putList t l s) = cells s"
  "cells (dropNode a s) = cells s"
  "cells (putCell c v s) = (cells s)(c := v)"
  "nodeBytes (putNode a nd s) = nodeBytes s"
  "nodeBytes (putList t l s) = nodeBytes s"
  "nodeBytes (dropNode a s) = nodeBytes s"
  "nodeBytes (putCell c v s) = nodeBytes s"
  "pumaPageSize (putNode a nd s) = pumaPageSize s"
  "pumaPageSize (putList t l s) = pumaPageSize s"
  "pumaPageSize (dropNode a s) = pumaPageSize s"
  "pumaPageSize (putCell c v s) = pumaPageSize s"
  by (auto simp: putNode_def putList_def dropNode_def putCell_def nodeBytes_def fun_eq_iff)

lemma deref_simps [mem_simps]:
  "nodeAt s a = Some nd \<Longrightarrow> derefNode s a = Inr nd"
  "nodeAt s a = None \<Longrightarrow> derefNode s a = Inl (badDeref a)"
  "tlists s t = Some l \<Longrightarrow> derefList s t = Inr l"
  "tlists s t = None \<Longrightarrow> derefList s t = Inl (badDeref t)"
  by (simp_all add: derefNode_def derefList_def)

lemma upd_simps [mem_simps]:
  "nodeAt s a = Some nd \<Longrightarrow> updNode a f s = Inr (putNode a (f nd) s)"
  "tlists s t = Some l \<Longrightarrow> updList t g s = Inr (putList t (g l) s)"
  by (simp_all add: updNode_def updList_def mem_simps)

section \<open>Elements and addresses\<close>

definition getElement :: "pumaNode \<Rightarrow> nat \<Rightarrow> addr" where
  "getElement nd i = sz_add (sz_mul i (n_elementSize nd)) (n_elementArray nd)"

definition getIndexOfElementOnNode :: "addr \<Rightarrow> pumaNode \<Rightarrow> c_fault + nat" where
  "getIndexOfElementOnNode e nd =
     (if n_elementSize nd = 0 then Inl DivByZero
      else Inr (sz_sub e (n_elementArray nd) div n_elementSize nd))"

definition getNodeForElement :: "'e mem \<Rightarrow> addr \<Rightarrow> addr" where
  "getNodeForElement s e =
     unat ((of_nat e :: 64 word) AND NOT (of_nat (nodeBytes s) - 1))"

definition getIndexOfElement :: "'e mem \<Rightarrow> addr \<Rightarrow> c_fault + nat" where
  "getIndexOfElement s e =
     bindE (derefNode s (getNodeForElement s e)) (\<lambda>nd. getIndexOfElementOnNode e nd)"

definition getSmallestContainingPages :: "'e mem \<Rightarrow> nat \<Rightarrow> nat" where
  "getSmallestContainingPages s sz =
     (let pageAligned = unat ((of_nat sz :: 64 word) AND NOT (of_nat (pumaPageSize s) - 1))
      in sz_add pageAligned (sz_mul (c_bool (pageAligned \<noteq> sz)) (pumaPageSize s)))"

text \<open>Masking off the low bits rounds down to a multiple of a power of two.\<close>

lemma word_align_down: "w AND NOT (mask k) = push_bit k (drop_bit k (w :: 'a::len word))"
  by (rule bit_word_eqI) (auto simp: bit_simps)

lemma align_down:
  assumes k: "k < 64" and e: "e < 2 ^ 64"
  shows "unat ((of_nat e :: 64 word) AND NOT (of_nat (2 ^ k) - 1)) = e - e mod 2 ^ k"
proof -
  have m: "(of_nat (2 ^ k) - 1 :: 64 word) = mask k" by (simp add: mask_eq_exp_minus_1)
  have "unat ((of_nat e :: 64 word) AND NOT (mask k)) = e div 2 ^ k * 2 ^ k"
  proof -
    have lt: "e div 2 ^ k * 2 ^ k < 2 ^ 64"
      using div_times_less_eq_dividend e by (rule le_less_trans)
    have "unat ((of_nat e :: 64 word) AND NOT (mask k))
          = take_bit 64 (push_bit k (drop_bit k (take_bit 64 e)))"
      by (simp add: word_align_down unsigned_push_bit_eq unsigned_drop_bit_eq unsigned_of_nat)
    also have "\<dots> = e div 2 ^ k * 2 ^ k"
      using e lt by (simp add: push_bit_eq_mult drop_bit_eq_div take_bit_eq_mod)
    finally show ?thesis .
  qed
  then show ?thesis unfolding m by (simp add: minus_mod_eq_div_mult)
qed

definition cfg_ok :: "nat \<Rightarrow> bool" where
  "cfg_ok B \<longleftrightarrow> (\<exists>k. B = 2 ^ k) \<and> sizeof_pumaNode < B \<and> B < 2 ^ 57"

lemma cfg_ok_pos: "cfg_ok B \<Longrightarrow> 0 < B"
  by (simp add: cfg_ok_def)

lemma cfg_ok_log: "cfg_ok B \<Longrightarrow> \<exists>k<57. B = 2 ^ k"
  unfolding cfg_ok_def by (metis power_less_imp_less_exp one_less_numeral_iff semiring_norm(76))

lemma getNodeForElement_align:
  assumes "cfg_ok (nodeBytes s)" "e < 2 ^ 64"
  shows "getNodeForElement s e = e - e mod nodeBytes s"
proof -
  obtain k where "k < 57" "nodeBytes s = 2 ^ k" using cfg_ok_log[OF assms(1)] by blast
  then show ?thesis using align_down[of k e] assms(2) by (simp add: getNodeForElement_def)
qed

section \<open>Node geometry\<close>

definition slotAddr :: "pumaNode \<Rightarrow> nat \<Rightarrow> addr" where
  "slotAddr nd i = n_elementArray nd + i * n_elementSize nd"

definition node_geom :: "nat \<Rightarrow> addr \<Rightarrow> pumaNode \<Rightarrow> bool" where
  "node_geom B a nd \<longleftrightarrow> 0 < a \<and> B dvd a \<and> a + B \<le> 2 ^ 64 \<and> 0 < n_elementSize nd \<and> 0 < n_capacity nd
     \<and> n_elementArray nd = a + sizeof_pumaNode + (n_capacity nd + 63) div 64 * 8
     \<and> n_elementArray nd + n_capacity nd * n_elementSize nd \<le> a + B"

lemma slot_in_node:
  assumes g: "node_geom B a nd" and i: "i < n_capacity nd"
  shows "a < slotAddr nd i" "slotAddr nd i + n_elementSize nd \<le> a + B" "slotAddr nd i < a + B"
    "slotAddr nd i < 2 ^ 64"
proof -
  have "Suc i * n_elementSize nd \<le> n_capacity nd * n_elementSize nd"
    using i by (intro mult_le_mono1) simp
  then have u: "slotAddr nd i + n_elementSize nd \<le> n_elementArray nd + n_capacity nd * n_elementSize nd"
    by (simp add: slotAddr_def)
  with g show "slotAddr nd i + n_elementSize nd \<le> a + B" by (simp add: node_geom_def)
  with g show "slotAddr nd i < a + B" "slotAddr nd i < 2 ^ 64" by (auto simp: node_geom_def)
  from g show "a < slotAddr nd i" by (simp add: node_geom_def slotAddr_def sizeof_pumaNode_def)
qed

lemma getElement_slot:
  assumes g: "node_geom B a nd" and i: "i < n_capacity nd"
  shows "getElement nd i = slotAddr nd i"
  using slot_in_node(4)[OF g i]
  by (simp add: getElement_def slotAddr_def sz_mul_exact sz_add_exact add.commute)

lemma index_of_slot:
  assumes g: "node_geom B a nd" and i: "i < n_capacity nd"
  shows "getIndexOfElementOnNode (slotAddr nd i) nd = Inr i"
proof -
  have "0 < n_elementSize nd" using g by (simp add: node_geom_def)
  moreover have "sz_sub (slotAddr nd i) (n_elementArray nd) = i * n_elementSize nd"
    using slot_in_node(4)[OF g i] by (subst sz_sub_exact) (auto simp: slotAddr_def)
  ultimately show ?thesis by (simp add: getIndexOfElementOnNode_def)
qed

lemma slot_block:
  assumes g: "node_geom B a nd" and i: "i < n_capacity nd"
  shows "slotAddr nd i - slotAddr nd i mod B = a"
proof -
  obtain q where q: "a = B * q" using g by (auto simp: node_geom_def elim: dvdE)
  obtain d where d: "slotAddr nd i = a + d" "d < B"
    using slot_in_node[OF g i] by (metis add_less_cancel_left le_Suc_ex less_imp_le)
  then show ?thesis using q by simp
qed

lemma node_of_slot:
  assumes "cfg_ok (nodeBytes s)" and g: "node_geom (nodeBytes s) a nd" and i: "i < n_capacity nd"
  shows "getNodeForElement s (slotAddr nd i) = a"
  using getNodeForElement_align[OF assms(1) slot_in_node(4)[OF g i]] slot_block[OF g i] by simp

lemma slot_less_iff:
  "node_geom B a nd \<Longrightarrow> slotAddr nd i < slotAddr nd j \<longleftrightarrow> i < j"
  "node_geom B a nd \<Longrightarrow> slotAddr nd i \<le> slotAddr nd j \<longleftrightarrow> i \<le> j"
  "node_geom B a nd \<Longrightarrow> slotAddr nd i = slotAddr nd j \<longleftrightarrow> i = j"
  by (auto simp: slotAddr_def node_geom_def)

lemma slot_inj_node:
  assumes "node_geom B a nd" "node_geom B b nd'" "i < n_capacity nd" "j < n_capacity nd'"
    and "slotAddr nd i = slotAddr nd' j"
  shows "a = b"
  using slot_block[OF assms(1,3)] slot_block[OF assms(2,4)] assms(5) by simp

lemma aligned_blocks_apart:
  assumes "B dvd a" "B dvd b" "a \<noteq> (b :: nat)"
  shows "a + B \<le> b \<or> b + B \<le> a"
proof -
  obtain p q where pq: "a = B * p" "b = B * q" using assms(1,2) by (auto elim!: dvdE)
  then have "p < q \<or> q < p" using assms(3) by auto
  then have "B * Suc p \<le> B * q \<or> B * Suc q \<le> B * p" by (meson Suc_leI mult_le_mono2)
  then show ?thesis using pq by (simp add: add.commute)
qed

text \<open>Distinct elements do not overlap.\<close>

lemma slots_disjoint:
  assumes g: "node_geom B a nd" and "node_geom B b nd'" "i < n_capacity nd" "j < n_capacity nd'"
    and "(a, i) \<noteq> (b, j)" and same: "a = b \<Longrightarrow> nd = nd'"
  shows "{slotAddr nd i..<slotAddr nd i + n_elementSize nd}
    \<inter> {slotAddr nd' j..<slotAddr nd' j + n_elementSize nd'} = {}"
proof (cases "a = b")
  case True
  then have [simp]: "nd' = nd" using same by simp
  have "Suc i * n_elementSize nd \<le> j * n_elementSize nd \<or> Suc j * n_elementSize nd \<le> i * n_elementSize nd"
    using assms(5) True by (auto simp del: mult_Suc intro!: mult_le_mono1)
  then show ?thesis by (auto simp: slotAddr_def)
next
  case False
  then have "a + B \<le> b \<or> b + B \<le> a"
    using aligned_blocks_apart[of B a b] assms(1,2) by (simp add: node_geom_def)
  then show ?thesis
    using slot_in_node(1,2)[OF g assms(3)] slot_in_node(1,2)[OF assms(2,4)] by auto
qed

end
