(* ===== verification/ThreadList.thy ===== *)
theory ThreadList
  imports PumaMemory "HOL-Library.Multiset"
begin

text \<open>
  The invariant of a thread list: a doubly linked list of nodes whose active nodes come
  first, in the order of their indices, followed by the inactive (empty) ones; every node's
  counters agree with its bitmask. The lemmas say how each elementary change of the heap
  (one node updated, the last active node deactivated, the first inactive one reactivated,
  a node appended, the inactive ones dropped) keeps it.
\<close>

section \<open>Doubly linked segments\<close>

definition firstOr :: "addr list \<Rightarrow> addr \<Rightarrow> addr" where
  "firstOr ns b = (case ns of [] \<Rightarrow> b | n # _ \<Rightarrow> n)"

definition lastOr :: "addr \<Rightarrow> addr list \<Rightarrow> addr" where
  "lastOr p ns = (if ns = [] then p else last ns)"

lemma firstOr_simps [simp]:
  "firstOr [] b = b" "firstOr (n # ns) b = n" "firstOr (xs @ ys) b = firstOr xs (firstOr ys b)"
  by (auto simp: firstOr_def split: list.split)

lemma lastOr_simps [simp]:
  "lastOr p [] = p" "lastOr p (n # ns) = lastOr n ns" "lastOr p (xs @ ys) = lastOr (lastOr p xs) ys"
  by (auto simp: lastOr_def)

text \<open>\<open>links N p ns b\<close>: the nodes \<open>ns\<close> are linked both ways between \<open>p\<close> and \<open>b\<close>.\<close>

fun links :: "(addr \<Rightarrow> pumaNode option) \<Rightarrow> addr \<Rightarrow> addr list \<Rightarrow> addr \<Rightarrow> bool" where
  "links N p [] b \<longleftrightarrow> True"
| "links N p (n # ns) b \<longleftrightarrow>
     (\<exists>nd. N n = Some nd \<and> n_prev nd = p \<and> n_next nd = firstOr ns b) \<and> links N n ns b"

lemma links_append [simp]:
  "links N p (xs @ ys) b \<longleftrightarrow> links N p xs (firstOr ys b) \<and> links N (lastOr p xs) ys b"
  by (induction xs arbitrary: p) auto

lemma links_alloc: "links N p ns b \<Longrightarrow> n \<in> set ns \<Longrightarrow> \<exists>nd. N n = Some nd"
  by (induction ns arbitrary: p) auto

lemma links_cong:
  assumes "links N p ns b"
    and "\<And>n nd. n \<in> set ns \<Longrightarrow> N n = Some nd \<Longrightarrow>
      \<exists>nd'. N' n = Some nd' \<and> n_prev nd' = n_prev nd \<and> n_next nd' = n_next nd"
  shows "links N' p ns b"
  using assms
proof (induction ns arbitrary: p)
  case Nil
  then show ?case by simp
next
  case (Cons n ns)
  from Cons.prems(1) obtain nd where nd: "N n = Some nd" "n_prev nd = p" "n_next nd = firstOr ns b"
    and tail: "links N n ns b" by auto
  from Cons.prems(2)[of n nd] nd(1) obtain nd' where
    "N' n = Some nd'" "n_prev nd' = n_prev nd" "n_next nd' = n_next nd" by auto
  moreover have "links N' n ns b" using Cons.IH[OF tail] Cons.prems(2) by simp
  ultimately show ?case using nd by simp
qed

lemma links_frame:
  "(\<And>n. n \<in> set ns \<Longrightarrow> N' n = N n) \<Longrightarrow> links N' p ns b = links N p ns b"
  by (induction ns arbitrary: p) auto

text \<open>Changing the successor of the last node, or the predecessor of the first.\<close>

lemma links_last:
  "links N p (ns @ [n]) b \<longleftrightarrow> links N p ns n \<and> (\<exists>nd. N n = Some nd \<and> n_prev nd = lastOr p ns \<and> n_next nd = b)"
  by simp

text \<open>A segment keeps its inner links and gets new ends.\<close>

lemma links_relink:
  assumes "links N p ns b" "distinct ns"
    and "\<And>m nd. m \<in> set ns \<Longrightarrow> N m = Some nd \<Longrightarrow> \<exists>nd'. N' m = Some nd'
      \<and> n_prev nd' = (if m = hd ns then p' else n_prev nd) \<and> n_next nd' = (if m = last ns then b' else n_next nd)"
  shows "links N' p' ns b'"
  using assms
proof (induction ns arbitrary: p p')
  case Nil
  then show ?case by simp
next
  case (Cons n ns)
  from Cons.prems(1) obtain nd where nd: "N n = Some nd" "n_next nd = firstOr ns b" and lk: "links N n ns b" by auto
  from Cons.prems(3)[of n nd] nd(1) obtain nd' where nd': "N' n = Some nd'" "n_prev nd' = p'"
    "n_next nd' = (if n = last (n # ns) then b' else n_next nd)" by auto
  show ?case
  proof (cases "ns = []")
    case False
    then have ln: "last (n # ns) = last ns" "n \<noteq> last ns" using Cons.prems(2) last_in_set[of ns] by auto
    have "links N' n ns b'"
    proof (rule Cons.IH[OF lk])
      fix m md
      assume m: "m \<in> set ns" "N m = Some md"
      then have mn: "m \<noteq> n" using Cons.prems(2) by auto
      have pm: "m = hd ns \<Longrightarrow> n_prev md = n" using lk m(2) False by (cases ns) auto
      from Cons.prems(3)[of m md] m mn ln pm
      show "\<exists>nd'. N' m = Some nd' \<and> n_prev nd' = (if m = hd ns then n else n_prev md)
          \<and> n_next nd' = (if m = last ns then b' else n_next md)" by auto
    qed (use Cons.prems(2) in simp)
    moreover have "firstOr ns b = firstOr ns b'" using False by (cases ns) auto
    ultimately show ?thesis using nd' nd(2) ln by simp
  qed (use nd' in simp)
qed

section \<open>Sums over a list of nodes\<close>

lemma sum_list_map_upd:
  fixes f :: "'a \<Rightarrow> nat"
  assumes "distinct xs" "n \<in> set xs"
  shows "(\<Sum>x\<leftarrow>xs. if x = n then v else f x) + f n = (\<Sum>x\<leftarrow>xs. f x) + v"
proof -
  have "(\<Sum>x\<in>set xs. if x = n then v else f x) + f n = (\<Sum>x\<in>set xs. f x) + v"
    using assms(2) by (subst (1 2) sum.remove[of _ n]) (auto intro!: sum.cong)
  then show ?thesis using assms(1) by (simp add: sum_list_distinct_conv_sum_set)
qed

lemma member_le_sum_list_map: "n \<in> set xs \<Longrightarrow> f n \<le> (\<Sum>x\<leftarrow>xs. f x :: nat)"
  by (rule member_le_sum_list) auto

section \<open>The invariant of a node\<close>

definition used :: "pumaNode \<Rightarrow> nat set" where
  "used nd = usedSlots (maskBit (n_freeMask nd)) (n_capacity nd)"

definition node_ok :: "nat \<Rightarrow> addr \<Rightarrow> nat \<Rightarrow> addr \<Rightarrow> pumaNode \<Rightarrow> bool" where
  "node_ok B t es a nd \<longleftrightarrow> node_geom B a nd \<and> n_elementSize nd = es \<and> n_threadList nd = t
     \<and> bm_wf (n_freeMask nd) \<and> bm_numElements (n_freeMask nd) = n_capacity nd
     \<and> n_numElements nd = card (used nd)
     \<and> used nd \<subseteq> {..<n_firstKnownFree nd} \<and> n_firstKnownFree nd \<le> Suc (n_capacity nd)
     \<and> (\<not> n_dirty nd \<longrightarrow> used nd = {..<n_numElements nd} \<and> n_firstKnownFree nd = n_numElements nd)"

text \<open>The link fields, the index and the active flag are not part of a node's own invariant.\<close>

lemma used_upd [simp]:
  "used (nd\<lparr>n_next := x\<rparr>) = used nd" "used (nd\<lparr>n_prev := x\<rparr>) = used nd"
  "used (nd\<lparr>n_active := c\<rparr>) = used nd" "used (nd\<lparr>n_index := i\<rparr>) = used nd"
  "used (nd\<lparr>n_dirty := c\<rparr>) = used nd" "used (nd\<lparr>n_firstKnownFree := i\<rparr>) = used nd"
  "used (nd\<lparr>n_numElements := i\<rparr>) = used nd" "used (nd\<lparr>n_threadList := i\<rparr>) = used nd"
  by (simp_all add: used_def)

lemma node_geom_upd [simp]:
  "node_geom B a (nd\<lparr>n_next := x\<rparr>) = node_geom B a nd" "node_geom B a (nd\<lparr>n_prev := x\<rparr>) = node_geom B a nd"
  "node_geom B a (nd\<lparr>n_active := c\<rparr>) = node_geom B a nd" "node_geom B a (nd\<lparr>n_index := i\<rparr>) = node_geom B a nd"
  "node_geom B a (nd\<lparr>n_dirty := c\<rparr>) = node_geom B a nd"
  "node_geom B a (nd\<lparr>n_firstKnownFree := i\<rparr>) = node_geom B a nd"
  "node_geom B a (nd\<lparr>n_numElements := i\<rparr>) = node_geom B a nd"
  "node_geom B a (nd\<lparr>n_threadList := i\<rparr>) = node_geom B a nd"
  "node_geom B a (nd\<lparr>n_freeMask := m\<rparr>) = node_geom B a nd"
  by (simp_all add: node_geom_def)

lemma node_ok_upd [simp]:
  "node_ok B t es a (nd\<lparr>n_next := x\<rparr>) = node_ok B t es a nd"
  "node_ok B t es a (nd\<lparr>n_prev := x\<rparr>) = node_ok B t es a nd"
  "node_ok B t es a (nd\<lparr>n_active := c\<rparr>) = node_ok B t es a nd"
  "node_ok B t es a (nd\<lparr>n_index := i\<rparr>) = node_ok B t es a nd"
  by (simp_all add: node_ok_def)

lemma slotAddr_upd [simp]:
  "slotAddr (nd\<lparr>n_next := x\<rparr>) = slotAddr nd" "slotAddr (nd\<lparr>n_prev := x\<rparr>) = slotAddr nd"
  "slotAddr (nd\<lparr>n_active := c\<rparr>) = slotAddr nd" "slotAddr (nd\<lparr>n_index := i\<rparr>) = slotAddr nd"
  "slotAddr (nd\<lparr>n_dirty := c\<rparr>) = slotAddr nd" "slotAddr (nd\<lparr>n_firstKnownFree := i\<rparr>) = slotAddr nd"
  "slotAddr (nd\<lparr>n_numElements := i\<rparr>) = slotAddr nd" "slotAddr (nd\<lparr>n_threadList := i\<rparr>) = slotAddr nd"
  "slotAddr (nd\<lparr>n_freeMask := m\<rparr>) = slotAddr nd"
  by (simp_all add: slotAddr_def fun_eq_iff)

lemma used_finite [simp]: "finite (used nd)"
  by (simp add: used_def)

lemma used_less: "i \<in> used nd \<Longrightarrow> i < n_capacity nd"
  by (simp add: used_def usedSlots_def)

lemma card_used_le: "card (used nd) \<le> n_capacity nd"
  by (simp add: used_def card_usedSlots_le)

lemma node_okD:
  assumes "node_ok B t es a nd"
  shows "node_geom B a nd" "n_elementSize nd = es" "n_threadList nd = t" "bm_wf (n_freeMask nd)"
    "bm_numElements (n_freeMask nd) = n_capacity nd" "n_numElements nd = card (used nd)"
    "used nd \<subseteq> {..<n_firstKnownFree nd}" "n_firstKnownFree nd \<le> Suc (n_capacity nd)"
    "\<not> n_dirty nd \<Longrightarrow> used nd = {..<n_numElements nd}"
    "\<not> n_dirty nd \<Longrightarrow> n_firstKnownFree nd = n_numElements nd"
  using assms unfolding node_ok_def by blast+

lemma node_okI:
  assumes "node_geom B a nd" "n_elementSize nd = es" "n_threadList nd = t" "bm_wf (n_freeMask nd)"
    "bm_numElements (n_freeMask nd) = n_capacity nd" "n_numElements nd = card (used nd)"
    "used nd \<subseteq> {..<n_firstKnownFree nd}" "n_firstKnownFree nd \<le> Suc (n_capacity nd)"
    "\<not> n_dirty nd \<Longrightarrow> used nd = {..<n_numElements nd}"
    "\<not> n_dirty nd \<Longrightarrow> n_firstKnownFree nd = n_numElements nd"
  shows "node_ok B t es a nd"
  using assms unfolding node_ok_def by blast

lemma node_ok_geom: "node_ok B t es a nd \<Longrightarrow> node_geom B a nd"
  by (simp add: node_ok_def)

lemma node_ok_count: "node_ok B t es a nd \<Longrightarrow> n_numElements nd = card (used nd)"
  by (simp add: node_ok_def)

lemma node_ok_empty: "node_ok B t es a nd \<Longrightarrow> n_numElements nd = 0 \<longleftrightarrow> used nd = {}"
  by (simp add: node_ok_def)

lemma node_capacity_less:
  assumes "node_geom B a nd"
  shows "n_capacity nd < B"
proof -
  have "n_capacity nd * 1 \<le> n_capacity nd * n_elementSize nd"
    using assms by (intro mult_le_mono2) (simp add: node_geom_def)
  moreover have "a + 152 + n_capacity nd * n_elementSize nd \<le> a + B"
    using assms by (simp add: node_geom_def sizeof_pumaNode_def)
  ultimately show ?thesis by linarith
qed

text \<open>A node that is full has no free slot.\<close>

lemma used_full:
  assumes "node_ok B t es a nd" "n_numElements nd = n_capacity nd"
  shows "used nd = {..<n_capacity nd}"
proof (rule card_subset_eq)
  show "used nd \<subseteq> {..<n_capacity nd}" using used_less by blast
  show "card (used nd) = card {..<n_capacity nd}"
    using node_ok_count[OF assms(1)] assms(2) by simp
qed simp

section \<open>The invariant of a thread list\<close>

definition list_ok ::
  "nat \<Rightarrow> addr \<Rightarrow> pumaThreadList \<Rightarrow> (addr \<Rightarrow> pumaNode option) \<Rightarrow> addr list \<Rightarrow> addr list \<Rightarrow> bool" where
  "list_ok B t l N xs ys \<longleftrightarrow>
     distinct (xs @ ys) \<and> links N 0 (xs @ ys) 0
   \<and> (\<forall>n\<in>set (xs @ ys). node_ok B t (tl_elementSize l) n (the (N n)))
   \<and> (\<forall>n\<in>set xs. n_active (the (N n)))
   \<and> (\<forall>n\<in>set ys. \<not> n_active (the (N n)) \<and> n_numElements (the (N n)) = 0)
   \<and> map (\<lambda>n. n_index (the (N n))) xs = [0..<length xs]
   \<and> (xs = [] \<and> ys \<noteq> [] \<longrightarrow> n_index (the (N (hd ys))) = 0)
   \<and> tl_head l = firstOr (xs @ ys) 0
   \<and> tl_tail l = (if xs = [] then firstOr ys 0 else last xs)
   \<and> tl_numNodes l = length xs
   \<and> tl_numElements l = (\<Sum>n\<leftarrow>xs. n_numElements (the (N n)))"

definition tl_inv :: "'e mem \<Rightarrow> addr \<Rightarrow> addr list \<Rightarrow> addr list \<Rightarrow> bool" where
  "tl_inv s t xs ys \<longleftrightarrow> cfg_ok (nodeBytes s)
     \<and> (\<exists>l. tlists s t = Some l \<and> list_ok (nodeBytes s) t l (nodeAt s) xs ys)"

lemma tl_invE:
  assumes "tl_inv s t xs ys"
  obtains l where "cfg_ok (nodeBytes s)" "tlists s t = Some l" "list_ok (nodeBytes s) t l (nodeAt s) xs ys"
  using assms by (auto simp: tl_inv_def)

lemma list_ok_node:
  assumes "list_ok B t l N xs ys" "n \<in> set xs \<union> set ys"
  obtains nd where "N n = Some nd" "node_ok B t (tl_elementSize l) n nd"
    "n_active nd \<longleftrightarrow> n \<in> set xs" "n \<in> set ys \<Longrightarrow> n_numElements nd = 0"
proof -
  from assms have "links N 0 (xs @ ys) 0" "n \<in> set (xs @ ys)" by (auto simp: list_ok_def)
  then obtain nd where nd: "N n = Some nd" using links_alloc by blast
  from assms(1) have all: "\<forall>n\<in>set (xs @ ys). node_ok B t (tl_elementSize l) n (the (N n))"
    "\<forall>n\<in>set xs. n_active (the (N n))"
    "\<forall>n\<in>set ys. \<not> n_active (the (N n)) \<and> n_numElements (the (N n)) = 0"
    unfolding list_ok_def by blast+
  show thesis
    by (rule that[OF nd]) (use all assms(2) nd in force)+
qed

lemma list_ok_distinct: "list_ok B t l N xs ys \<Longrightarrow> distinct (xs @ ys)"
  by (simp add: list_ok_def)

lemma list_ok_frame:
  assumes eq: "\<And>n. n \<in> set xs \<union> set ys \<Longrightarrow> N' n = N n"
  shows "list_ok B t l N' xs ys = list_ok B t l N xs ys"
proof -
  have "links N' 0 (xs @ ys) 0 = links N 0 (xs @ ys) 0"
    by (rule links_frame) (use eq in auto)
  moreover have "ys \<noteq> [] \<Longrightarrow> N' (hd ys) = N (hd ys)" using eq by simp
  ultimately show ?thesis
    unfolding list_ok_def by (simp add: eq ball_Un cong: ball_cong list.map_cong_simp conj_cong)
qed

lemma list_ok_index:
  assumes "list_ok B t l N xs ys" "k < length xs"
  shows "n_index (the (N (xs ! k))) = k"
proof -
  have "map (\<lambda>n. n_index (the (N n))) xs ! k = [0..<length xs] ! k"
    using assms by (simp add: list_ok_def)
  with assms(2) show ?thesis by simp
qed

text \<open>A list has no more nodes than the heap.\<close>

lemma list_ok_length:
  assumes ok: "list_ok B t l (nodeAt s) xs ys"
  shows "length xs + length ys < Suc (fcard (fmdom (nodes s)))"
proof -
  have d: "distinct (xs @ ys)" using list_ok_distinct[OF ok] by simp
  have "set (xs @ ys) \<subseteq> fset (fmdom (nodes s))"
    using list_ok_node[OF ok] by (metis fmdomI set_append subsetI)
  then have "card (set (xs @ ys)) \<le> fcard (fmdom (nodes s))" by (metis card_mono fcard.rep_eq finite_fset)
  then have "length (xs @ ys) \<le> fcard (fmdom (nodes s))" using distinct_card[OF d] by metis
  then show ?thesis by simp
qed

text \<open>The number of nodes and of elements stays below \<open>2 ^ 64\<close>: the blocks are disjoint.\<close>

lemma nodes_bounds:
  assumes B: "cfg_ok B" and d: "distinct xs"
    and ok: "\<And>n. n \<in> set xs \<Longrightarrow> \<exists>t es. node_ok B t es n (the (N n))"
  shows "Suc (length xs) < 2 ^ 64" "Suc (\<Sum>n\<leftarrow>xs. n_numElements (the (N n))) < 2 ^ 64"
proof -
  have blk: "B dvd n \<and> 0 < n \<and> n + B \<le> 2 ^ 64" if "n \<in> set xs" for n
    using ok[OF that] node_ok_geom node_geom_def by blast
  have lt: "n_numElements (the (N n)) \<le> B - 1" if n: "n \<in> set xs" for n
  proof -
    from ok[OF n] obtain t es where k: "node_ok B t es n (the (N n))" by blast
    show ?thesis
      using node_capacity_less[OF node_ok_geom[OF k]] card_used_le[of "the (N n)"] node_ok_count[OF k] by linarith
  qed
  show "Suc (length xs) < 2 ^ 64" "Suc (\<Sum>n\<leftarrow>xs. n_numElements (the (N n))) < 2 ^ 64"
  proof (goal_cases)
    case 1
    show ?case
    proof (cases "xs = []")
      case False
      have "length xs * 2 \<le> length xs * B" using B by (intro mult_le_mono2) (simp add: cfg_ok_def sizeof_pumaNode_def)
      then show ?thesis using aligned_blocks_bound[OF d blk False] False by (cases xs) auto
    qed simp
  next
    case 2
    show ?case
    proof (cases "xs = []")
      case False
      have "(\<Sum>n\<leftarrow>xs. n_numElements (the (N n))) \<le> (\<Sum>n\<leftarrow>xs. B - 1)"
        by (rule sum_list_mono) (rule lt)
      also have "\<dots> = length xs * (B - 1)" by (simp add: sum_list_triv)
      finally have *: "(\<Sum>n\<leftarrow>xs. n_numElements (the (N n))) \<le> length xs * (B - 1)" .
      have "length xs * 1 \<le> length xs * B" using cfg_ok_pos[OF B] by (intro mult_le_mono2) simp
      with * have "(\<Sum>n\<leftarrow>xs. n_numElements (the (N n))) + length xs \<le> length xs * B"
        unfolding diff_mult_distrib2 by linarith
      then show ?thesis using aligned_blocks_bound[OF d blk False] False by (cases xs) auto
    qed simp
  qed
qed

lemma list_ok_bounds:
  assumes ok: "list_ok B t l N xs ys" and B: "cfg_ok B"
  shows "Suc (length xs) < 2 ^ 64" "Suc (\<Sum>n\<leftarrow>xs. n_numElements (the (N n))) < 2 ^ 64"
proof -
  have d: "distinct xs" using list_ok_distinct[OF ok] by simp
  have ex: "\<exists>t es. node_ok B t es n (the (N n))" if "n \<in> set xs" for n
    using list_ok_node[OF ok, of n] that by (metis UnCI option.sel)
  show "Suc (length xs) < 2 ^ 64" by (rule nodes_bounds(1)[OF B d ex])
  show "Suc (\<Sum>n\<leftarrow>xs. n_numElements (the (N n))) < 2 ^ 64" by (rule nodes_bounds(2)[OF B d ex])
qed

section \<open>Elementary changes\<close>

lemma the_upd [simp]: "the ((N(n \<mapsto> nd)) m) = (if m = n then nd else the (N m))"
  by simp

lemma in_set_not_Nil: "x \<in> set xs \<Longrightarrow> xs \<noteq> []"
  by auto

lemma map_the_upd:
  "n \<notin> set xs \<Longrightarrow> map (\<lambda>m. f (the ((N(n \<mapsto> nd)) m))) xs = map (\<lambda>m. f (the (N m))) xs"
  by (rule map_cong) auto

text \<open>The parts of the invariant as separate facts.\<close>

lemma list_okD:
  assumes "list_ok B t l N xs ys"
  shows "distinct (xs @ ys)" "links N 0 (xs @ ys) 0"
    "\<And>n. n \<in> set xs \<union> set ys \<Longrightarrow> node_ok B t (tl_elementSize l) n (the (N n))"
    "\<And>n. n \<in> set xs \<Longrightarrow> n_active (the (N n))"
    "\<And>n. n \<in> set ys \<Longrightarrow> \<not> n_active (the (N n)) \<and> n_numElements (the (N n)) = 0"
    "map (\<lambda>n. n_index (the (N n))) xs = [0..<length xs]"
    "xs = [] \<Longrightarrow> ys \<noteq> [] \<Longrightarrow> n_index (the (N (hd ys))) = 0"
    "tl_head l = firstOr (xs @ ys) 0" "tl_tail l = (if xs = [] then firstOr ys 0 else last xs)"
    "tl_numNodes l = length xs" "tl_numElements l = (\<Sum>n\<leftarrow>xs. n_numElements (the (N n)))"
  using assms unfolding list_ok_def by auto

lemma list_okI:
  assumes "distinct (xs @ ys)" "links N 0 (xs @ ys) 0"
    "\<And>n. n \<in> set xs \<union> set ys \<Longrightarrow> node_ok B t (tl_elementSize l) n (the (N n))"
    "\<And>n. n \<in> set xs \<Longrightarrow> n_active (the (N n))"
    "\<And>n. n \<in> set ys \<Longrightarrow> \<not> n_active (the (N n)) \<and> n_numElements (the (N n)) = 0"
    "map (\<lambda>n. n_index (the (N n))) xs = [0..<length xs]"
    "xs = [] \<Longrightarrow> ys \<noteq> [] \<Longrightarrow> n_index (the (N (hd ys))) = 0"
    "tl_head l = firstOr (xs @ ys) 0" "tl_tail l = (if xs = [] then firstOr ys 0 else last xs)"
    "tl_numNodes l = length xs" "tl_numElements l = (\<Sum>n\<leftarrow>xs. n_numElements (the (N n)))"
  shows "list_ok B t l N xs ys"
  unfolding list_ok_def using assms by auto

lemma lists_disjoint:
  assumes "list_ok B t l N xs ys" "list_ok B u k N zs ws" "t \<noteq> u"
  shows "set (xs @ ys) \<inter> set (zs @ ws) = {}"
  using list_okD(3)[OF assms(1), THEN node_okD(3)] list_okD(3)[OF assms(2), THEN node_okD(3)] assms(3) by auto

lemma list_ok_nz: "list_ok B t l N xs ys \<Longrightarrow> n \<in> set xs \<union> set ys \<Longrightarrow> 0 < n"
  by (metis list_ok_node node_geom_def node_ok_geom)

lemma links_upd_same:
  assumes "links N p ns b" "N n = Some nd" "n_prev nd' = n_prev nd" "n_next nd' = n_next nd"
  shows "links (N(n \<mapsto> nd')) p ns b"
  by (rule links_cong[OF assms(1)]) (use assms(2-4) in auto)

lemma list_ok_update:
  assumes ok: "list_ok B t l N xs ys" and n: "n \<in> set xs \<union> set ys" "N n = Some nd"
    and nd': "node_ok B t (tl_elementSize l) n nd'" "n_prev nd' = n_prev nd" "n_next nd' = n_next nd"
      "n_active nd' = n_active nd" "n_index nd' = n_index nd"
      "n \<in> set ys \<Longrightarrow> n_numElements nd' = 0"
    and l': "tl_numElements l' + n_numElements nd = tl_numElements l + n_numElements nd'"
      "tl_head l' = tl_head l" "tl_tail l' = tl_tail l" "tl_numNodes l' = tl_numNodes l"
      "tl_elementSize l' = tl_elementSize l"
  shows "list_ok B t l' (N(n \<mapsto> nd')) xs ys"
proof -
  note D = list_okD[OF ok]
  have idx: "map (\<lambda>m. n_index (the ((N(n \<mapsto> nd')) m))) xs = map (\<lambda>m. n_index (the (N m))) xs"
    using n nd' by auto
  have num: "tl_numElements l' = (\<Sum>m\<leftarrow>xs. n_numElements (the ((N(n \<mapsto> nd')) m)))"
  proof (cases "n \<in> set xs")
    case True
    have e: "(\<lambda>m. n_numElements (the ((N(n \<mapsto> nd')) m)))
        = (\<lambda>m. if m = n then n_numElements nd' else n_numElements (the (N m)))" by auto
    have "(\<Sum>m\<leftarrow>xs. n_numElements (the ((N(n \<mapsto> nd')) m))) + n_numElements nd
        = (\<Sum>m\<leftarrow>xs. n_numElements (the (N m))) + n_numElements nd'"
      using sum_list_map_upd[of xs n "n_numElements nd'" "\<lambda>m. n_numElements (the (N m))"] D(1) True n(2)
      unfolding e by simp
    then show ?thesis using l'(1) D(11) by linarith
  next
    case False
    with n have y: "n \<in> set ys" by simp
    then have "n_numElements nd = 0" "n_numElements nd' = 0" using D(5)[of n] n nd'(6) by auto
    moreover have "(\<Sum>m\<leftarrow>xs. n_numElements (the ((N(n \<mapsto> nd')) m))) = (\<Sum>m\<leftarrow>xs. n_numElements (the (N m)))"
      using False by (auto intro!: arg_cong[where f = sum_list])
    ultimately show ?thesis using l'(1) D(11) by simp
  qed
  show ?thesis
  proof (rule list_okI)
    show "links (N(n \<mapsto> nd')) 0 (xs @ ys) 0" by (rule links_upd_same[OF D(2) n(2) nd'(2,3)])
    show "map (\<lambda>m. n_index (the ((N(n \<mapsto> nd')) m))) xs = [0..<length xs]" using idx D(6) by simp
    show "tl_numElements l' = (\<Sum>m\<leftarrow>xs. n_numElements (the ((N(n \<mapsto> nd')) m)))" by (rule num)
    show "n_index (the ((N(n \<mapsto> nd')) (hd ys))) = 0" if "xs = []" "ys \<noteq> []"
      using D(7)[OF that] n nd' by auto
    show "n_active (the ((N(n \<mapsto> nd')) m))" if "m \<in> set xs" for m
      using D(4)[OF that] n nd' by auto
    show "\<not> n_active (the ((N(n \<mapsto> nd')) m)) \<and> n_numElements (the ((N(n \<mapsto> nd')) m)) = 0" if "m \<in> set ys" for m
      using D(5)[OF that] that n nd' by auto
  qed (use D l' nd' in auto)
qed

text \<open>The last active node is empty and becomes the first inactive one.\<close>

lemma list_ok_deactivate:
  assumes ok: "list_ok B t l N (xs @ [n]) ys" and n: "N n = Some nd" "n_numElements nd = 0"
    and l': "tl_head l' = tl_head l" "tl_elementSize l' = tl_elementSize l"
      "tl_numElements l' = tl_numElements l" "tl_numNodes l' = length xs"
      "tl_tail l' = (if xs = [] then n else last xs)"
  shows "list_ok B t l' (N(n \<mapsto> nd\<lparr>n_active := False\<rparr>)) xs (n # ys)"
proof -
  note D = list_okD[OF ok]
  let ?nd = "nd\<lparr>n_active := False\<rparr>"
  let ?N = "N(n \<mapsto> ?nd)"
  have nx: "n \<notin> set xs" using D(1) by auto
  have ok': "node_ok B t (tl_elementSize l) n ?nd"
    using D(3)[of n] n by simp
  show ?thesis
  proof (rule list_okI)
    show "links ?N 0 (xs @ n # ys) 0"
      using links_upd_same[OF D(2) n(1), of ?nd] by simp
    show "node_ok B t (tl_elementSize l') m (the (?N m))" if "m \<in> set xs \<union> set (n # ys)" for m
      using D(3)[of m] ok' that l'(2) by auto
    show "n_active (the (?N m))" if "m \<in> set xs" for m using D(4)[of m] that nx by auto
    show "\<not> n_active (the (?N m)) \<and> n_numElements (the (?N m)) = 0" if "m \<in> set (n # ys)" for m
      using D(5)[of m] that n(2) by auto
    show "map (\<lambda>m. n_index (the (?N m))) xs = [0..<length xs]"
      using D(6) unfolding map_the_upd[OF nx] by simp
    show "n_index (the (?N (hd (n # ys)))) = 0" if "xs = []"
      using D(6) n that by simp
    show "tl_numElements l' = (\<Sum>m\<leftarrow>xs. n_numElements (the (?N m)))"
      using D(11) n l'(3) unfolding map_the_upd[OF nx] by simp
  qed (use D l' in auto)
qed

text \<open>The first inactive node becomes the last active one.\<close>

lemma list_ok_activate:
  assumes ok: "list_ok B t l N xs (n # ys)" and n: "N n = Some nd"
    and l': "tl_head l' = tl_head l" "tl_elementSize l' = tl_elementSize l"
      "tl_numElements l' = tl_numElements l" "tl_numNodes l' = Suc (length xs)" "tl_tail l' = n"
    and nd': "nd' = nd\<lparr>n_active := True, n_index := length xs\<rparr>"
  shows "list_ok B t l' (N(n \<mapsto> nd')) (xs @ [n]) ys"
proof -
  note D = list_okD[OF ok]
  let ?N = "N(n \<mapsto> nd')"
  have nx: "n \<notin> set xs" "n \<notin> set ys" using D(1) by auto
  have n0: "n_numElements nd = 0" using D(5)[of n] n by simp
  have ok': "node_ok B t (tl_elementSize l) n nd'"
    using D(3)[of n] n by (simp add: nd')
  show ?thesis
  proof (rule list_okI)
    have "links N 0 (xs @ n # ys) 0" by (rule D(2))
    then have "links ?N 0 (xs @ n # ys) 0" by (rule links_upd_same[where n = n and nd = nd]) (simp_all add: n nd')
    then show "links ?N 0 ((xs @ [n]) @ ys) 0" by simp
    show "node_ok B t (tl_elementSize l') m (the (?N m))" if "m \<in> set (xs @ [n]) \<union> set ys" for m
      using D(3)[of m] ok' that l'(2) by auto
    show "n_active (the (?N m))" if "m \<in> set (xs @ [n])" for m
      using D(4)[of m] that nd' by auto
    show "\<not> n_active (the (?N m)) \<and> n_numElements (the (?N m)) = 0" if "m \<in> set ys" for m
      using D(5)[of m] that nx by auto
    have "map (\<lambda>m. n_index (the (?N m))) xs = [0..<length xs]"
      using D(6) unfolding map_the_upd[OF nx(1)] .
    then show "map (\<lambda>m. n_index (the (?N m))) (xs @ [n]) = [0..<length (xs @ [n])]"
      by (simp add: nd')
    have "(\<Sum>m\<leftarrow>xs. n_numElements (the (?N m))) = (\<Sum>m\<leftarrow>xs. n_numElements (the (N m)))"
      unfolding map_the_upd[OF nx(1)] ..
    then show "tl_numElements l' = (\<Sum>m\<leftarrow>xs @ [n]. n_numElements (the (?N m)))"
      using D(11) l'(3) n0 by (simp add: nd')
  qed (use D l' in auto)
qed

text \<open>A fresh node is appended after the last active one; there is no inactive one.\<close>

lemma list_ok_append:
  assumes ok: "list_ok B t l N xs []" and a: "a \<notin> set xs"
    and nd: "node_ok B t (tl_elementSize l) a nd" "n_prev nd = lastOr 0 xs" "n_next nd = 0" "n_active nd"
      "n_index nd = length xs" "n_numElements nd = 0"
    and N': "N' a = Some nd" "\<And>m. m \<in> set xs \<Longrightarrow> m \<noteq> last xs \<Longrightarrow> N' m = N m"
      "xs \<noteq> [] \<Longrightarrow> N' (last xs) = Some ((the (N (last xs)))\<lparr>n_next := a\<rparr>)"
    and l': "tl_head l' = firstOr xs a" "tl_elementSize l' = tl_elementSize l"
      "tl_numElements l' = tl_numElements l" "tl_numNodes l' = Suc (length xs)" "tl_tail l' = a"
  shows "list_ok B t l' N' (xs @ [a]) []"
proof -
  note D = list_okD[OF ok]
  have same: "n_index (the (N' m)) = n_index (the (N m)) \<and> n_numElements (the (N' m)) = n_numElements (the (N m))
      \<and> n_active (the (N' m)) = n_active (the (N m))
      \<and> (node_ok B t (tl_elementSize l) m (the (N m)) \<longrightarrow> node_ok B t (tl_elementSize l) m (the (N' m)))"
    if "m \<in> set xs" for m
    using N'(2)[OF that] N'(3)[OF in_set_not_Nil[OF that]] by (cases "m = last xs") auto
  have lk: "links N' 0 (xs @ [a]) 0"
  proof (cases xs rule: rev_cases)
    case Nil
    then show ?thesis using N'(1) nd by simp
  next
    case (snoc zs z)
    have z: "z \<notin> set zs" using D(1) snoc by auto
    from D(2) snoc have "links N 0 zs z" by simp
    then have "links N' 0 zs z"
      using links_frame[of zs N' N 0 z] N'(2) z snoc by fastforce
    moreover obtain nz where "N z = Some nz" "n_prev nz = lastOr 0 zs" using D(2) snoc by auto
    then have "N' z = Some (nz\<lparr>n_next := a\<rparr>)" "n_prev nz = lastOr 0 zs" using N'(3) snoc by auto
    ultimately show ?thesis using N'(1) nd snoc by (auto simp: lastOr_def)
  qed
  show ?thesis
  proof (rule list_okI)
    show "links N' 0 ((xs @ [a]) @ []) 0" using lk by simp
    show "node_ok B t (tl_elementSize l') m (the (N' m))" if "m \<in> set (xs @ [a]) \<union> set []" for m
      using D(3)[of m] same[of m] that N'(1) nd(1) l'(2) by auto
    show "n_active (the (N' m))" if "m \<in> set (xs @ [a])" for m
      using D(4)[of m] same[of m] that N'(1) nd(4) by auto
    have "map (\<lambda>m. n_index (the (N' m))) xs = [0..<length xs]"
      using D(6) same by (simp cong: list.map_cong_simp)
    then show "map (\<lambda>m. n_index (the (N' m))) (xs @ [a]) = [0..<length (xs @ [a])]"
      using N'(1) nd(5) by simp
    have "(\<Sum>m\<leftarrow>xs. n_numElements (the (N' m))) = (\<Sum>m\<leftarrow>xs. n_numElements (the (N m)))"
      using same by (auto intro!: arg_cong[where f = sum_list])
    then show "tl_numElements l' = (\<Sum>m\<leftarrow>xs @ [a]. n_numElements (the (N' m)))"
      using D(11) l'(3) N'(1) nd(6) by simp
  qed (use D l' a in auto)
qed

text \<open>The inactive nodes are cut off behind the last active one.\<close>

lemma list_ok_cut:
  assumes ok: "list_ok B t l N (xs @ [n]) ys" and n: "N n = Some nd"
    and N': "\<And>m. m \<in> set xs \<Longrightarrow> N' m = N m" "N' n = Some (nd\<lparr>n_next := 0\<rparr>)"
  shows "list_ok B t l N' (xs @ [n]) []"
proof -
  note D = list_okD[OF ok]
  have ok': "node_ok B t (tl_elementSize l) n (nd\<lparr>n_next := 0\<rparr>)"
    using D(3)[of n] n by simp
  show ?thesis
  proof (rule list_okI)
    have "links N' 0 xs n" using links_frame[of xs N' N 0 n] N'(1) D(2) by simp
    then show "links N' 0 ((xs @ [n]) @ []) 0" using N'(2) D(2) n by auto
    show "node_ok B t (tl_elementSize l) m (the (N' m))" if "m \<in> set (xs @ [n]) \<union> set []" for m
      using D(3)[of m] that N' ok' by auto
    show "n_active (the (N' m))" if "m \<in> set (xs @ [n])" for m
      using D(4)[of m] that N' n by auto
    show "map (\<lambda>m. n_index (the (N' m))) (xs @ [n]) = [0..<length (xs @ [n])]"
      using D(6) N' n by (auto cong: map_cong)
    have "(\<Sum>m\<leftarrow>xs. n_numElements (the (N' m))) = (\<Sum>m\<leftarrow>xs. n_numElements (the (N m)))"
      using N' by (auto intro!: arg_cong[where f = sum_list])
    then show "tl_numElements l = (\<Sum>m\<leftarrow>xs @ [n]. n_numElements (the (N' m)))"
      using D(11) N' n by simp
  qed (use D in auto)
qed

section \<open>Live elements and their contents\<close>

definition liveOf :: "pumaNode \<Rightarrow> addr set" where
  "liveOf nd = slotAddr nd ` used nd"

definition liveAddrs :: "(addr \<Rightarrow> pumaNode option) \<Rightarrow> addr list \<Rightarrow> addr set" where
  "liveAddrs N ns = (\<Union>n\<in>set ns. liveOf (the (N n)))"

definition contents :: "(addr \<Rightarrow> pumaNode option) \<Rightarrow> (addr \<Rightarrow> 'e) \<Rightarrow> addr list \<Rightarrow> 'e multiset" where
  "contents N c ns = image_mset c (mset_set (liveAddrs N ns))"

lemma liveAddrs_simps [simp]:
  "liveAddrs N [] = {}"
  "liveAddrs N (n # ns) = liveOf (the (N n)) \<union> liveAddrs N ns"
  "liveAddrs N (ns @ ms) = liveAddrs N ns \<union> liveAddrs N ms"
  by (auto simp: liveAddrs_def)

lemma liveAddrs_finite [simp]: "finite (liveAddrs N ns)" "finite (liveOf nd)"
  by (simp_all add: liveAddrs_def liveOf_def)

lemma liveOf_upd [simp]:
  "liveOf (nd\<lparr>n_next := x\<rparr>) = liveOf nd" "liveOf (nd\<lparr>n_prev := x\<rparr>) = liveOf nd"
  "liveOf (nd\<lparr>n_active := c\<rparr>) = liveOf nd" "liveOf (nd\<lparr>n_index := i\<rparr>) = liveOf nd"
  "liveOf (nd\<lparr>n_dirty := c\<rparr>) = liveOf nd" "liveOf (nd\<lparr>n_firstKnownFree := i\<rparr>) = liveOf nd"
  "liveOf (nd\<lparr>n_numElements := i\<rparr>) = liveOf nd" "liveOf (nd\<lparr>n_threadList := i\<rparr>) = liveOf nd"
  by (simp_all add: liveOf_def)

lemma liveAddrs_cong: "(\<And>n. n \<in> set ns \<Longrightarrow> liveOf (the (N' n)) = liveOf (the (N n))) \<Longrightarrow> liveAddrs N' ns = liveAddrs N ns"
  by (auto simp: liveAddrs_def)

lemma liveOf_empty: "node_ok B t es a nd \<Longrightarrow> n_numElements nd = 0 \<Longrightarrow> liveOf nd = {}"
  by (simp add: liveOf_def node_ok_empty)

lemma list_ok_live_inactive: "list_ok B t l N xs ys \<Longrightarrow> liveAddrs N ys = {}"
  using list_okD(3,5)[of B t l N xs ys] liveOf_empty by (fastforce simp: liveAddrs_def)

lemma liveOf_block:
  assumes "node_geom B a nd" "x \<in> liveOf nd"
  shows "x - x mod B = a"
  using assms slot_block by (auto simp: liveOf_def dest: used_less)

lemma liveOf_disjoint:
  assumes "node_geom B a nd" "node_geom B b nd'" "a \<noteq> b"
  shows "liveOf nd \<inter> liveOf nd' = {}"
  using liveOf_block[OF assms(1)] liveOf_block[OF assms(2)] assms(3) by blast

lemma card_liveOf: "node_ok B t es a nd \<Longrightarrow> card (liveOf nd) = n_numElements nd"
proof -
  assume ok: "node_ok B t es a nd"
  have "inj_on (slotAddr nd) (used nd)"
    by (rule inj_onI) (simp add: slot_less_iff(3)[OF node_ok_geom[OF ok]])
  then show ?thesis by (simp add: liveOf_def card_image node_ok_count[OF ok])
qed

text \<open>The list's element counter is the number of its live elements.\<close>

lemma list_ok_card_live:
  assumes ok: "list_ok B t l N xs ys"
  shows "card (liveAddrs N xs) = tl_numElements l"
proof -
  note D = list_okD[OF ok]
  have "card (liveAddrs N xs) = (\<Sum>n\<in>set xs. card (liveOf (the (N n))))"
    unfolding liveAddrs_def
    by (rule card_UN_disjoint) (auto dest!: liveOf_disjoint[OF node_ok_geom[OF D(3)] node_ok_geom[OF D(3)], rotated 2])
  also have "\<dots> = (\<Sum>n\<in>set xs. n_numElements (the (N n)))"
    by (rule sum.cong) (auto intro: card_liveOf D(3))
  also have "\<dots> = tl_numElements l"
    using D(1,11) by (simp add: sum_list_distinct_conv_sum_set)
  finally show ?thesis .
qed

section \<open>Frames\<close>

text \<open>\<open>framed t A s s'\<close>: only the list \<open>t\<close>, the nodes in \<open>A\<close> and the cells of their blocks may differ.\<close>

definition desc :: "pumaThreadList \<Rightarrow> nat \<times> bool \<times> int \<times> nat" where
  "desc l = (tl_elementSize l, tl_active l, tl_numaDomain l, tl_tid l)"

lemma desc_upd [simp]:
  "desc (l\<lparr>tl_head := a\<rparr>) = desc l" "desc (l\<lparr>tl_tail := a\<rparr>) = desc l"
  "desc (l\<lparr>tl_numElements := i\<rparr>) = desc l" "desc (l\<lparr>tl_numNodes := i\<rparr>) = desc l"
  by (simp_all add: desc_def)

definition framed :: "addr \<Rightarrow> addr set \<Rightarrow> 'e mem \<Rightarrow> 'e mem \<Rightarrow> bool" where
  "framed t A s s' \<longleftrightarrow> pumaPageSize s' = pumaPageSize s \<and> PUMA_NODEPAGES s' = PUMA_NODEPAGES s
     \<and> (\<forall>u. u \<noteq> t \<longrightarrow> tlists s' u = tlists s u) \<and> (\<forall>a. a \<notin> A \<longrightarrow> nodeAt s' a = nodeAt s a)
     \<and> map_option desc (tlists s' t) = map_option desc (tlists s t)
     \<and> (\<forall>c. c - c mod nodeBytes s \<notin> A \<longrightarrow> cells s' c = cells s c)"

lemma framed_refl [simp]: "framed t A s s"
  by (simp add: framed_def)

lemma framed_nodeBytes: "framed t A s s' \<Longrightarrow> nodeBytes s' = nodeBytes s"
  by (simp add: framed_def nodeBytes_def)

lemma framed_trans: "framed t A s s' \<Longrightarrow> framed t A s' s'' \<Longrightarrow> framed t A s s''"
  using framed_nodeBytes[of t A s s'] by (simp add: framed_def)

lemma framed_mono: "framed t A s s' \<Longrightarrow> A \<subseteq> A' \<Longrightarrow> framed t A' s s'"
  by (auto simp: framed_def)

lemma framed_puts [simp]:
  "a \<in> A \<Longrightarrow> framed t A s (putNode a nd s')  \<longleftrightarrow> framed t A s s'"
  "a \<in> A \<Longrightarrow> framed t A s (dropNode a s') \<longleftrightarrow> framed t A s s'"
  "c - c mod nodeBytes s \<in> A \<Longrightarrow> framed t A s (putCell c v s') \<longleftrightarrow> framed t A s s'"
  by (auto simp: framed_def putNode_def dropNode_def putCell_def)

lemma framed_putList [simp]:
  assumes "tlists s' t = Some l0" "desc l = desc l0"
  shows "framed t A s (putList t l s') \<longleftrightarrow> framed t A s s'"
  using assms by (auto simp: framed_def putList_def)

lemma framed_list:
  assumes "framed t A s s'" "tlists s t = Some l"
  obtains l' where "tlists s' t = Some l'" "desc l' = desc l"
  using assms by (auto simp: framed_def)

text \<open>Another list, disjoint from the changed nodes, keeps its invariant.\<close>

lemma framed_tl_inv:
  assumes "framed t A s s'" "tl_inv s u xs ys" "u \<noteq> t" "A \<inter> (set xs \<union> set ys) = {}"
  shows "tl_inv s' u xs ys"
proof -
  from assms(2) obtain l where l: "cfg_ok (nodeBytes s)" "tlists s u = Some l"
    "list_ok (nodeBytes s) u l (nodeAt s) xs ys" by (rule tl_invE)
  have "list_ok (nodeBytes s) u l (nodeAt s') xs ys"
  proof (subst list_ok_frame[of xs ys "nodeAt s'" "nodeAt s"])
    show "nodeAt s' n = nodeAt s n" if "n \<in> set xs \<union> set ys" for n
      using that assms(1,4) unfolding framed_def by blast
  qed (rule l(3))
  then show ?thesis
    using l framed_nodeBytes[OF assms(1)] assms(1,3) by (auto simp: tl_inv_def framed_def)
qed

section \<open>Live elements after a change\<close>

lemma tl_inv_putCell [simp]: "tl_inv (putCell e v s) t xs ys = tl_inv s t xs ys"
  by (simp add: tl_inv_def mem_simps)

lemma tl_inv_putNode:
  assumes inv: "tl_inv s t xs ys" and n: "n \<in> set xs \<union> set ys" "nodeAt s n = Some nd"
    and ok: "\<And>es. node_ok (nodeBytes s) t es n nd \<Longrightarrow> node_ok (nodeBytes s) t es n nd'"
    and eq: "n_prev nd' = n_prev nd" "n_next nd' = n_next nd" "n_active nd' = n_active nd"
      "n_index nd' = n_index nd" "n_numElements nd' = n_numElements nd"
  shows "tl_inv (putNode n nd' s) t xs ys"
proof -
  from inv obtain l where l: "cfg_ok (nodeBytes s)" "tlists s t = Some l"
    and lok: "list_ok (nodeBytes s) t l (nodeAt s) xs ys" by (rule tl_invE)
  have "list_ok (nodeBytes s) t l ((nodeAt s)(n \<mapsto> nd')) xs ys"
  proof (rule list_ok_update[OF lok n])
    show "node_ok (nodeBytes s) t (tl_elementSize l) n nd'"
      by (rule ok) (use list_okD(3)[OF lok n(1)] n(2) in simp)
    show "n_numElements nd' = 0" if "n \<in> set ys" using list_okD(5)[OF lok that] n(2) eq by simp
  qed (use eq in simp_all)
  then show ?thesis using l by (simp add: tl_inv_def mem_simps)
qed

lemma liveAddrs_same:
  "nodeAt s n = Some nd \<Longrightarrow> liveOf nd' = liveOf nd \<Longrightarrow> liveAddrs ((nodeAt s)(n \<mapsto> nd')) xs = liveAddrs (nodeAt s) xs"
  by (rule liveAddrs_cong) simp

lemma list_ok_inactive:
  assumes "list_ok B t l N xs ys" "y \<in> set ys"
  obtains ny where "N y = Some ny" "\<not> n_active ny"
proof -
  have "y \<in> set xs \<union> set ys" using assms(2) by simp
  from list_ok_node[OF assms(1) this] obtain ny where "N y = Some ny" by blast
  then show thesis using that list_okD(5)[OF assms] by simp
qed

lemma list_ok_active:
  assumes "list_ok B t l N xs ys" "n \<in> set xs"
  obtains nd where "N n = Some nd" "n_active nd" "node_ok B t (tl_elementSize l) n nd"
proof -
  have "n \<in> set xs \<union> set ys" using assms(2) by simp
  from list_ok_node[OF assms(1) this] obtain nd where "N n = Some nd" "node_ok B t (tl_elementSize l) n nd" by blast
  then show thesis using that list_okD(4)[OF assms] by simp
qed

lemma liveAddrs_split:
  "n \<in> set xs \<Longrightarrow> liveAddrs N xs = liveOf (the (N n)) \<union> (\<Union>m\<in>set xs - {n}. liveOf (the (N m)))"
  unfolding liveAddrs_def by blast

lemma liveAddrs_take:
  assumes "n \<in> set xs" "N n = Some nd" "liveOf nd' = insert a (liveOf nd)"
  shows "liveAddrs (N(n \<mapsto> nd')) xs = insert a (liveAddrs N xs)"
  unfolding liveAddrs_split[OF assms(1)] using assms(2,3) by simp

lemma free_slot_not_live:
  assumes ok: "list_ok B t l N xs ys" and n: "n \<in> set xs" "N n = Some nd"
    and i: "i < n_capacity nd" "i \<notin> used nd"
  shows "slotAddr nd i \<notin> liveAddrs N xs"
proof
  have g: "node_geom B n nd" using node_ok_geom[OF list_okD(3)[OF ok, of n]] n by simp
  assume "slotAddr nd i \<in> liveAddrs N xs"
  then obtain m where m: "m \<in> set xs" "slotAddr nd i \<in> liveOf (the (N m))" by (auto simp: liveAddrs_def)
  have gm: "node_geom B m (the (N m))" by (rule node_ok_geom[OF list_okD(3)[OF ok]]) (use m in simp)
  have "n = m" using liveOf_block[OF gm m(2)] slot_block[OF g i(1)] by simp
  then show False using m(2) n(2) i(2) slot_less_iff(3)[OF g] by (auto simp: liveOf_def)
qed

lemma contents_insert:
  "liveAddrs N' xs' = insert e (liveAddrs N xs) \<Longrightarrow> e \<notin> liveAddrs N xs \<Longrightarrow>
   contents N' c xs' = add_mset (c e) (contents N c xs)"
  by (simp add: contents_def)

lemma contents_delete:
  assumes "liveAddrs N' xs' = liveAddrs N xs - {e}" "e \<in> liveAddrs N xs"
  shows "contents N c xs = add_mset (c e) (contents N' c xs')"
proof -
  have "insert e (liveAddrs N' xs') = liveAddrs N xs" "e \<notin> liveAddrs N' xs'" using assms by auto
  then show ?thesis using contents_insert[of N xs e N' xs' c] by simp
qed

lemma size_contents: "size (contents N c xs) = card (liveAddrs N xs)"
  by (simp add: contents_def)

lemma liveAddrs_release:
  assumes ok: "list_ok B t l N xs ys" and n: "n \<in> set xs" "N n = Some nd" and a: "a \<in> liveOf nd"
    and N': "N' n = Some nd'" "liveOf nd' = liveOf nd - {a}" "\<And>m. m \<in> set xs \<Longrightarrow> m \<noteq> n \<Longrightarrow> N' m = N m"
  shows "liveAddrs N' xs = liveAddrs N xs - {a}"
proof -
  note G = node_ok_geom[OF list_okD(3)[OF ok]]
  have "a \<notin> liveOf (the (N m))" if "m \<in> set xs - {n}" for m
    using liveOf_disjoint[OF G[of m] G[of n]] that n a by auto
  moreover have "(\<Union>m\<in>set xs - {n}. liveOf (the (N' m))) = (\<Union>m\<in>set xs - {n}. liveOf (the (N m)))"
    using N'(3) by simp
  ultimately show ?thesis
    unfolding liveAddrs_split[OF n(1)] using n(2) N'(1,2) by auto
qed

text \<open>Moving the content of one live element to a free slot keeps the contents.\<close>

lemma contents_move:
  assumes "finite A" "x \<in> A" "y \<notin> A"
  shows "image_mset (c(y := c x)) (mset_set (insert y A - {x})) = image_mset c (mset_set A)"
proof -
  have "insert y A - {x} = insert y (A - {x})" using assms by auto
  moreover have "image_mset (c(y := c x)) (mset_set (A - {x})) = image_mset c (mset_set (A - {x}))"
    by (rule image_mset_cong) (use assms in auto)
  ultimately have "image_mset (c(y := c x)) (mset_set (insert y A - {x}))
      = image_mset c (add_mset x (mset_set (A - {x})))"
    using assms by simp
  also have "add_mset x (mset_set (A - {x})) = mset_set A"
    using assms mset_set.insert_remove[of A x] by (simp add: insert_absorb)
  finally show ?thesis .
qed

section \<open>Contents of parts of a list\<close>

lemma cells_upd_simps [simp]:
  "nodes (s\<lparr>cells := c\<rparr>) = nodes s" "cells (s\<lparr>cells := c\<rparr>) = c" "tlists (s\<lparr>cells := c\<rparr>) = tlists s"
  "nodeBytes (s\<lparr>cells := c\<rparr>) = nodeBytes s"
  "tl_inv (s\<lparr>cells := c\<rparr>) t xs ys = tl_inv s t xs ys"
  by (simp_all add: nodeBytes_def tl_inv_def)

lemma framed_cells:
  assumes "framed t A s s'" "\<And>a. a - a mod nodeBytes s \<notin> A \<Longrightarrow> c a = cells s' a"
  shows "framed t A s (s'\<lparr>cells := c\<rparr>)"
  using assms by (simp add: framed_def)

lemma list_ok_live_block:
  assumes "list_ok B t l N xs ys" "m \<in> set xs" "a \<in> liveOf (the (N m))"
  shows "a - a mod B = m"
  using liveOf_block[OF node_ok_geom[OF list_okD(3)[OF assms(1)]] assms(3)] assms(2) by simp

text \<open>The contents of two parts of a list without a common node add up.\<close>

lemma contents_parts:
  assumes ok: "list_ok B t l N xs ys" and sub: "set (us @ vs) \<subseteq> set xs" "set us \<inter> set vs = {}"
  shows "contents N c (us @ vs) = contents N c us + contents N c vs"
proof -
  have "liveAddrs N us \<inter> liveAddrs N vs = {}"
  proof (rule ccontr)
    assume "\<not> ?thesis"
    then obtain a m n where a: "m \<in> set us" "a \<in> liveOf (the (N m))" "n \<in> set vs" "a \<in> liveOf (the (N n))"
      by (auto simp: liveAddrs_def)
    then have "m = n"
      using list_ok_live_block[OF ok, of m a] list_ok_live_block[OF ok, of n a] sub(1) by auto
    then show False using a(1,3) sub(2) by auto
  qed
  then show ?thesis by (simp add: contents_def mset_set_Union)
qed

lemma contents_append:
  assumes ok: "list_ok B t l N (us @ vs) ys"
  shows "contents N c (us @ vs) = contents N c us + contents N c vs"
  by (rule contents_parts[OF ok]) (use list_okD(1)[OF ok] in auto)

lemma contents_cong:
  assumes "\<And>m. m \<in> set xs \<Longrightarrow> liveOf (the (N' m)) = liveOf (the (N m))"
    and "\<And>m a. m \<in> set xs \<Longrightarrow> a \<in> liveOf (the (N m)) \<Longrightarrow> c' a = c a"
  shows "contents N' c' xs = contents N c xs"
proof -
  have l: "liveAddrs N' xs = liveAddrs N xs" by (rule liveAddrs_cong) (rule assms(1))
  have "c' a = c a" if "a \<in># mset_set (liveAddrs N xs)" for a
    using that assms(2) by (auto simp: liveAddrs_def)
  then show ?thesis unfolding contents_def l by (rule image_mset_cong)
qed

lemma contents_compact:
  assumes g: "node_geom B n nd" and n: "N n = Some nd" and u: "used nd = {..<k}"
  shows "contents N c [n] = mset (map c (map (slotAddr nd) [0..<k]))"
proof -
  have inj: "inj_on (slotAddr nd) {..<k}" by (rule inj_onI) (simp add: slot_less_iff(3)[OF g])
  have "liveAddrs N [n] = slotAddr nd ` {..<k}" using n u by (simp add: liveOf_def)
  then have "mset_set (liveAddrs N [n]) = image_mset (slotAddr nd) (mset_set {..<k})"
    using image_mset_mset_set[OF inj] by simp
  also have "mset_set {..<k} = mset [0..<k]" by (metis atLeast_upt lessThan_atLeast0 mset_upt set_upt)
  finally show ?thesis by (simp add: contents_def multiset.map_comp comp_def)
qed

lemma contents_empty:
  assumes ok: "list_ok B t l N xs ys" and "\<And>m. m \<in> set vs \<Longrightarrow> m \<in> set xs \<and> n_numElements (the (N m)) = 0"
  shows "contents N c vs = {#}"
proof -
  have "liveOf (the (N m)) = {}" if "m \<in> set vs" for m
    using assms(2)[OF that] liveOf_empty[OF list_okD(3)[OF ok]] by simp
  then have "liveAddrs N vs = {}" by (auto simp: liveAddrs_def)
  then show ?thesis by (simp add: contents_def)
qed

end
