(* ===== verification/PumaAlloc.thy ===== *)
theory PumaAlloc
  imports ThreadList
begin

text \<open>
  Taking and releasing one element of a node: \<open>src/internal/alloc.c\<close>,
  \<open>src/internal/free.c\<close> and \<open>_freePumaNode\<close> of \<open>src/internal/pumanode.c\<close>. The lemmas give
  the effect of each on the heap and show that it keeps the list invariant.
\<close>

section \<open>Operations\<close>

definition allocElementOnNode :: "addr \<Rightarrow> addr \<Rightarrow> 'e mem \<Rightarrow> c_fault + 'e mem" where
  "allocElementOnNode node element s =
     bindE (derefNode s node) (\<lambda>nd.
     bindE (getIndexOfElementOnNode element nd) (\<lambda>index.
     bindE (pumaBitmaskSet (n_freeMask nd) index MASKNOTFREE) (\<lambda>fm.
     updList (n_threadList nd) (\<lambda>l. l\<lparr>tl_numElements := sz_add (tl_numElements l) 1\<rparr>)
       (putNode node (nd\<lparr>n_freeMask := fm, n_numElements := sz_add (n_numElements nd) 1\<rparr>) s))))"

text \<open>The buckets of a node's mask lie in the node; only a separately allocated mask is freed.\<close>

definition destroyPumaBitmask :: "pumaBitmask \<Rightarrow> pumaBitmask" where
  "destroyPumaBitmask bm = (if mallocedBuckets bm then bm\<lparr>buckets := []\<rparr> else bm)"

definition freePumaNode :: "addr \<Rightarrow> 'e mem \<Rightarrow> c_fault + 'e mem" where
  "freePumaNode node s =
     bindE (derefNode s node) (\<lambda>nd.
     bindE (updList (n_threadList nd) (\<lambda>l.
         l\<lparr>tl_tail := (if node = tl_tail l then n_prev nd else tl_tail l),
           tl_head := (if node = tl_head l then n_next nd else tl_head l)\<rparr>) s) (\<lambda>s1.
     bindE (if n_prev nd \<noteq> 0 then updNode (n_prev nd) (\<lambda>p. p\<lparr>n_next := n_next nd\<rparr>) s1 else Inr s1) (\<lambda>s2.
     bindE (if n_next nd \<noteq> 0 then updNode (n_next nd) (\<lambda>x. x\<lparr>n_prev := n_prev nd\<rparr>) s2 else Inr s2) (\<lambda>s3.
     Inr (dropNode node s3)))))"

text \<open>The tail of \<open>_freeElementOnNode\<close>: give the next node back when it is inactive and this one is not half full.\<close>

definition freeInactiveNext :: "addr \<Rightarrow> 'e mem \<Rightarrow> c_fault + 'e mem" where
  "freeInactiveNext node s =
     bindE (derefNode s node) (\<lambda>nd.
     if n_numElements nd < n_capacity nd div 2 \<and> n_next nd \<noteq> 0
     then bindE (derefNode s (n_next nd)) (\<lambda>nx.
          if \<not> n_active nx
          then bindE (freePumaNode (n_next nd) s) (\<lambda>s1. updNode node (\<lambda>m. m\<lparr>n_next := 0\<rparr>) s1)
          else Inr s)
     else Inr s)"

definition freeElementOnNode :: "addr \<Rightarrow> addr \<Rightarrow> 'e mem \<Rightarrow> c_fault + 'e mem" where
  "freeElementOnNode element node s =
     bindE (updNode node (\<lambda>nd. nd\<lparr>n_dirty := True\<rparr>) s) (\<lambda>s1.
     bindE (getIndexOfElement s1 element) (\<lambda>index.
     bindE (derefNode s1 node) (\<lambda>nd.
     bindE (pumaBitmaskSet (n_freeMask nd) index MASKFREE) (\<lambda>fm.
     bindE (updList (n_threadList nd) (\<lambda>l. l\<lparr>tl_numElements := sz_sub (tl_numElements l) 1\<rparr>)
         (putNode node (nd\<lparr>n_freeMask := fm, n_numElements := sz_sub (n_numElements nd) 1\<rparr>) s1)) (\<lambda>s2.
     freeInactiveNext node s2)))))"

section \<open>Effect on one node\<close>

text \<open>What the two operations need of a node: its geometry and an intact mask.\<close>

definition node_mask_ok :: "pumaNode \<Rightarrow> bool" where
  "node_mask_ok nd \<longleftrightarrow> bm_wf (n_freeMask nd) \<and> bm_numElements (n_freeMask nd) = n_capacity nd"

lemma node_ok_mask: "node_ok B t es a nd \<Longrightarrow> node_mask_ok nd"
  by (simp add: node_ok_def node_mask_ok_def)

lemma used_mask: "node_mask_ok nd \<Longrightarrow> used nd = usedSlots (maskBit (n_freeMask nd)) (bm_numElements (n_freeMask nd))"
  by (simp add: used_def node_mask_ok_def)

lemma allocElementOnNode_effect:
  assumes nd: "nodeAt s node = Some nd" "node_geom B node nd" "node_mask_ok nd"
    and i: "i < n_capacity nd" and l: "tlists s (n_threadList nd) = Some l"
    and bnd: "Suc (n_numElements nd) < 2 ^ 64" "Suc (tl_numElements l) < 2 ^ 64"
  obtains fm where
    "allocElementOnNode node (slotAddr nd i) s
       = Inr (putList (n_threadList nd) (l\<lparr>tl_numElements := Suc (tl_numElements l)\<rparr>)
           (putNode node (nd\<lparr>n_freeMask := fm, n_numElements := Suc (n_numElements nd)\<rparr>) s))"
    "bm_wf fm" "bm_numElements fm = n_capacity nd"
    "usedSlots (maskBit fm) (n_capacity nd) = insert i (used nd)"
proof -
  have m: "bm_wf (n_freeMask nd)" "bm_numElements (n_freeMask nd) = n_capacity nd"
    using nd(3) by (simp_all add: node_mask_ok_def)
  obtain fm where fm: "pumaBitmaskSet (n_freeMask nd) i MASKNOTFREE = Inr fm" "bm_wf fm"
    "bm_numElements fm = bm_numElements (n_freeMask nd)"
    "usedSlots (maskBit fm) (bm_numElements fm) = insert i (usedSlots (maskBit (n_freeMask nd)) (bm_numElements (n_freeMask nd)))"
    by (rule fm.take_slot[of "n_freeMask nd" i]) (use m i in auto)
  show thesis
    by (rule that[of fm])
      (use nd fm m l bnd in \<open>auto simp: allocElementOnNode_def mem_simps index_of_slot[OF nd(2) i] sz_add_exact used_def\<close>)
qed

lemma freeElementOnNode_effect:
  assumes nd: "nodeAt s node = Some nd" "node_geom (nodeBytes s) node nd" "node_mask_ok nd"
    and B: "cfg_ok (nodeBytes s)"
    and i: "i < n_capacity nd" and l: "tlists s (n_threadList nd) = Some l"
    and bnd: "0 < n_numElements nd" "n_numElements nd < 2 ^ 64" "0 < tl_numElements l" "tl_numElements l < 2 ^ 64"
  obtains fm where
    "freeElementOnNode (slotAddr nd i) node s
       = freeInactiveNext node (putList (n_threadList nd) (l\<lparr>tl_numElements := tl_numElements l - 1\<rparr>)
           (putNode node (nd\<lparr>n_dirty := True, n_freeMask := fm, n_numElements := n_numElements nd - 1\<rparr>)
             (putNode node (nd\<lparr>n_dirty := True\<rparr>) s)))"
    "bm_wf fm" "bm_numElements fm = n_capacity nd"
    "usedSlots (maskBit fm) (n_capacity nd) = used nd - {i}"
proof -
  have m: "bm_wf (n_freeMask nd)" "bm_numElements (n_freeMask nd) = n_capacity nd"
    using nd(3) by (simp_all add: node_mask_ok_def)
  obtain fm where fm: "pumaBitmaskSet (n_freeMask nd) i MASKFREE = Inr fm" "bm_wf fm"
    "bm_numElements fm = bm_numElements (n_freeMask nd)"
    "usedSlots (maskBit fm) (bm_numElements fm) = usedSlots (maskBit (n_freeMask nd)) (bm_numElements (n_freeMask nd)) - {i}"
    by (rule fm.release_slot[of "n_freeMask nd" i]) (use m i in auto)
  let ?s1 = "putNode node (nd\<lparr>n_dirty := True\<rparr>) s"
  have home: "getNodeForElement ?s1 (slotAddr nd i) = node"
    using node_of_slot[of ?s1 node nd i] B nd(2) i by (simp add: mem_simps)
  have "getIndexOfElementOnNode (slotAddr nd i) (nd\<lparr>n_dirty := True\<rparr>) = Inr i"
    using index_of_slot[of "nodeBytes s" node "nd\<lparr>n_dirty := True\<rparr>" i] nd(2) i by simp
  then have idx: "getIndexOfElement ?s1 (slotAddr nd i) = Inr i"
    by (simp add: getIndexOfElement_def home mem_simps)
  have "freeElementOnNode (slotAddr nd i) node s
      = freeInactiveNext node (putList (n_threadList nd) (l\<lparr>tl_numElements := tl_numElements l - 1\<rparr>)
           (putNode node (nd\<lparr>n_dirty := True, n_freeMask := fm, n_numElements := n_numElements nd - 1\<rparr>)
             (putNode node (nd\<lparr>n_dirty := True\<rparr>) s)))"
    using nd(1) fm(1) l bnd idx by (simp add: freeElementOnNode_def mem_simps sz_sub_exact)
  then show thesis by (rule that) (use fm m in \<open>simp_all add: used_def\<close>)
qed

section \<open>The invariants\<close>

lemma node_ok_take:
  assumes ok: "node_ok B t es a nd" and i: "i < n_capacity nd" "i \<notin> used nd"
    and fm: "bm_wf fm" "bm_numElements fm = n_capacity nd"
      "usedSlots (maskBit fm) (n_capacity nd) = insert i (used nd)"
    and F: "insert i (used nd) \<subseteq> {..<F}" "F \<le> Suc (n_capacity nd)"
      "\<not> n_dirty nd \<Longrightarrow> i = n_numElements nd \<and> F = Suc i"
  shows "node_ok B t es a (nd\<lparr>n_firstKnownFree := F, n_freeMask := fm, n_numElements := Suc (n_numElements nd)\<rparr>)"
    and "used (nd\<lparr>n_firstKnownFree := F, n_freeMask := fm, n_numElements := Suc (n_numElements nd)\<rparr>) = insert i (used nd)"
proof -
  let ?nd = "nd\<lparr>n_firstKnownFree := F, n_freeMask := fm, n_numElements := Suc (n_numElements nd)\<rparr>"
  show u: "used ?nd = insert i (used nd)" using fm(3) by (simp add: used_def)
  note D = node_okD[OF ok]
  have c: "Suc (n_numElements nd) = card (insert i (used nd))" using D(6) i(2) by simp
  show "node_ok B t es a ?nd"
  proof (rule node_okI, unfold u)
    show "n_numElements ?nd = card (insert i (used nd))" using c by simp
    show "insert i (used nd) \<subseteq> {..<n_firstKnownFree ?nd}" using F(1) by simp
    show "insert i (used nd) = {..<n_numElements ?nd}" if "\<not> n_dirty ?nd"
      using D(9) F(3) that lessThan_Suc[of "n_numElements nd"] by simp
    show "n_firstKnownFree ?nd = n_numElements ?nd" if "\<not> n_dirty ?nd"
      using F(3) that by simp
  qed (use D(1-5) F(2) fm in simp_all)
qed

lemma node_ok_release:
  assumes ok: "node_ok B t es a nd" and i: "i \<in> used nd"
    and fm: "bm_wf fm" "bm_numElements fm = n_capacity nd"
      "usedSlots (maskBit fm) (n_capacity nd) = used nd - {i}"
  shows "node_ok B t es a (nd\<lparr>n_dirty := True, n_freeMask := fm, n_numElements := n_numElements nd - 1\<rparr>)"
    and "used (nd\<lparr>n_dirty := True, n_freeMask := fm, n_numElements := n_numElements nd - 1\<rparr>) = used nd - {i}"
proof -
  let ?nd = "nd\<lparr>n_dirty := True, n_freeMask := fm, n_numElements := n_numElements nd - 1\<rparr>"
  show u: "used ?nd = used nd - {i}" using fm(3) by (simp add: used_def)
  note D = node_okD[OF ok]
  have c: "n_numElements nd - 1 = card (used nd - {i})" using D(6) i by simp
  have sub: "used nd - {i} \<subseteq> {..<n_firstKnownFree nd}" using D(7) by blast
  show "node_ok B t es a ?nd"
  proof (rule node_okI, unfold u)
    show "n_numElements ?nd = card (used nd - {i})" using c by simp
    show "used nd - {i} \<subseteq> {..<n_firstKnownFree ?nd}" using sub by simp
  qed (use D(1-5,8) fm in simp_all)
qed

lemma putNode_same: "nodeAt s a = Some nd \<Longrightarrow> putNode a nd s = s"
proof -
  assume "nodeAt s a = Some nd"
  then have "fmupd a nd (nodes s) = nodes s" by (intro fmap_ext) auto
  then show ?thesis by (simp add: putNode_def)
qed

lemma putNode_twice [simp]: "putNode a nd (putNode a nd' s) = putNode a nd s"
  by (simp add: putNode_def)

text \<open>The element counter of the list is positive when one of its nodes has an element, and bounded.\<close>

lemma list_ok_counts:
  assumes ok: "list_ok B t l N xs ys" and B: "cfg_ok B" and n: "n \<in> set xs"
  shows "n_numElements (the (N n)) \<le> tl_numElements l" "Suc (tl_numElements l) < 2 ^ 64"
  using list_okD(11)[OF ok] list_ok_bounds(2)[OF ok B] member_le_sum_list_map[OF n, of "\<lambda>n. n_numElements (the (N n))"]
  by simp_all

lemma alloc_step:
  assumes inv: "tl_inv s t xs ys" and n: "n \<in> set xs" "nodeAt s n = Some nd"
    and i: "i < n_capacity nd" "i \<notin> used nd"
    and F: "insert i (used nd) \<subseteq> {..<F}" "F \<le> Suc (n_capacity nd)"
      "\<not> n_dirty nd \<Longrightarrow> i = n_numElements nd \<and> F = Suc i"
  obtains s' nd' fm where
    "allocElementOnNode n (slotAddr nd i) (putNode n (nd\<lparr>n_firstKnownFree := F\<rparr>) s) = Inr s'"
    "tl_inv s' t xs ys" "nodeAt s' = (nodeAt s)(n \<mapsto> nd')"
    "nd' = nd\<lparr>n_firstKnownFree := F, n_freeMask := fm, n_numElements := Suc (n_numElements nd)\<rparr>"
    "used nd' = insert i (used nd)" "cells s' = cells s" "framed t {n} s s'"
proof -
  from inv obtain l where B: "cfg_ok (nodeBytes s)" and l: "tlists s t = Some l"
    and ok: "list_ok (nodeBytes s) t l (nodeAt s) xs ys" by (rule tl_invE)
  let ?nd = "nd\<lparr>n_firstKnownFree := F\<rparr>"
  have nok: "node_ok (nodeBytes s) t (tl_elementSize l) n nd"
    using list_okD(3)[OF ok, of n] n by simp
  then have t: "n_threadList nd = t" and g: "node_geom (nodeBytes s) n nd" by (simp_all add: node_ok_def)
  have bnd: "Suc (tl_numElements l) < 2 ^ 64" "Suc (n_numElements nd) < 2 ^ 64"
    using list_ok_counts[OF ok B n(1)] n(2) by auto
  have mok: "node_mask_ok ?nd" using node_ok_mask[OF nok] by (simp add: node_mask_ok_def)
  obtain fm where fm:
    "allocElementOnNode n (slotAddr ?nd i) (putNode n ?nd s)
      = Inr (putList t (l\<lparr>tl_numElements := Suc (tl_numElements l)\<rparr>)
          (putNode n (?nd\<lparr>n_freeMask := fm, n_numElements := Suc (n_numElements nd)\<rparr>) (putNode n ?nd s)))"
    "bm_wf fm" "bm_numElements fm = n_capacity nd" "usedSlots (maskBit fm) (n_capacity nd) = insert i (used nd)"
    by (rule allocElementOnNode_effect[of "putNode n ?nd s" n ?nd "nodeBytes s" i l])
      (use l g t i bnd mok in \<open>auto simp: mem_simps\<close>)
  let ?nd' = "nd\<lparr>n_firstKnownFree := F, n_freeMask := fm, n_numElements := Suc (n_numElements nd)\<rparr>"
  let ?l' = "l\<lparr>tl_numElements := Suc (tl_numElements l)\<rparr>"
  note take = node_ok_take[OF nok i fm(2-4) F]
  have "list_ok (nodeBytes s) t ?l' ((nodeAt s)(n \<mapsto> ?nd')) xs ys"
    by (rule list_ok_update[OF ok _ n(2) take(1)]) (use n list_okD(1)[OF ok] in auto)
  then have inv': "tl_inv (putList t ?l' (putNode n ?nd' s)) t xs ys"
    using B by (simp add: tl_inv_def mem_simps)
  show thesis
    by (rule that[OF _ inv' _ refl take(2)]) (use fm(1) l in \<open>auto simp: mem_simps\<close>)
qed

text \<open>Giving the next node back: the list keeps its active nodes, and loses the inactive ones or none.\<close>

lemma freePumaNode_inactive:
  assumes y: "nodeAt s y = Some ny" "n_threadList ny = t" "n_prev ny = n" "y \<noteq> 0"
    and n: "nodeAt s n = Some nd" "n \<noteq> 0"
    and z: "n_next ny \<noteq> 0 \<Longrightarrow> nodeAt s (n_next ny) \<noteq> None" "n_next ny \<noteq> n" "y \<noteq> n"
    and l: "tlists s t = Some l" "tl_head l \<noteq> y" "tl_tail l \<noteq> y"
  obtains s' where "freePumaNode y s = Inr s'" "tlists s' = tlists s" "cells s' = cells s"
    "framed t ({n, y, n_next ny} - {0}) s s'" "nodeAt s' n = Some (nd\<lparr>n_next := n_next ny\<rparr>)" "nodeAt s' y = None"
proof -
  have "putList t (l\<lparr>tl_tail := tl_tail l, tl_head := tl_head l\<rparr>) s = s"
    using l(1) by (simp add: putList_def fun_upd_idem)
  then have u: "updList (n_threadList ny) (\<lambda>l. l\<lparr>tl_tail := if y = tl_tail l then n_prev ny else tl_tail l,
      tl_head := if y = tl_head l then n_next ny else tl_head l\<rparr>) s = Inr s"
    using l y by (auto simp: mem_simps)
  have step: "freePumaNode y s =
      bindE (if n_next ny \<noteq> 0 then updNode (n_next ny) (\<lambda>x. x\<lparr>n_prev := n\<rparr>) (putNode n (nd\<lparr>n_next := n_next ny\<rparr>) s)
             else Inr (putNode n (nd\<lparr>n_next := n_next ny\<rparr>) s)) (\<lambda>s3. Inr (dropNode y s3))"
    unfolding freePumaNode_def deref_simps(1)[OF y(1)] bindE_simps u
    using y(3) n by (simp add: mem_simps)
  show thesis
  proof (cases "n_next ny = 0")
    case True
    with step have "freePumaNode y s = Inr (dropNode y (putNode n (nd\<lparr>n_next := n_next ny\<rparr>) s))"
      by simp
    then show thesis by (rule that) (use y z n in \<open>auto simp: mem_simps\<close>)
  next
    case False
    then obtain nz where nz: "nodeAt s (n_next ny) = Some nz" using z(1) by auto
    with step False z(2) have "freePumaNode y s
        = Inr (dropNode y (putNode (n_next ny) (nz\<lparr>n_prev := n\<rparr>) (putNode n (nd\<lparr>n_next := n_next ny\<rparr>) s)))"
      by (simp add: mem_simps)
    then show thesis by (rule that) (use y z n False in \<open>auto simp: mem_simps\<close>)
  qed
qed

lemma freeInactiveNext_step:
  assumes inv: "tl_inv s t xs ys" and n: "n \<in> set xs" "nodeAt s n = Some nd"
  obtains s' ys' nd' where "freeInactiveNext n s = Inr s'" "tl_inv s' t xs ys'" "ys' = ys \<or> ys' = []"
    "\<And>m. m \<in> set xs \<Longrightarrow> m \<noteq> n \<Longrightarrow> nodeAt s' m = nodeAt s m"
    "nodeAt s' n = Some nd'" "nd' = nd \<or> nd' = nd\<lparr>n_next := 0\<rparr>"
    "cells s' = cells s" "framed t (set xs \<union> set ys) s s'"
proof -
  from inv obtain l where B: "cfg_ok (nodeBytes s)" and l: "tlists s t = Some l"
    and ok: "list_ok (nodeBytes s) t l (nodeAt s) xs ys" by (rule tl_invE)
  note D = list_okD[OF ok]
  from n(1) obtain us vs where xs: "xs = us @ n # vs" by (auto simp: in_set_conv_decomp)
  have nx: "n_next nd = firstOr vs (firstOr ys 0)" using D(2) n(2) by (simp add: xs)
  show thesis
  proof (cases "freeInactiveNext n s = Inr s")
    case True
    then show thesis by (rule that[OF _ inv]) (use n in auto)
  next
    case False
    have "vs = []"
    proof (rule ccontr)
      assume "vs \<noteq> []"
      then obtain v vs' where vs: "vs = v # vs'" by (cases vs) auto
      obtain nv where "nodeAt s v = Some nv" "n_active nv"
        using list_ok_node[OF ok, of v] by (auto simp: xs vs)
      then have "freeInactiveNext n s = Inr s"
        using n nx vs by (simp add: freeInactiveNext_def mem_simps)
      with False show False ..
    qed
    with xs have xs: "xs = us @ [n]" and nx: "n_next nd = firstOr ys 0" using nx by simp_all
    obtain y zs where ys: "ys = y # zs"
      using False n nx by (cases ys) (auto simp: freeInactiveNext_def mem_simps)
    obtain ny where ny: "nodeAt s y = Some ny" "\<not> n_active ny" "n_threadList ny = t"
    proof (rule list_ok_node[OF ok, of y])
      fix ny assume "nodeAt s y = Some ny" "node_ok (nodeBytes s) t (tl_elementSize l) y ny"
        "n_active ny = (y \<in> set xs)"
      moreover have "y \<notin> set xs" using D(1) by (auto simp: ys)
      ultimately show thesis by (intro that[of ny]) (auto simp: node_ok_def)
    qed (simp add: ys)
    have lnk: "n_prev ny = n" "n_next ny = firstOr zs 0" using D(2) ny(1) by (auto simp: xs ys)
    have nz: "n \<noteq> 0" "y \<noteq> 0" using list_ok_nz[OF ok] by (auto simp: xs ys)
    have z: "firstOr zs 0 \<noteq> n" "firstOr zs 0 \<notin> set us"
      using D(1) nz list_ok_nz[OF ok, of 0] by (cases zs; auto simp: xs ys)+
    have za: "firstOr zs 0 \<noteq> 0 \<Longrightarrow> nodeAt s (firstOr zs 0) \<noteq> None"
    proof (cases zs)
      case (Cons w ws)
      then show ?thesis using links_alloc[OF D(2), of w] by (auto simp: ys)
    qed simp
    have hd: "tl_head l \<noteq> y" "tl_tail l \<noteq> y"
      using D(1,8,9) by (cases us; auto simp: xs ys)+
    obtain s1 where s1: "freePumaNode y s = Inr s1" "tlists s1 = tlists s" "cells s1 = cells s"
      "framed t ({n, y, n_next ny} - {0}) s s1" "nodeAt s1 n = Some (nd\<lparr>n_next := n_next ny\<rparr>)"
      by (rule freePumaNode_inactive[of s y ny t n nd l])
        (use ny n nz lnk z za l hd D(1) in \<open>auto simp: xs ys\<close>)
    let ?s' = "putNode n (nd\<lparr>n_next := 0\<rparr>) s1"
    have run: "freeInactiveNext n s = Inr ?s'"
    proof -
      have "n_numElements nd < n_capacity nd div 2"
      proof (rule ccontr)
        assume "\<not> n_numElements nd < n_capacity nd div 2"
        then have "freeInactiveNext n s = Inr s" using n by (simp add: freeInactiveNext_def mem_simps)
        with False show False ..
      qed
      then show ?thesis using n nx nz ny s1 by (simp add: freeInactiveNext_def ys mem_simps)
    qed
    have fr: "framed t ({n, y, firstOr zs 0} - {0}) s ?s'" using s1(4) lnk(2) nz by simp
    have keep: "nodeAt ?s' m = nodeAt s m" if "m \<in> set us" for m
      using fr that z D(1) by (auto simp: framed_def xs ys)
    have nb: "nodeBytes ?s' = nodeBytes s" by (rule framed_nodeBytes[OF fr])
    have "list_ok (nodeBytes s) t l (nodeAt ?s') (us @ [n]) []"
      by (rule list_ok_cut[where N = "nodeAt s" and n = n and nd = nd and ys = ys])
        (use ok n xs keep in \<open>auto simp: mem_simps\<close>)
    then have inv': "tl_inv ?s' t xs []"
      using B l s1(2) nb by (simp add: tl_inv_def mem_simps xs)
    have fr0: "framed t (set xs \<union> set ys) s ?s'"
      by (rule framed_mono[OF fr]) (cases zs; auto simp: xs ys)
    show thesis
    proof (rule that[OF run inv' _ _ _ _ _ fr0])
      show "nodeAt ?s' m = nodeAt s m" if "m \<in> set xs" "m \<noteq> n" for m
        by (rule keep) (use that xs in auto)
    qed (use s1(3) in \<open>auto simp: mem_simps\<close>)
  qed
qed

lemma free_step:
  assumes inv: "tl_inv s t xs ys" and n: "n \<in> set xs" "nodeAt s n = Some nd" and i: "i \<in> used nd"
  obtains s' ys' nd' fm where "freeElementOnNode (slotAddr nd i) n s = Inr s'" "tl_inv s' t xs ys'"
    "ys' = ys \<or> ys' = []"
    "\<And>m. m \<in> set xs \<Longrightarrow> m \<noteq> n \<Longrightarrow> nodeAt s' m = nodeAt s m"
    "nodeAt s' n = Some nd'"
    "nd' = nd\<lparr>n_dirty := True, n_freeMask := fm, n_numElements := n_numElements nd - 1\<rparr>
     \<or> nd' = nd\<lparr>n_dirty := True, n_freeMask := fm, n_numElements := n_numElements nd - 1, n_next := 0\<rparr>"
    "used nd' = used nd - {i}" "cells s' = cells s" "framed t (set xs \<union> set ys) s s'"
proof -
  from inv obtain l where B: "cfg_ok (nodeBytes s)" and l: "tlists s t = Some l"
    and ok: "list_ok (nodeBytes s) t l (nodeAt s) xs ys" by (rule tl_invE)
  have nok: "node_ok (nodeBytes s) t (tl_elementSize l) n nd"
    using list_okD(3)[OF ok, of n] n by simp
  note D = node_okD[OF nok]
  have pos: "0 < n_numElements nd" unfolding D(6) using i by (auto simp: card_gt_0_iff)
  have le: "n_numElements nd \<le> tl_numElements l" and bnd: "Suc (tl_numElements l) < 2 ^ 64"
    using list_ok_counts[OF ok B n(1)] n(2) by simp_all
  have ic: "i < n_capacity nd" by (rule used_less[OF i])
  obtain fm where fm:
    "freeElementOnNode (slotAddr nd i) n s
       = freeInactiveNext n (putList (n_threadList nd) (l\<lparr>tl_numElements := tl_numElements l - 1\<rparr>)
           (putNode n (nd\<lparr>n_dirty := True, n_freeMask := fm, n_numElements := n_numElements nd - 1\<rparr>)
             (putNode n (nd\<lparr>n_dirty := True\<rparr>) s)))"
    "bm_wf fm" "bm_numElements fm = n_capacity nd"
    "usedSlots (maskBit fm) (n_capacity nd) = used nd - {i}"
    by (rule freeElementOnNode_effect[OF n(2) D(1) node_ok_mask[OF nok] B ic])
      (use l D(3) pos le bnd in auto)
  let ?nd = "nd\<lparr>n_dirty := True, n_freeMask := fm, n_numElements := n_numElements nd - 1\<rparr>"
  let ?l = "l\<lparr>tl_numElements := tl_numElements l - 1\<rparr>"
  let ?s = "putList t ?l (putNode n ?nd s)"
  note rel = node_ok_release[OF nok i fm(2-4)]
  have "list_ok (nodeBytes s) t ?l ((nodeAt s)(n \<mapsto> ?nd)) xs ys"
    by (rule list_ok_update[OF ok _ n(2) _]) (use n list_okD(1)[OF ok] rel(1) pos le in auto)
  then have inv1: "tl_inv ?s t xs ys" using B by (simp add: tl_inv_def mem_simps)
  have at: "nodeAt ?s n = Some ?nd" by (simp add: mem_simps)
  obtain s' ys' nd' where f: "freeInactiveNext n ?s = Inr s'" "tl_inv s' t xs ys'" "ys' = ys \<or> ys' = []"
    "\<And>m. m \<in> set xs \<Longrightarrow> m \<noteq> n \<Longrightarrow> nodeAt s' m = nodeAt ?s m"
    "nodeAt s' n = Some nd'" "nd' = ?nd \<or> nd' = ?nd\<lparr>n_next := 0\<rparr>"
    "cells s' = cells ?s" "framed t (set xs \<union> set ys) ?s s'"
    by (rule freeInactiveNext_step[OF inv1 n(1) at]) blast
  have run: "freeElementOnNode (slotAddr nd i) n s = Inr s'" using fm(1) f(1) D(3) by simp
  have "used nd' = used ?nd" using f(6) by (elim disjE) simp_all
  then have u: "used nd' = used nd - {i}" unfolding rel(2) .
  have fr: "framed t (set xs \<union> set ys) s s'"
    by (rule framed_trans[OF _ f(8)]) (use n l in \<open>simp add: mem_simps\<close>)
  show thesis
  proof (rule that[OF run f(2,3) _ f(5) _ u _ fr])
    show "nodeAt s' m = nodeAt s m" if "m \<in> set xs" "m \<noteq> n" for m
      using f(4)[OF that] that by (simp add: mem_simps)
    show "cells s' = cells s" using f(7) by (simp add: mem_simps)
    show "nd' = ?nd \<or> nd' = nd\<lparr>n_dirty := True, n_freeMask := fm, n_numElements := n_numElements nd - 1, n_next := 0\<rparr>"
      using f(6) by simp
  qed
qed

end
