(* ===== verification/PumaUtil.thy ===== *)
theory PumaUtil
  imports PumaAlloc
begin

text \<open>
  \<open>_getLastElement\<close> of \<open>src/internal/pumautil.c\<close>: the last live element of a thread list. The
  search walks back from the tail and deactivates the empty nodes it passes. The element and
  address functions of the file are in \<open>PumaMemory\<close>; their round trips are stated there and below.
\<close>

section \<open>The search\<close>

text \<open>The loop ends because every iteration deactivates an active node.\<close>

definition activeNodes :: "'e mem \<Rightarrow> addr set" where
  "activeNodes s = {a \<in> fset (fmdom (nodes s)). n_active (the (nodeAt s a))}"

lemma activeNodes_finite: "finite (activeNodes s)"
  by (simp add: activeNodes_def)

lemma activeNodes_deactivate:
  assumes "nodeAt s a = Some nd" "n_active nd"
  shows "card (activeNodes (putList t l (putNode a (nd\<lparr>n_active := False\<rparr>) s))) < card (activeNodes s)"
proof (rule psubset_card_mono[OF activeNodes_finite])
  have "a \<in> activeNodes s" using assms by (auto simp: activeNodes_def fmdomI)
  moreover have "activeNodes (putList t l (putNode a (nd\<lparr>n_active := False\<rparr>) s)) = activeNodes s - {a}"
    by (auto simp: activeNodes_def putList_def putNode_def)
  ultimately show "activeNodes (putList t l (putNode a (nd\<lparr>n_active := False\<rparr>) s)) \<subset> activeNodes s"
    by auto
qed

function lastElementLoop :: "addr \<Rightarrow> addr \<Rightarrow> 'e mem \<Rightarrow> c_fault + (addr \<times> 'e mem)" where
  "lastElementLoop t tail s =
     (if tail = 0 then Inr (0, s)
      else bindE (derefNode s tail) (\<lambda>nd.
        if \<not> n_active nd then Inr (0, s)
        else bindE (pumaLastIndexOfValue (n_freeMask nd) MASKNOTFREE) (\<lambda>(lastElementIndex, found).
          if found then Inr (getElement nd lastElementIndex, s)
          else bindE (derefList s t) (\<lambda>l.
            let l1 = (if 0 < tl_numNodes l then l\<lparr>tl_numNodes := sz_sub (tl_numNodes l) 1\<rparr> else l);
                tail' = n_prev nd;
                l2 = (if tail' \<noteq> 0 then l1\<lparr>tl_tail := tail'\<rparr> else l1)
            in lastElementLoop t tail' (putList t l2 (putNode tail (nd\<lparr>n_active := False\<rparr>) s))))))"
  by pat_completeness auto
termination
proof (relation "measure (\<lambda>(t, tail, s). card (activeNodes s))", goal_cases)
  case 1
  then show ?case by simp
next
  case (2 t tail s nd x a b l l1 tail' l2)
  then have "nodeAt s tail = Some nd" by (auto simp: derefNode_def split: option.splits)
  with 2 show ?case by (simp add: activeNodes_deactivate)
qed

declare lastElementLoop.simps [simp del]

definition getLastElement :: "addr \<Rightarrow> 'e mem \<Rightarrow> c_fault + (addr \<times> 'e mem)" where
  "getLastElement t s = bindE (derefList s t) (\<lambda>l. lastElementLoop t (tl_tail l) s)"

section \<open>What it returns and what it leaves\<close>

text \<open>
  The result of the search over the active nodes \<open>xs\<close>: they split into \<open>zs\<close>, which stays
  active, and \<open>ws\<close>, whose nodes were empty and are deactivated; the result is the last live
  element of the last node of \<open>zs\<close>, or \<open>NULL\<close> when no element is left.
\<close>

definition lastResult :: "(addr \<Rightarrow> pumaNode option) \<Rightarrow> addr list \<Rightarrow> addr \<Rightarrow> bool" where
  "lastResult N zs r \<longleftrightarrow>
     (if zs = [] then r = 0
      else \<exists>i \<in> used (the (N (last zs))). (\<forall>j \<in> used (the (N (last zs))). j \<le> i)
             \<and> r = slotAddr (the (N (last zs))) i)"

definition searched :: "addr \<Rightarrow> 'e mem \<Rightarrow> 'e mem \<Rightarrow> addr list \<Rightarrow> addr list \<Rightarrow> addr list \<Rightarrow> bool" where
  "searched t s s' zs ws ys \<longleftrightarrow> tl_inv s' t zs (ws @ ys)
     \<and> (\<forall>m\<in>set ws. n_numElements (the (nodeAt s m)) = 0
          \<and> nodeAt s' m = Some ((the (nodeAt s m))\<lparr>n_active := False\<rparr>))
     \<and> (\<forall>m. m \<notin> set ws \<longrightarrow> nodeAt s' m = nodeAt s m)
     \<and> cells s' = cells s \<and> framed t (set ws) s s'"

lemma lastElementLoop_list:
  "tl_inv s t xs ys \<Longrightarrow> \<exists>r s' zs ws. lastElementLoop t (lastOr 0 xs) s = Inr (r, s')
     \<and> xs = zs @ ws \<and> searched t s s' zs ws ys \<and> lastResult (nodeAt s) zs r"
proof (induction xs arbitrary: s ys rule: rev_induct)
  case Nil
  then have "searched t s s [] [] ys" by (simp add: searched_def)
  moreover have "lastElementLoop t 0 s = Inr (0, s)" by (subst lastElementLoop.simps) simp
  ultimately show ?case by (auto simp: lastResult_def)
next
  case (snoc n xs)
  from snoc.prems obtain l where B: "cfg_ok (nodeBytes s)" and l: "tlists s t = Some l"
    and ok: "list_ok (nodeBytes s) t l (nodeAt s) (xs @ [n]) ys" by (rule tl_invE)
  note D = list_okD[OF ok]
  obtain nd where nd: "nodeAt s n = Some nd" "node_ok (nodeBytes s) t (tl_elementSize l) n nd" "n_active nd"
    by (rule list_ok_node[OF ok, of n]) auto
  note E = node_okD[OF nd(2)]
  have nz: "n \<noteq> 0" using list_ok_nz[OF ok, of n] by simp
  have prev: "n_prev nd = lastOr 0 xs" using D(2) nd(1) by simp
  have u: "usedSlots (maskBit (n_freeMask nd)) (bm_numElements (n_freeMask nd)) = used nd"
    using E(5) by (simp add: used_def)
  show ?case
  proof (cases rule: fm.last_used[of "n_freeMask nd", OF E(4)])
    case (2 i)
    then have "lastElementLoop t n s = Inr (slotAddr nd i, s)"
      using nz nd E(5) getElement_slot[OF E(1), of i]
      by (subst lastElementLoop.simps) (simp add: mem_simps)
    moreover have "searched t s s (xs @ [n]) [] ys"
      using snoc.prems by (simp add: searched_def)
    moreover have "lastResult (nodeAt s) (xs @ [n]) (slotAddr nd i)"
      using 2 nd(1) u by (auto simp: lastResult_def)
    ultimately show ?thesis by force
  next
    case 1
    then have n0: "n_numElements nd = 0" using E(6) u by simp
    let ?l = "l\<lparr>tl_numNodes := length xs, tl_tail := (if xs = [] then n else last xs)\<rparr>"
    let ?s = "putList t ?l (putNode n (nd\<lparr>n_active := False\<rparr>) s)"
    have len: "sz_sub (tl_numNodes l) 1 = length xs"
      using D(10) list_ok_bounds(1)[OF ok B] by (simp add: sz_sub_exact)
    have l2: "(if lastOr 0 xs \<noteq> 0
        then (if 0 < tl_numNodes l then l\<lparr>tl_numNodes := sz_sub (tl_numNodes l) 1\<rparr> else l)\<lparr>tl_tail := lastOr 0 xs\<rparr>
        else (if 0 < tl_numNodes l then l\<lparr>tl_numNodes := sz_sub (tl_numNodes l) 1\<rparr> else l)) = ?l"
    proof (cases xs rule: rev_cases)
      case Nil
      then show ?thesis using D(9,10) len by simp
    next
      case (snoc us z)
      then have "z \<noteq> 0" using list_ok_nz[OF ok, of z] by simp
      then show ?thesis using D(10) len snoc by (simp add: lastOr_def)
    qed
    have run: "lastElementLoop t n s = lastElementLoop t (lastOr 0 xs) ?s"
      using nz nd l 1 prev l2
      by (subst lastElementLoop.simps) (simp add: mem_simps Let_def)
    have "list_ok (nodeBytes s) t ?l ((nodeAt s)(n \<mapsto> nd\<lparr>n_active := False\<rparr>)) xs (n # ys)"
      by (rule list_ok_deactivate[OF ok nd(1) n0]) auto
    then have "tl_inv ?s t xs (n # ys)" using B by (simp add: tl_inv_def mem_simps)
    from snoc.IH[OF this] obtain r s' zs ws where IH:
      "lastElementLoop t (lastOr 0 xs) ?s = Inr (r, s')" "xs = zs @ ws"
      "searched t ?s s' zs ws (n # ys)" "lastResult (nodeAt ?s) zs r" by blast
    have nn: "n \<notin> set zs" "n \<notin> set ws" using D(1) IH(2) by auto
    have "searched t s s' zs (ws @ [n]) ys"
      using IH(3) nn nd(1) n0 l unfolding searched_def
      by (auto simp: mem_simps framed_def putList_def putNode_def)
    moreover have "lastResult (nodeAt s) zs r"
      using IH(4) nn(1) by (auto simp: lastResult_def mem_simps split: if_splits)
    ultimately show ?thesis
      using run IH(1,2) by (intro exI[of _ r] exI[of _ s'] exI[of _ zs] exI[of _ "ws @ [n]"]) simp
  qed
qed

text \<open>The tail of a list without active nodes is its first inactive node, where the search stops at once.\<close>

lemma getLastElement_list:
  assumes inv: "tl_inv s t xs ys"
  obtains r s' zs ws where "getLastElement t s = Inr (r, s')" "xs = zs @ ws"
    "searched t s s' zs ws ys" "lastResult (nodeAt s) zs r"
proof -
  from inv obtain l where l: "tlists s t = Some l"
    and ok: "list_ok (nodeBytes s) t l (nodeAt s) xs ys" by (rule tl_invE)
  have tail: "tl_tail l = (if xs = [] then firstOr ys 0 else last xs)" by (rule list_okD(9)[OF ok])
  have "\<exists>r s' zs ws. lastElementLoop t (tl_tail l) s = Inr (r, s')
     \<and> xs = zs @ ws \<and> searched t s s' zs ws ys \<and> lastResult (nodeAt s) zs r"
  proof (cases "xs = []")
    case False
    then have "tl_tail l = lastOr 0 xs" using tail by (simp add: lastOr_def)
    then show ?thesis using lastElementLoop_list[OF inv] by simp
  next
    case True
    have "lastElementLoop t (firstOr ys 0) s = Inr (0, s)"
    proof (cases ys)
      case Nil
      then show ?thesis by (subst lastElementLoop.simps) simp
    next
      case (Cons y zs)
      obtain ny where "nodeAt s y = Some ny" "\<not> n_active ny"
        using list_ok_node[OF ok, of y] True Cons by auto
      then show ?thesis using Cons by (subst lastElementLoop.simps) (simp add: mem_simps)
    qed
    moreover have "searched t s s [] [] ys" using inv True by (simp add: searched_def)
    ultimately show ?thesis using True tail by (auto simp: lastResult_def)
  qed
  then show thesis using that l by (auto simp: getLastElement_def mem_simps)
qed

lemma lastResult_cases:
  assumes "lastResult N zs r" and "\<And>n. n \<in> set zs \<Longrightarrow> \<exists>nd. N n = Some nd \<and> node_geom B n nd"
  obtains (none) "zs = []" "r = 0"
    | (elem) vs n nd i where "zs = vs @ [n]" "N n = Some nd" "i \<in> used nd"
        "\<And>j. j \<in> used nd \<Longrightarrow> j \<le> i" "r = slotAddr nd i" "r \<noteq> 0"
proof (cases zs rule: rev_cases)
  case Nil
  then show thesis using assms(1) by (intro none) (simp_all add: lastResult_def)
next
  case (snoc vs n)
  obtain nd where nd: "N n = Some nd" "node_geom B n nd" using assms(2)[of n] snoc by auto
  from assms(1) snoc nd obtain i where i: "i \<in> used nd" "\<forall>j\<in>used nd. j \<le> i" "r = slotAddr nd i"
    by (auto simp: lastResult_def)
  show thesis
    by (rule elem[OF snoc nd(1) i(1)])
      (use i slot_in_node(1)[OF nd(2) used_less[OF i(1)]] in auto)
qed

end
