(* ===== verification/PumaNode.thy ===== *)
theory PumaNode
  imports PumaUtil
begin

text \<open>
  Compaction and growth of a thread list: \<open>_cleanupNode\<close> and \<open>_appendPumaNode\<close> of
  \<open>src/internal/pumanode.c\<close> (\<open>_freePumaNode\<close> is in \<open>PumaAlloc\<close>). Compaction moves the last
  live element of the list into the first hole of a node until the node has no hole before
  its last element; it ends, keeps the list invariant and keeps the contents of the list.
\<close>

section \<open>Compaction\<close>

text \<open>
  The \<open>while\<close> of \<open>_cleanupNode\<close>. One unit of fuel is one iteration; \<open>cleanupNode\<close> starts it with
  one more than the node's capacity, and \<open>cleanupLoop_ok\<close> shows that it is never used up.
\<close>

fun cleanupLoop :: "nat \<Rightarrow> addr \<Rightarrow> addr \<Rightarrow> 'e mem \<Rightarrow> c_fault + 'e mem" where
  "cleanupLoop 0 currentNode t s = Inl OutOfFuel"
| "cleanupLoop (Suc fuel) currentNode t s =
     bindE (derefNode s currentNode) (\<lambda>nd.
     if n_numElements nd < n_capacity nd
     then bindE (pumaFirstIndexOfValue (n_freeMask nd) MASKFREE) (\<lambda>(firstFree, found).
       bindE (getLastElement t s) (\<lambda>(lastElement, s1).
       if lastElement = 0 \<or> \<not> found then Inr s1
       else
         bindE (derefNode s1 currentNode) (\<lambda>cur.
         let lastNode = getNodeForElement s1 lastElement;
             firstFreeElement = getElement cur firstFree
         in bindE (derefNode s1 lastNode) (\<lambda>ln.
            if n_index ln < n_index cur \<or> n_index ln = n_index cur \<and> lastElement \<le> firstFreeElement
            then Inr s1
            else
              bindE (allocElementOnNode currentNode firstFreeElement s1) (\<lambda>s2.
              bindE (freeElementOnNode lastElement lastNode
                  (putCell firstFreeElement (cells s2 lastElement) s2)) (\<lambda>s3.
              cleanupLoop fuel currentNode t s3))))))
     else Inr s)"

declare cleanupLoop.simps [simp del]

definition cleanupNode :: "addr \<Rightarrow> addr \<Rightarrow> 'e mem \<Rightarrow> c_fault + 'e mem" where
  "cleanupNode currentNode t s =
     bindE (derefNode s currentNode) (\<lambda>nd.
     bindE (cleanupLoop (Suc (n_capacity nd)) currentNode t s) (\<lambda>s1.
     updNode currentNode (\<lambda>nd. nd\<lparr>n_dirty := False, n_firstKnownFree := n_numElements nd\<rparr>) s1))"

section \<open>The loop does not read \<open>firstKnownFree\<close>\<close>

text \<open>
  Inside the loop a node's \<open>firstKnownFree\<close> may be stale; \<open>setF c F\<close> sets it, and every operation
  of the loop commutes with it. The loop is then analysed on the state where it is the capacity.
\<close>

definition tweakF :: "addr \<Rightarrow> nat \<Rightarrow> addr \<Rightarrow> pumaNode \<Rightarrow> pumaNode" where
  "tweakF c F a nd = (if a = c then nd\<lparr>n_firstKnownFree := F\<rparr> else nd)"

definition setF :: "addr \<Rightarrow> nat \<Rightarrow> 'e mem \<Rightarrow> 'e mem" where
  "setF c F s = s\<lparr>nodes := fmmap_keys (tweakF c F) (nodes s)\<rparr>"

lemma tweakF_fields [simp]:
  "n_elementSize (tweakF c F a nd) = n_elementSize nd" "n_elementArray (tweakF c F a nd) = n_elementArray nd"
  "n_numElements (tweakF c F a nd) = n_numElements nd" "n_capacity (tweakF c F a nd) = n_capacity nd"
  "n_next (tweakF c F a nd) = n_next nd" "n_prev (tweakF c F a nd) = n_prev nd"
  "n_freeMask (tweakF c F a nd) = n_freeMask nd" "n_dirty (tweakF c F a nd) = n_dirty nd"
  "n_active (tweakF c F a nd) = n_active nd" "n_index (tweakF c F a nd) = n_index nd"
  "n_threadList (tweakF c F a nd) = n_threadList nd"
  by (simp_all add: tweakF_def)

lemma tweakF_upd [simp]:
  "(tweakF c F a nd)\<lparr>n_active := x\<rparr> = tweakF c F a (nd\<lparr>n_active := x\<rparr>)"
  "(tweakF c F a nd)\<lparr>n_next := y\<rparr> = tweakF c F a (nd\<lparr>n_next := y\<rparr>)"
  "(tweakF c F a nd)\<lparr>n_prev := y\<rparr> = tweakF c F a (nd\<lparr>n_prev := y\<rparr>)"
  "(tweakF c F a nd)\<lparr>n_dirty := x\<rparr> = tweakF c F a (nd\<lparr>n_dirty := x\<rparr>)"
  "(tweakF c F a nd)\<lparr>n_freeMask := m, n_numElements := y\<rparr>
     = tweakF c F a (nd\<lparr>n_freeMask := m, n_numElements := y\<rparr>)"
  by (simp_all add: tweakF_def)

lemma setF_fields [simp]:
  "tlists (setF c F s) = tlists s" "cells (setF c F s) = cells s" "nodeBytes (setF c F s) = nodeBytes s"
  "derefList (setF c F s) t = derefList s t"
  "getNodeForElement (setF c F s) e = getNodeForElement s e"
  by (simp_all add: setF_def nodeBytes_def derefList_def getNodeForElement_def)

lemma fmmap_keys_fmupd: "fmmap_keys f (fmupd a v m) = fmupd a (f a v) (fmmap_keys f m)"
  by (rule fmap_ext) simp

lemma setF_put [simp]:
  "putNode a (tweakF c F a nd) (setF c F s) = setF c F (putNode a nd s)"
  "putList t l (setF c F s) = setF c F (putList t l s)"
  "dropNode a (setF c F s) = setF c F (dropNode a s)"
  "putCell e v (setF c F s) = setF c F (putCell e v s)"
  by (simp_all add: setF_def putNode_def putList_def dropNode_def putCell_def fmmap_keys_fmupd)

lemma setF_lookup: "nodeAt (setF c F s) a = map_option (tweakF c F a) (nodeAt s a)"
  by (simp add: setF_def)

lemma setF_derefNode [simp]: "derefNode (setF c F s) a = map_sum id (tweakF c F a) (derefNode s a)"
  by (simp add: derefNode_def setF_lookup split: option.split)

lemma bindE_map_sum [simp]: "bindE (map_sum id g m) f = bindE m (f \<circ> g)"
  by (cases m) simp_all

lemma map_sum_bindE: "map_sum id g (bindE m f) = bindE m (map_sum id g \<circ> f)"
  by (cases m) simp_all

lemma setF_getElement [simp]:
  "getElement (tweakF c F a nd) = getElement nd"
  "getIndexOfElementOnNode e (tweakF c F a nd) = getIndexOfElementOnNode e nd"
  by (simp_all add: getElement_def getIndexOfElementOnNode_def fun_eq_iff)

lemma setF_getIndexOfElement [simp]: "getIndexOfElement (setF c F s) e = getIndexOfElement s e"
  by (simp add: getIndexOfElement_def comp_def)

lemma setF_updNode:
  assumes "\<And>nd. f (tweakF c F a nd) = tweakF c F a (f nd)"
  shows "updNode a f (setF c F s) = map_sum id (setF c F) (updNode a f s)"
  by (simp add: updNode_def map_sum_bindE comp_def assms)

lemma setF_updList [simp]: "updList t g (setF c F s) = map_sum id (setF c F) (updList t g s)"
  by (simp add: updList_def map_sum_bindE comp_def)

lemmas setF_push = setF_updNode map_sum_bindE comp_def

lemma setF_lastElementLoop:
  "lastElementLoop t tail (setF c F s) = map_sum id (map_prod id (setF c F)) (lastElementLoop t tail s)"
proof (induction t tail s rule: lastElementLoop.induct)
  case (1 t tail s)
  show ?case
  proof (cases "tail = 0 \<or> nodeAt s tail = None")
    case True
    then show ?thesis
      by (subst (1 2) lastElementLoop.simps) (auto simp: mem_simps)
  next
    case False
    then obtain nd where nd: "nodeAt s tail = Some nd" "tail \<noteq> 0" by auto
    note d = deref_simps(1)[OF nd(1)]
    show ?thesis
    proof (cases "n_active nd")
      case act: True
      show ?thesis
      proof (cases "pumaLastIndexOfValue (n_freeMask nd) MASKNOTFREE")
        case (Inl e)
        then show ?thesis using act nd d by (subst (1 2) lastElementLoop.simps) simp
      next
        case (Inr p)
        obtain i b where p: "p = (i, b)" by (cases p)
        show ?thesis
        proof (cases b)
          case True
          then show ?thesis using act nd d Inr p by (subst (1 2) lastElementLoop.simps) simp
        next
          case nb: False
          show ?thesis
          proof (cases "derefList s t")
            case (Inl e)
            then show ?thesis using act nd d Inr p nb by (subst (1 2) lastElementLoop.simps) simp
          next
            case l: (Inr l)
            have na: "\<not> \<not> n_active nd" using act by simp
            note IH = "1.IH"[OF nd(2) d na Inr p[symmetric] nb l refl refl refl, simplified]
            show ?thesis using act nd d Inr p nb l IH
              by (subst (1 2) lastElementLoop.simps) (simp add: Let_def id_def)
          qed
        qed
      qed
    next
      case False
      then show ?thesis using nd d by (subst (1 2) lastElementLoop.simps) simp
    qed
  qed
qed

lemma setF_getLastElement:
  "getLastElement t (setF c F s) = map_sum id (apsnd (setF c F)) (getLastElement t s)"
  by (simp add: apsnd_def getLastElement_def setF_lastElementLoop map_sum_bindE comp_def)

lemma setF_allocElementOnNode:
  "allocElementOnNode n e (setF c F s) = map_sum id (setF c F) (allocElementOnNode n e s)"
  by (simp add: allocElementOnNode_def setF_push)

lemma setF_if [simp]:
  "(if b then Inr (setF c F s) else Inr (setF c F s')) = map_sum id (setF c F) (if b then Inr s else Inr s')"
  "(if b then map_sum id (setF c F) m else Inr (setF c F s)) = map_sum id (setF c F) (if b then m else Inr s)"
  by simp_all

lemma setF_freePumaNode: "freePumaNode n (setF c F s) = map_sum id (setF c F) (freePumaNode n s)"
  by (simp add: freePumaNode_def setF_push cong: if_cong)

lemma setF_freeInactiveNext: "freeInactiveNext n (setF c F s) = map_sum id (setF c F) (freeInactiveNext n s)"
  by (auto simp: freeInactiveNext_def setF_push setF_freePumaNode fun_eq_iff intro!: arg_cong[where f = "bindE _"])

lemma setF_freeElementOnNode:
  "freeElementOnNode e n (setF c F s) = map_sum id (setF c F) (freeElementOnNode e n s)"
  by (simp add: freeElementOnNode_def setF_push setF_freeInactiveNext)

section \<open>One iteration\<close>

text \<open>The nodes given back are a suffix of empty active nodes, now in front of the inactive ones.\<close>

definition gaveBack :: "'e mem \<Rightarrow> addr list \<Rightarrow> addr list \<Rightarrow> addr list \<Rightarrow> addr list \<Rightarrow> bool" where
  "gaveBack s xs ys xs' ys' \<longleftrightarrow> ys' = drop (length xs') xs @ ys
     \<and> (\<forall>m\<in>set (drop (length xs') xs). n_numElements (the (nodeAt s m)) = 0)"

text \<open>
  What every number of iterations keeps, from \<open>s\<close> with active nodes \<open>xs\<close> to \<open>s'\<close> with active nodes
  \<open>xs'\<close>: a suffix of the active nodes may be deactivated, the contents stay, the nodes before the
  cleaned one stay as they are, and only slots of the cleaned one are written.
\<close>

definition kept :: "addr \<Rightarrow> addr \<Rightarrow> 'e mem \<Rightarrow> 'e mem \<Rightarrow> addr list \<Rightarrow> addr list \<Rightarrow> addr list \<Rightarrow> addr list
    \<Rightarrow> pumaNode \<Rightarrow> pumaNode \<Rightarrow> bool" where
  "kept t cur s s' xs ys xs' ys' nd nd' \<longleftrightarrow>
     (\<exists>ws. xs = xs' @ ws) \<and> tl_inv s' t xs' ys' \<and> set xs' \<union> set ys' \<subseteq> set xs \<union> set ys
   \<and> nodeAt s' cur = Some nd' \<and> n_dirty nd' \<and> n_firstKnownFree nd' = n_capacity nd' \<and> n_capacity nd' = n_capacity nd \<and> n_index nd' = n_index nd
   \<and> contents (nodeAt s') (cells s') xs' = contents (nodeAt s) (cells s) xs
   \<and> framed t (set xs \<union> set ys) s s'
   \<and> (\<forall>m \<in> set (takeWhile (\<lambda>m. m \<noteq> cur) xs) \<inter> set xs'. nodeAt s' m = nodeAt s m)
   \<and> (\<forall>a. a - a mod nodeBytes s \<noteq> cur \<longrightarrow> cells s' a = cells s a)"

lemma keptD:
  assumes "kept t cur s s' xs ys xs' ys' nd nd'"
  shows "\<exists>ws. xs = xs' @ ws" "tl_inv s' t xs' ys'" "set xs' \<union> set ys' \<subseteq> set xs \<union> set ys"
    "nodeAt s' cur = Some nd'" "n_dirty nd'" "n_firstKnownFree nd' = n_capacity nd'" "n_capacity nd' = n_capacity nd"
    "contents (nodeAt s') (cells s') xs' = contents (nodeAt s) (cells s) xs"
    "framed t (set xs \<union> set ys) s s'"
    "\<And>m. m \<in> set (takeWhile (\<lambda>m. m \<noteq> cur) xs) \<Longrightarrow> m \<in> set xs' \<Longrightarrow> nodeAt s' m = nodeAt s m"
    "\<And>a. a - a mod nodeBytes s \<noteq> cur \<Longrightarrow> cells s' a = cells s a" "n_index nd' = n_index nd"
  using assms unfolding kept_def by blast+

lemma kept_refl:
  assumes "tl_inv s t xs ys" "nodeAt s cur = Some nd" "n_dirty nd" "n_firstKnownFree nd = n_capacity nd"
  shows "kept t cur s s xs ys xs ys nd nd"
  using assms by (simp add: kept_def)

lemma takeWhile_prefix:
  assumes "m \<in> set (takeWhile (\<lambda>m. m \<noteq> c) (xs @ ws))" "m \<in> set xs"
  shows "m \<in> set (takeWhile (\<lambda>m. m \<noteq> c) xs)"
proof (cases "c \<in> set xs")
  case True
  then show ?thesis using assms by (simp add: takeWhile_append1[of c])
next
  case False
  then have "takeWhile (\<lambda>m. m \<noteq> c) xs = xs" by (auto simp: takeWhile_eq_all_conv)
  then show ?thesis using assms(2) by (simp only:)
qed

lemma kept_trans:
  assumes k1: "kept t cur s s1 xs ys xs1 ys1 nd nd1" and k2: "kept t cur s1 s2 xs1 ys1 xs2 ys2 nd1 nd2"
  shows "kept t cur s s2 xs ys xs2 ys2 nd nd2"
proof -
  note A = keptD[OF k1] and C = keptD[OF k2]
  obtain ws1 ws2 where ws: "xs = xs1 @ ws1" "xs1 = xs2 @ ws2" using A(1) C(1) by blast
  have nb: "nodeBytes s1 = nodeBytes s" by (rule framed_nodeBytes[OF A(9)])
  have "nodeAt s2 m = nodeAt s m" if "m \<in> set (takeWhile (\<lambda>m. m \<noteq> cur) xs)" "m \<in> set xs2" for m
  proof -
    have "m \<in> set xs1" using that(2) ws by simp
    then have "m \<in> set (takeWhile (\<lambda>m. m \<noteq> cur) xs1)" using takeWhile_prefix that(1) ws(1) by metis
    then show ?thesis using A(10)[OF that(1)] C(10) that(2) \<open>m \<in> set xs1\<close> by simp
  qed
  moreover have "framed t (set xs \<union> set ys) s s2"
    using A(9) framed_mono[OF C(9) A(3)] by (rule framed_trans)
  moreover have "\<exists>ws. xs = xs2 @ ws" using ws by simp
  moreover have "set xs2 \<union> set ys2 \<subseteq> set xs \<union> set ys" using C(3) A(3) by blast
  ultimately show ?thesis
    unfolding kept_def using A(7,8,11,12) C(2,4-8,11,12) nb by auto
qed

lemma searched_live:
  assumes "searched t s s' zs ws ys" "tl_inv s t (zs @ ws) ys"
  shows "liveAddrs (nodeAt s') zs = liveAddrs (nodeAt s) (zs @ ws)"
proof -
  from assms(2) obtain l where ok: "list_ok (nodeBytes s) t l (nodeAt s) (zs @ ws) ys" by (rule tl_invE)
  have e: "liveOf (the (nodeAt s m)) = {}" if "m \<in> set ws" for m
    by (rule liveOf_empty[OF list_okD(3)[OF ok]]) (use that assms(1) in \<open>auto simp: searched_def\<close>)
  have "nodeAt s' m = nodeAt s m" if "m \<in> set zs" for m
    using assms(1) that list_okD(1)[OF ok] by (auto simp: searched_def)
  then have "liveAddrs (nodeAt s') zs = liveAddrs (nodeAt s) zs" by (simp add: liveAddrs_def)
  moreover have "liveAddrs (nodeAt s) ws = {}" using e by (auto simp: liveAddrs_def)
  ultimately show ?thesis by simp
qed

lemma searched_kept:
  assumes sr: "searched t s s1 zs ws ys" and inv: "tl_inv s t (zs @ ws) ys"
    and nd: "nodeAt s cur = Some nd" "n_dirty nd" "n_firstKnownFree nd = n_capacity nd"
  shows "kept t cur s s1 (zs @ ws) ys zs (ws @ ys) nd (if cur \<in> set ws then nd\<lparr>n_active := False\<rparr> else nd)"
proof -
  from inv obtain l where ok: "list_ok (nodeBytes s) t l (nodeAt s) (zs @ ws) ys" by (rule tl_invE)
  have S: "tl_inv s1 t zs (ws @ ys)" "cells s1 = cells s" "framed t (set ws) s s1"
    "\<And>m. m \<in> set ws \<Longrightarrow> nodeAt s1 m = Some ((the (nodeAt s m))\<lparr>n_active := False\<rparr>)"
    "\<And>m. m \<notin> set ws \<Longrightarrow> nodeAt s1 m = nodeAt s m"
    using sr by (auto simp: searched_def)
  have "framed t (set (zs @ ws) \<union> set ys) s s1" by (rule framed_mono[OF S(3)]) auto
  moreover have "nodeAt s1 m = nodeAt s m" if "m \<in> set zs" for m
    using S(5) that list_okD(1)[OF ok] by auto
  moreover have "contents (nodeAt s1) (cells s1) zs = contents (nodeAt s) (cells s) (zs @ ws)"
    using searched_live[OF sr inv] S(2) by (simp add: contents_def)
  ultimately show ?thesis
    unfolding kept_def using S nd by auto
qed

text \<open>The last live element, on node \<open>n\<close>, is moved to the free slot \<open>i\<close> of the cleaned node.\<close>

lemma move_step:
  assumes inv: "tl_inv s t xs ys" and n: "n \<in> set xs" "n \<notin> set (takeWhile (\<lambda>m. m \<noteq> cur) xs)"
    and ln: "nodeAt s n = Some ln" "j \<in> used ln"
    and cur: "cur \<in> set xs" "nodeAt s cur = Some nd" "n_dirty nd" "n_firstKnownFree nd = n_capacity nd"
    and i: "i < n_capacity nd" "i \<notin> used nd"
  obtains s2 s3 ys' nd' where "allocElementOnNode cur (slotAddr nd i) s = Inr s2"
    "freeElementOnNode (slotAddr ln j) n
       (putCell (slotAddr nd i) (cells s2 (slotAddr ln j)) s2) = Inr s3"
    "kept t cur s s3 xs ys xs ys' nd nd'" "used nd' = insert i (used nd) - (if n = cur then {j} else {})"
proof -
  from inv obtain l where B: "cfg_ok (nodeBytes s)"
    and ok: "list_ok (nodeBytes s) t l (nodeAt s) xs ys" by (rule tl_invE)
  note D = list_okD[OF ok]
  have nok: "node_ok (nodeBytes s) t (tl_elementSize l) cur nd" using D(3)[of cur] cur by simp
  have lok: "node_ok (nodeBytes s) t (tl_elementSize l) n ln" using D(3)[of n] n ln by simp
  have usd: "insert i (used nd) \<subseteq> {..<n_capacity nd}" using i used_less by blast
  obtain s2 nd2 fm where a: "allocElementOnNode cur (slotAddr nd i) (putNode cur (nd\<lparr>n_firstKnownFree := n_capacity nd\<rparr>) s) = Inr s2"
    "tl_inv s2 t xs ys" "nodeAt s2 = (nodeAt s)(cur \<mapsto> nd2)"
    "nd2 = nd\<lparr>n_firstKnownFree := n_capacity nd, n_freeMask := fm, n_numElements := Suc (n_numElements nd)\<rparr>"
    "used nd2 = insert i (used nd)" "cells s2 = cells s" "framed t {cur} s s2"
    by (rule alloc_step[OF inv cur(1,2) i usd]) (use cur(3) in auto)
  have "nd\<lparr>n_firstKnownFree := n_capacity nd\<rparr> = nd" using cur(4) by (metis pumaNode.surjective pumaNode.update_convs(8))
  then have run1: "allocElementOnNode cur (slotAddr nd i) s = Inr s2"
    using a(1) putNode_same[OF cur(2)] by simp
  let ?x = "slotAddr ln j" and ?y = "slotAddr nd i"
  let ?ln = "if n = cur then nd2 else ln"
  let ?s2 = "putCell ?y (cells s2 ?x) s2"
  have sl: "slotAddr nd2 = slotAddr nd" by (simp add: a(4))
  have ln2: "nodeAt ?s2 n = Some ?ln" "j \<in> used ?ln" "slotAddr ?ln = slotAddr ln"
  proof -
    have e: "n = cur \<Longrightarrow> ln = nd" using ln(1) cur(2) by simp
    show "nodeAt ?s2 n = Some ?ln" using a(3) ln(1) by (simp add: mem_simps)
    have "n = cur \<Longrightarrow> j \<in> used nd2" using e ln(2) unfolding a(5) by blast
    then show "j \<in> used ?ln" using ln(2) by presburger
    have "n = cur \<Longrightarrow> slotAddr nd2 = slotAddr ln" using e sl by blast
    then show "slotAddr ?ln = slotAddr ln" by presburger
  qed
  have inv2: "tl_inv ?s2 t xs ys" using a(2) by simp
  obtain s3 ys' ln3 fm3 where f: "freeElementOnNode (slotAddr ?ln j) n ?s2 = Inr s3" "tl_inv s3 t xs ys'"
    "ys' = ys \<or> ys' = []" "\<And>m. m \<in> set xs \<Longrightarrow> m \<noteq> n \<Longrightarrow> nodeAt s3 m = nodeAt ?s2 m"
    "nodeAt s3 n = Some ln3"
    "ln3 = ?ln\<lparr>n_dirty := True, n_freeMask := fm3, n_numElements := n_numElements ?ln - 1\<rparr>
     \<or> ln3 = ?ln\<lparr>n_dirty := True, n_freeMask := fm3, n_numElements := n_numElements ?ln - 1, n_next := 0\<rparr>"
    "used ln3 = used ?ln - {j}" "cells s3 = cells ?s2" "framed t (set xs \<union> set ys) ?s2 s3"
    by (rule free_step[OF inv2 n(1) ln2(1,2)]) blast
  have sl3: "slotAddr ln3 = slotAddr ln" using f(6) ln2(3) by auto
  let ?nd' = "if n = cur then ln3 else nd2"
  have at: "nodeAt s3 cur = Some ?nd'" using f(4)[OF cur(1)] f(5) a(3) by (auto simp: mem_simps)
  have fl: "n_dirty ?nd' \<and> n_firstKnownFree ?nd' = n_capacity ?nd' \<and> n_capacity ?nd' = n_capacity nd \<and> n_index ?nd' = n_index nd"
    using f(6) a(4) cur(3) by auto
  have u: "used ?nd' = insert i (used nd) - (if n = cur then {j} else {})" using f(7) a(5) by auto
  have l1: "liveAddrs (nodeAt s2) xs = insert ?y (liveAddrs (nodeAt s) xs)"
    unfolding a(3) by (rule liveAddrs_take[where N = "nodeAt s" and n = cur and nd = nd])
      (use cur in \<open>simp_all add: liveOf_def sl a(5)\<close>)
  have ynew: "?y \<notin> liveAddrs (nodeAt s) xs" by (rule free_slot_not_live[OF ok cur(1,2) i])
  have xlive: "?x \<in> liveAddrs (nodeAt s) xs"
    using ln n(1) by (auto simp: liveAddrs_def liveOf_def intro!: bexI[of _ n])
  from inv2 obtain l2 where ok2: "list_ok (nodeBytes ?s2) t l2 (nodeAt ?s2) xs ys" by (rule tl_invE)
  have g: "node_geom (nodeBytes ?s2) n ?ln"
    using node_ok_geom[OF list_okD(3)[OF ok2, of n]] n(1) ln2(1) by simp
  have "liveOf ln3 = liveOf ?ln - {slotAddr ?ln j}"
    using f(7) sl3 ln2(3) slot_less_iff(3)[OF g] by (auto simp: liveOf_def)
  then have l3: "liveAddrs (nodeAt s3) xs = liveAddrs (nodeAt s2) xs - {?x}"
    using liveAddrs_release[where N = "nodeAt ?s2" and n = n and nd = ?ln and nd' = ln3 and a = "slotAddr ?ln j",
        OF ok2 n(1) ln2(1) _ f(5) _ f(4)] ln2(2,3)
    by (simp add: liveOf_def mem_simps)
  have cs: "cells s3 = (cells s)(?y := cells s ?x)" using f(8) a(6) by (simp add: mem_simps)
  have cont: "contents (nodeAt s3) (cells s3) xs = contents (nodeAt s) (cells s) xs"
    unfolding contents_def l3 l1 cs
    by (rule contents_move[OF _ xlive ynew]) simp
  have fr: "framed t (set xs \<union> set ys) s s3"
  proof (rule framed_trans[OF _ f(9)])
    have "?y - ?y mod nodeBytes s = cur" by (rule slot_block[OF node_ok_geom[OF nok] i(1)])
    then show "framed t (set xs \<union> set ys) s ?s2" using framed_mono[OF a(7), of "set xs \<union> set ys"] cur(1) by simp
  qed
  have us: "nodeAt s3 m = nodeAt s m" if "m \<in> set (takeWhile (\<lambda>m. m \<noteq> cur) xs)" "m \<in> set xs" for m
    using f(4)[OF that(2)] that(1) n(2) a(3) set_takeWhileD[OF that(1)] by (auto simp: mem_simps)
  have cf: "cells s3 a = cells s a" if "a - a mod nodeBytes s \<noteq> cur" for a
    using that slot_block[OF node_ok_geom[OF nok] i(1)] cs by auto
  have k: "kept t cur s s3 xs ys xs ys' nd ?nd'"
    unfolding kept_def using f(2,3) at fl cont fr us cf by auto
  show thesis by (rule that[OF run1 _ k u]) (use f(1) ln2(3) in simp)
qed

text \<open>Positions in the list and indices agree.\<close>

lemma list_ok_index_split: "list_ok B t l N (us @ a # vs) ys \<Longrightarrow> n_index (the (N a)) = length us"
  using list_ok_index[of B t l N "us @ a # vs" ys "length us"] by simp

lemma last_not_before:
  assumes "distinct (vs @ [n])" "c \<in> set (vs @ [n])"
  shows "n \<notin> set (takeWhile (\<lambda>m. m \<noteq> c) (vs @ [n]))"
proof (cases "c \<in> set vs")
  case True
  then show ?thesis using assms by (auto simp: takeWhile_append1[of c] dest: set_takeWhileD)
next
  case False
  then have "c = n" using assms(2) by simp
  then show ?thesis by (metis (mono_tags, lifting) set_takeWhileD)
qed

text \<open>
  An iteration in full: it ends after the search, or moves the last element, slot \<open>j\<close> of node \<open>n\<close>,
  to the first free slot \<open>i\<close>.
\<close>

definition stopsAt :: "addr \<Rightarrow> nat \<Rightarrow> addr \<Rightarrow> 'e mem \<Rightarrow> bool" where
  "stopsAt cur i r s \<longleftrightarrow> r = 0 \<or> (\<exists>cn ln. nodeAt s cur = Some cn \<and> nodeAt s (getNodeForElement s r) = Some ln
     \<and> (n_index ln < n_index cn \<or> n_index ln = n_index cn \<and> r \<le> getElement cn i))"

definition movesFrom :: "addr \<Rightarrow> pumaNode \<Rightarrow> nat \<Rightarrow> addr \<Rightarrow> pumaNode \<Rightarrow> nat \<Rightarrow> 'e mem \<Rightarrow> bool" where
  "movesFrom cur nd i n ln j s \<longleftrightarrow> slotAddr ln j \<noteq> 0 \<and> nodeAt s cur = Some nd \<and> getElement nd i = slotAddr nd i
     \<and> getNodeForElement s (slotAddr ln j) = n \<and> nodeAt s n = Some ln \<and> j \<in> used ln \<and> (n = cur \<longrightarrow> i < j)
     \<and> \<not> (n_index ln < n_index nd \<or> n_index ln = n_index nd \<and> slotAddr ln j \<le> slotAddr nd i)"

lemma cleanup_step_full:
  assumes inv: "tl_inv s t xs ys" and mem: "cur \<in> set xs \<or> xs = [] \<and> cur \<in> set ys"
    and nd: "nodeAt s cur = Some nd" "n_dirty nd" "n_firstKnownFree nd = n_capacity nd"
    and lt: "n_numElements nd < n_capacity nd"
  obtains (stop) s' zs ws nd' r i where "xs = zs @ ws"
      "kept t cur s s' xs ys zs (ws @ ys) nd nd'" "used nd' = used nd" "\<exists>k. used nd = {..<k}"
      "cur \<in> set zs \<or> used nd = {}" "gaveBack s xs ys zs (ws @ ys)"
      "pumaFirstIndexOfValue (n_freeMask nd) MASKFREE = Inr (i, True)" "getLastElement t s = Inr (r, s')" "stopsAt cur i r s'"
    | (move) s' zs ws ys' nd' i s1 s2 n ln j where "cur \<in> set zs" "kept t cur s s' xs ys zs ys' nd nd'" "i \<notin> used nd"
        "i < n_capacity nd" "{..<Suc i} \<subseteq> used nd'"
        "pumaFirstIndexOfValue (n_freeMask nd) MASKFREE = Inr (i, True)" "getLastElement t s = Inr (slotAddr ln j, s1)"
        "movesFrom cur nd i n ln j s1" "tl_inv s1 t zs (ws @ ys)" "n \<in> set zs"
        "allocElementOnNode cur (slotAddr nd i) s1 = Inr s2"
        "freeElementOnNode (slotAddr ln j) n (putCell (slotAddr nd i) (cells s2 (slotAddr ln j)) s2) = Inr s'"
proof -
  from inv obtain l where B: "cfg_ok (nodeBytes s)"
    and ok: "list_ok (nodeBytes s) t l (nodeAt s) xs ys" by (rule tl_invE)
  note D = list_okD[OF ok]
  have nok: "node_ok (nodeBytes s) t (tl_elementSize l) cur nd" using D(3)[of cur] mem nd(1) by auto
  note E = node_okD[OF nok]
  have mk: "bm_wf (n_freeMask nd)" "0 < bm_numElements (n_freeMask nd)" using E(4,5) lt by auto
  have u: "usedSlots (maskBit (n_freeMask nd)) (bm_numElements (n_freeMask nd)) = used nd"
    using E(5) by (simp add: used_def)
  obtain i where ff: "pumaFirstIndexOfValue (n_freeMask nd) MASKFREE = Inr (i, True)"
    and i: "i < n_capacity nd" "i \<notin> used nd" "{..<i} \<subseteq> used nd"
  proof (rule fm.first_free[OF mk])
    assume "usedSlots (maskBit (n_freeMask nd)) (bm_numElements (n_freeMask nd)) = {..<bm_numElements (n_freeMask nd)}"
    then have "n_numElements nd = n_capacity nd" using u E(5,6) by (metis card_lessThan)
    then show thesis using lt by simp
  next
    fix i assume a: "pumaFirstIndexOfValue (n_freeMask nd) MASKFREE = Inr (i, True)" "i < bm_numElements (n_freeMask nd)"
      "i \<notin> usedSlots (maskBit (n_freeMask nd)) (bm_numElements (n_freeMask nd))"
      "{..<i} \<subseteq> usedSlots (maskBit (n_freeMask nd)) (bm_numElements (n_freeMask nd))"
    show thesis by (rule that[of i]) (use a u E(5) in simp_all)
  qed
  obtain r s1 zs ws where gl: "getLastElement t s = Inr (r, s1)" and xs: "xs = zs @ ws"
    and sr: "searched t s s1 zs ws ys" and lr: "lastResult (nodeAt s) zs r"
    by (rule getLastElement_list[OF inv])
  let ?nd1 = "if cur \<in> set ws then nd\<lparr>n_active := False\<rparr> else nd"
  have k1: "kept t cur s s1 xs ys zs (ws @ ys) nd ?nd1"
    unfolding xs by (rule searched_kept[OF sr _ nd]) (use inv xs in simp)
  note K = keptD[OF k1]
  have gb: "gaveBack s xs ys zs (ws @ ys)" using sr xs by (simp add: gaveBack_def searched_def)
  have u1: "used ?nd1 = used nd" by simp
  have sl1: "slotAddr ?nd1 = slotAddr nd" by simp
  have emp: "used nd = {}" if "cur \<notin> set zs"
  proof -
    have "n_numElements nd = 0"
    proof (cases "cur \<in> set ws")
      case True
      then show ?thesis using sr nd(1) by (auto simp: searched_def)
    next
      case False
      then have "cur \<in> set ys" using mem that xs by auto
      then show ?thesis using D(5)[of cur] nd(1) by simp
    qed
    then show ?thesis using node_ok_empty[OF nok] by simp
  qed
  have nn: "\<exists>nd. nodeAt s m = Some nd \<and> node_geom (nodeBytes s) m nd" if "m \<in> set zs" for m
  proof -
    have "m \<in> set xs \<union> set ys" using that xs by simp
    from list_ok_node[OF ok this] obtain md where
      "nodeAt s m = Some md" "node_ok (nodeBytes s) t (tl_elementSize l) m md" by blast
    then show ?thesis using node_ok_geom by blast
  qed
  show thesis
  proof (cases rule: lastResult_cases[OF lr nn])
    case 1
    then show ?case .
  next
    case none: 2
    have "used nd = {..<0}" using emp none by simp
    moreover have "cur \<in> set zs \<or> used nd = {}" using emp none by simp
    moreover have "stopsAt cur i r s1" using none by (simp add: stopsAt_def)
    ultimately show thesis by (rule stop[OF xs k1 u1 exI _ gb ff gl])
  next
    case el: (3 vs n ln j)
    have nz: "n \<in> set xs" "n \<notin> set ws" using D(1) xs el(1) by auto
    have lok: "node_ok (nodeBytes s) t (tl_elementSize l) n ln" using D(3)[of n] nz(1) el(2) by simp
    have nb: "nodeBytes s1 = nodeBytes s" by (rule framed_nodeBytes[OF K(9)])
    have home: "getNodeForElement s1 r = n"
      unfolding el(5) by (rule node_of_slot) (use B nb node_ok_geom[OF lok] used_less[OF el(3)] in simp_all)
    have ln1: "nodeAt s1 n = Some ln" using sr nz(2) el(2) by (simp add: searched_def)
    have ge: "getElement ?nd1 i = slotAddr nd i"
      using getElement_slot[of "nodeBytes s" cur ?nd1 i] E(1) i(1) sl1 by simp
    have iln: "n_index ln = length vs"
      using list_ok_index_split[of "nodeBytes s" t l "nodeAt s" vs n ws ys] ok xs el(1,2) by simp
    have before: "stopsAt cur i r s1" if "n_index ln < n_index nd \<or> n_index ln = n_index nd \<and> r \<le> slotAddr nd i"
      unfolding stopsAt_def using that K(4) home ln1 ge by auto
    show thesis
    proof (cases "cur \<in> set zs")
      case False
      then have "cur \<in> set ws" using mem xs el(1) by auto
      then obtain ps qs where ws: "ws = ps @ cur # qs" by (auto simp: in_set_conv_decomp)
      have "n_index nd = length (zs @ ps)"
        using list_ok_index_split[of "nodeBytes s" t l "nodeAt s" "zs @ ps" cur qs ys] ok xs ws nd(1) by simp
      then have st: "stopsAt cur i r s1" using iln el(1) by (intro before) simp
      have "used nd = {..<0}" using emp False by simp
      moreover have "cur \<in> set zs \<or> used nd = {}" using emp False by simp
      ultimately show thesis by (rule stop[OF xs k1 u1 exI _ gb ff gl st])
    next
      case True
      then have cw: "cur \<notin> set ws" using D(1) xs by auto
      have icur: "n_index nd \<le> length vs" "n_index nd = length vs \<Longrightarrow> cur = n"
      proof -
        obtain ps qs where zs: "zs = ps @ cur # qs" using True by (auto simp: in_set_conv_decomp)
        have "n_index nd = length ps"
          using list_ok_index_split[of "nodeBytes s" t l "nodeAt s" ps cur "qs @ ws" ys] ok xs zs nd(1) by simp
        moreover have eq: "ps @ cur # qs = vs @ [n]" using zs el(1) by simp
        moreover have "length ps + length qs = length vs" using arg_cong[OF eq, of length] by simp
        ultimately show "n_index nd \<le> length vs" "n_index nd = length vs \<Longrightarrow> cur = n" by auto
      qed
      show thesis
      proof (cases "cur = n \<and> j \<le> i")
        case True
        then have [simp]: "ln = nd" using el(2) nd(1) by simp
        have "r \<le> slotAddr nd i" using True el(5) slot_less_iff(2)[OF E(1)] by simp
        then have st: "stopsAt cur i r s1" by (intro before) simp
        have "used nd = {..<i}"
        proof
          show "used nd \<subseteq> {..<i}"
          proof
            fix k assume "k \<in> used nd"
            then have "k \<le> i" "k \<noteq> i" using el(4)[of k] True i(2) by auto
            then show "k \<in> {..<i}" by simp
          qed
        qed (rule i(3))
        moreover have "cur \<in> set zs \<or> used nd = {}" using \<open>cur \<in> set zs\<close> by simp
        ultimately show thesis by (rule stop[OF xs k1 u1 exI _ gb ff gl st])
      next
        case False
        have ns: "\<not> (n_index ln < n_index nd \<or> n_index ln = n_index nd \<and> r \<le> slotAddr nd i)"
        proof
          assume h: "n_index ln < n_index nd \<or> n_index ln = n_index nd \<and> r \<le> slotAddr nd i"
          then have "n_index ln = n_index nd" using icur(1) iln by simp
          then have c: "cur = n" using icur(2) iln by simp
          then have "ln = nd" using el(2) nd(1) by simp
          then have "j \<le> i" using h el(5) slot_less_iff(2)[OF E(1)] by auto
          then show False using False c by simp
        qed
        have nd1: "nodeAt s1 cur = Some nd" using K(4) cw by simp
        have "distinct (vs @ [n])" using D(1) xs el(1) by auto
        from last_not_before[OF this, of cur] have nb4: "n \<notin> set (takeWhile (\<lambda>m. m \<noteq> cur) zs)"
          using True el(1) by simp
        have nzs: "n \<in> set zs" using el(1) by simp
        obtain s2 s3 ys' nd' where mv: "allocElementOnNode cur (slotAddr nd i) s1 = Inr s2"
          "freeElementOnNode (slotAddr ln j) n (putCell (slotAddr nd i) (cells s2 (slotAddr ln j)) s2) = Inr s3"
          "kept t cur s1 s3 zs (ws @ ys) zs ys' nd nd'"
          "used nd' = insert i (used nd) - (if n = cur then {j} else {})"
          by (rule move_step[OF K(2) nzs nb4 ln1 el(3) True nd1 nd(2,3) i(1,2)])
        have mf: "movesFrom cur nd i n ln j s1"
          unfolding movesFrom_def using el(3,5,6) nd1 ge home ln1 ns cw False by auto
        have "kept t cur s s3 xs ys zs ys' nd nd'"
          by (rule kept_trans[OF _ mv(3)]) (use k1 cw in simp)
        moreover have "{..<Suc i} \<subseteq> used nd'"
        proof -
          have "j \<notin> {..<Suc i}" if "n = cur" using False that by auto
          then show ?thesis using i(3) mv(4) by (auto simp: lessThan_Suc split: if_splits)
        qed
        ultimately show thesis
          by (rule move[OF True _ i(2,1) _ ff gl[unfolded el(5)] mf K(2) nzs mv(1,2)])
      qed
    qed
  qed
qed

text \<open>What the loop makes of it.\<close>

lemma cleanupLoop_stop:
  assumes "nodeAt s cur = Some nd" "n_numElements nd < n_capacity nd"
    "pumaFirstIndexOfValue (n_freeMask nd) MASKFREE = Inr (i, True)" "getLastElement t s = Inr (r, s')" "stopsAt cur i r s'"
  shows "cleanupLoop (Suc fuel) cur t s = Inr s'"
  using assms unfolding stopsAt_def by (elim disjE exE) (auto simp: cleanupLoop.simps(2) mem_simps)

lemma cleanupLoop_move:
  assumes "nodeAt s cur = Some nd" "n_numElements nd < n_capacity nd"
    "pumaFirstIndexOfValue (n_freeMask nd) MASKFREE = Inr (i, True)" "getLastElement t s = Inr (slotAddr ln j, s1)"
    "movesFrom cur nd i n ln j s1" "allocElementOnNode cur (slotAddr nd i) s1 = Inr s2"
    "freeElementOnNode (slotAddr ln j) n (putCell (slotAddr nd i) (cells s2 (slotAddr ln j)) s2) = Inr s'"
  shows "cleanupLoop (Suc fuel) cur t s = cleanupLoop fuel cur t s'"
  using assms unfolding movesFrom_def by (elim conjE) (auto simp: cleanupLoop.simps(2) mem_simps Let_def)

lemma cleanup_step:
  assumes inv: "tl_inv s t xs ys" and mem: "cur \<in> set xs \<or> xs = [] \<and> cur \<in> set ys"
    and nd: "nodeAt s cur = Some nd" "n_dirty nd" "n_firstKnownFree nd = n_capacity nd"
    and lt: "n_numElements nd < n_capacity nd"
  obtains (stop) s' zs ws nd' where "\<And>fuel. cleanupLoop (Suc fuel) cur t s = Inr s'" "xs = zs @ ws"
      "kept t cur s s' xs ys zs (ws @ ys) nd nd'" "used nd' = used nd" "\<exists>k. used nd = {..<k}"
      "cur \<in> set zs \<or> used nd = {}" "gaveBack s xs ys zs (ws @ ys)"
    | (move) s' zs ys' nd' i where "\<And>fuel. cleanupLoop (Suc fuel) cur t s = cleanupLoop fuel cur t s'"
        "cur \<in> set zs" "kept t cur s s' xs ys zs ys' nd nd'" "i \<notin> used nd" "i < n_capacity nd"
        "{..<Suc i} \<subseteq> used nd'"
proof (rule cleanup_step_full[OF assms])
  fix s' zs ws nd' r i
  assume st: "xs = zs @ ws" "kept t cur s s' xs ys zs (ws @ ys) nd nd'" "used nd' = used nd" "\<exists>k. used nd = {..<k}"
    "cur \<in> set zs \<or> used nd = {}" "gaveBack s xs ys zs (ws @ ys)"
    "pumaFirstIndexOfValue (n_freeMask nd) MASKFREE = Inr (i, True)" "getLastElement t s = Inr (r, s')" "stopsAt cur i r s'"
  show thesis by (rule stop[OF cleanupLoop_stop[OF nd(1) lt st(7-9)] st(1-6)])
next
  fix s' zs ws ys' nd' i s1 s2 n ln j
  assume mv: "cur \<in> set zs" "kept t cur s s' xs ys zs ys' nd nd'" "i \<notin> used nd" "i < n_capacity nd" "{..<Suc i} \<subseteq> used nd'"
    "pumaFirstIndexOfValue (n_freeMask nd) MASKFREE = Inr (i, True)" "getLastElement t s = Inr (slotAddr ln j, s1)"
    "movesFrom cur nd i n ln j s1" "tl_inv s1 t zs (ws @ ys)" "n \<in> set zs"
    "allocElementOnNode cur (slotAddr nd i) s1 = Inr s2"
    "freeElementOnNode (slotAddr ln j) n (putCell (slotAddr nd i) (cells s2 (slotAddr ln j)) s2) = Inr s'"
  show thesis by (rule move[OF cleanupLoop_move[OF nd(1) lt mv(6-8,11,12)] mv(1-5)])
qed

section \<open>The whole loop and \<open>_cleanupNode\<close>\<close>

lemma cleanupLoop_ok:
  assumes "tl_inv s t xs ys" "cur \<in> set xs \<or> xs = [] \<and> cur \<in> set ys"
    "nodeAt s cur = Some nd" "n_dirty nd" "n_firstKnownFree nd = n_capacity nd"
    "{..<k} \<subseteq> used nd" "n_capacity nd - k < fuel"
  shows "\<exists>s' xs' ys' nd'. cleanupLoop fuel cur t s = Inr s' \<and> kept t cur s s' xs ys xs' ys' nd nd'
     \<and> (\<exists>k. used nd' = {..<k})
     \<and> (cur \<in> set xs' \<or> used nd = {} \<and> used nd' = {} \<and> gaveBack s xs ys xs' ys')"
  using assms
proof (induction fuel arbitrary: s xs ys nd k)
  case 0
  then show ?case by simp
next
  case (Suc fuel)
  note p = Suc.prems
  from p(1) obtain l where ok: "list_ok (nodeBytes s) t l (nodeAt s) xs ys" by (rule tl_invE)
  have nok: "node_ok (nodeBytes s) t (tl_elementSize l) cur nd"
    using list_okD(3)[OF ok, of cur] p(2,3) by auto
  show ?case
  proof (cases "n_numElements nd < n_capacity nd")
    case False
    have "n_numElements nd \<le> n_capacity nd" using node_ok_count[OF nok] card_used_le by simp
    then have full: "used nd = {..<n_capacity nd}" using used_full[OF nok] False by simp
    have run: "cleanupLoop (Suc fuel) cur t s = Inr s"
      using False p(3) by (simp add: cleanupLoop.simps(2) mem_simps)
    have "cur \<in> set xs"
    proof (rule ccontr)
      assume "cur \<notin> set xs"
      then have "n_numElements nd = 0" using list_okD(5)[OF ok, of cur] p(2,3) by auto
      moreover have "0 < n_capacity nd" using node_okD(1)[OF nok] by (simp add: node_geom_def)
      ultimately show False using False by simp
    qed
    then show ?thesis using run full kept_refl[OF p(1,3-5)] by blast
  next
    case lt: True
    show ?thesis
    proof (rule cleanup_step[OF p(1-5) lt])
      fix s' zs ws nd' assume st: "\<And>fuel. cleanupLoop (Suc fuel) cur t s = Inr s'" "xs = zs @ ws"
        "kept t cur s s' xs ys zs (ws @ ys) nd nd'" "used nd' = used nd" "\<exists>k. used nd = {..<k}"
        "cur \<in> set zs \<or> used nd = {}" "gaveBack s xs ys zs (ws @ ys)"
      then show ?thesis by metis
    next
      fix s' zs ys' nd' i assume mv: "\<And>fuel. cleanupLoop (Suc fuel) cur t s = cleanupLoop fuel cur t s'"
        "cur \<in> set zs" "kept t cur s s' xs ys zs ys' nd nd'" "i \<notin> used nd" "i < n_capacity nd"
        "{..<Suc i} \<subseteq> used nd'"
      note K = keptD[OF mv(3)]
      have "k \<le> i" using p(6) mv(4) by (meson lessThan_iff not_le subsetD)
      then have "n_capacity nd' - Suc i < fuel" using p(7) mv(5) K(7) by linarith
      from Suc.IH[OF K(2) disjI1[OF mv(2)] K(4-6) mv(6) this] obtain s2 xs2 ys2 nd2 where
        r: "cleanupLoop fuel cur t s' = Inr s2" "kept t cur s' s2 zs ys' xs2 ys2 nd' nd2"
        "\<exists>k. used nd2 = {..<k}" "cur \<in> set xs2 \<or> used nd' = {}" by blast
      have "cur \<in> set xs2" using r(4) mv(6) by auto
      then show ?thesis using r mv(1) kept_trans[OF mv(3) r(2)] by metis
    qed
  qed
qed

lemma bindE_sim:
  assumes "m' = map_sum id g m" "\<And>x. m = Inr x \<Longrightarrow> f' (g x) = map_sum id h (f x)"
  shows "bindE m' f' = map_sum id h (bindE m f)"
  using assms by (cases m) simp_all

lemma bindE_sim_same: "(\<And>x. m = Inr x \<Longrightarrow> f' x = map_sum id h (f x)) \<Longrightarrow> bindE m f' = map_sum id h (bindE m f)"
  by (cases m) simp_all

lemma if_sim: "x' = map_sum id g x \<Longrightarrow> (if b then x' else Inr (g s)) = map_sum id g (if b then x else Inr s)"
  by simp

lemma if_sim': "x' = map_sum id g x \<Longrightarrow> (if b then Inr (g s) else x') = map_sum id g (if b then Inr s else x)"
  by simp

lemma setF_cleanupLoop:
  fixes s :: "'e mem"
  shows "cleanupLoop fuel cur t (setF c F s) = map_sum id (setF c F) (cleanupLoop fuel cur t s)"
proof (induction fuel arbitrary: s)
  case (Suc fuel)
  have iter: "bindE (allocElementOnNode cur e (setF c F s1)) (\<lambda>s2. bindE (freeElementOnNode e' n
        (putCell e (cells s2 e') s2)) (cleanupLoop fuel cur t))
    = map_sum id (setF c F) (bindE (allocElementOnNode cur e s1) (\<lambda>s2. bindE (freeElementOnNode e' n
        (putCell e (cells s2 e') s2)) (cleanupLoop fuel cur t)))" for e e' n and s1 :: "'e mem"
  proof (rule bindE_sim[OF setF_allocElementOnNode], goal_cases)
    case (1 s2)
    show ?case
      unfolding setF_fields setF_put by (rule bindE_sim[OF setF_freeElementOnNode]) (rule Suc.IH)
  qed
  show ?case
    unfolding cleanupLoop.simps(2) Let_def
    by (rule bindE_sim[OF setF_derefNode], unfold tweakF_fields, rule if_sim,
        rule bindE_sim_same, unfold case_prod_unfold, rule bindE_sim[OF setF_getLastElement],
        unfold fst_apsnd snd_apsnd, rule if_sim',
        rule bindE_sim[OF setF_derefNode], unfold setF_fields setF_getElement,
        rule bindE_sim[OF setF_derefNode], unfold tweakF_fields setF_fields setF_getElement, rule if_sim', rule iter)
qed (simp add: cleanupLoop.simps(1))

lemma putNode_setF [simp]: "putNode c nd (setF c F s) = putNode c nd s"
proof -
  have "fmupd c nd (fmmap_keys (tweakF c F) (nodes s)) = fmupd c nd (nodes s)"
    by (rule fmap_ext) (auto simp: tweakF_def map_option_idI)
  then show ?thesis by (simp add: putNode_def setF_def)
qed

lemma setF_putNode:
  assumes "nodeAt s c = Some nd"
  shows "setF c F s = putNode c (nd\<lparr>n_firstKnownFree := F\<rparr>) s"
proof -
  have "fmmap_keys (tweakF c F) (nodes s) = fmupd c (nd\<lparr>n_firstKnownFree := F\<rparr>) (nodes s)"
    by (rule fmap_ext) (use assms in \<open>auto simp: tweakF_def map_option_idI\<close>)
  then show ?thesis by (simp add: putNode_def setF_def)
qed

text \<open>
  The result of \<open>_cleanupNode\<close>: the node is compact, the list invariant and the contents are kept,
  a suffix of empty active nodes may have been deactivated. The node itself is deactivated only
  when it was empty, and then the inactive nodes are exactly the former suffix and the old ones.
\<close>

definition cleaned :: "addr \<Rightarrow> addr \<Rightarrow> 'e mem \<Rightarrow> 'e mem \<Rightarrow> addr list \<Rightarrow> addr list \<Rightarrow> addr list \<Rightarrow> addr list
    \<Rightarrow> pumaNode \<Rightarrow> pumaNode \<Rightarrow> bool" where
  "cleaned t cur s s' xs ys xs' ys' nd nd' \<longleftrightarrow>
     (\<exists>ws. xs = xs' @ ws) \<and> tl_inv s' t xs' ys' \<and> set xs' \<union> set ys' \<subseteq> set xs \<union> set ys
   \<and> nodeAt s' cur = Some nd' \<and> \<not> n_dirty nd' \<and> used nd' = {..<n_numElements nd'}
   \<and> n_firstKnownFree nd' = n_numElements nd' \<and> n_capacity nd' = n_capacity nd \<and> n_index nd' = n_index nd
   \<and> contents (nodeAt s') (cells s') xs' = contents (nodeAt s) (cells s) xs
   \<and> framed t (set xs \<union> set ys) s s'
   \<and> (\<forall>m \<in> set (takeWhile (\<lambda>m. m \<noteq> cur) xs) \<inter> set xs'. nodeAt s' m = nodeAt s m)
   \<and> (\<forall>a. a - a mod nodeBytes s \<noteq> cur \<longrightarrow> cells s' a = cells s a)
   \<and> (cur \<in> set xs' \<or> used nd = {} \<and> used nd' = {} \<and> gaveBack s xs ys xs' ys')"

lemma cleanedD:
  assumes "cleaned t cur s s' xs ys xs' ys' nd nd'"
  shows "\<exists>ws. xs = xs' @ ws" "tl_inv s' t xs' ys'" "set xs' \<union> set ys' \<subseteq> set xs \<union> set ys"
    "nodeAt s' cur = Some nd'" "\<not> n_dirty nd'" "used nd' = {..<n_numElements nd'}"
    "n_firstKnownFree nd' = n_numElements nd'" "n_capacity nd' = n_capacity nd"
    "contents (nodeAt s') (cells s') xs' = contents (nodeAt s) (cells s) xs"
    "framed t (set xs \<union> set ys) s s'"
    "\<And>m. m \<in> set (takeWhile (\<lambda>m. m \<noteq> cur) xs) \<Longrightarrow> m \<in> set xs' \<Longrightarrow> nodeAt s' m = nodeAt s m"
    "\<And>a. a - a mod nodeBytes s \<noteq> cur \<Longrightarrow> cells s' a = cells s a"
    "n_index nd' = n_index nd" "cur \<notin> set xs' \<Longrightarrow> used nd = {} \<and> used nd' = {} \<and> gaveBack s xs ys xs' ys'"
proof -
  note C = assms[unfolded cleaned_def]
  show "\<exists>ws. xs = xs' @ ws" "tl_inv s' t xs' ys'" "set xs' \<union> set ys' \<subseteq> set xs \<union> set ys"
    "nodeAt s' cur = Some nd'" "\<not> n_dirty nd'" "used nd' = {..<n_numElements nd'}"
    "n_firstKnownFree nd' = n_numElements nd'" "n_capacity nd' = n_capacity nd"
    "contents (nodeAt s') (cells s') xs' = contents (nodeAt s) (cells s) xs"
    "framed t (set xs \<union> set ys) s s'" "n_index nd' = n_index nd"
    by (insert C) (elim conjE, assumption)+
  from C have "\<forall>m \<in> set (takeWhile (\<lambda>m. m \<noteq> cur) xs) \<inter> set xs'. nodeAt s' m = nodeAt s m"
    by (elim conjE)
  then show "nodeAt s' m = nodeAt s m" if "m \<in> set (takeWhile (\<lambda>m. m \<noteq> cur) xs)" "m \<in> set xs'" for m
    using that by blast
  from C have "\<forall>a. a - a mod nodeBytes s \<noteq> cur \<longrightarrow> cells s' a = cells s a" by (elim conjE)
  then show "cells s' a = cells s a" if "a - a mod nodeBytes s \<noteq> cur" for a
    using that by blast
  from C have "cur \<in> set xs' \<or> used nd = {} \<and> used nd' = {} \<and> gaveBack s xs ys xs' ys'"
    by (elim conjE)
  then show "used nd = {} \<and> used nd' = {} \<and> gaveBack s xs ys xs' ys'" if "cur \<notin> set xs'"
    using that by blast
qed

lemma node_ok_setFKF:
  assumes "node_ok B t es a nd" "n_dirty nd"
  shows "node_ok B t es a (nd\<lparr>n_firstKnownFree := n_capacity nd\<rparr>)"
proof -
  have "used nd \<subseteq> {..<n_capacity nd}" using used_less by blast
  then show ?thesis using node_okD[OF assms(1)] assms(2) by (intro node_okI) simp_all
qed

lemma node_ok_compact:
  assumes "node_ok B t es a nd" "used nd = {..<k}"
  shows "node_ok B t es a (nd\<lparr>n_dirty := False, n_firstKnownFree := n_numElements nd\<rparr>)" "k = n_numElements nd"
proof -
  note E = node_okD[OF assms(1)]
  show k: "k = n_numElements nd" using E(6) assms(2) by simp
  have le: "n_numElements nd \<le> n_capacity nd" using E(6) card_used_le by simp
  have f: "n_firstKnownFree (nd\<lparr>n_dirty := False, n_firstKnownFree := n_numElements nd\<rparr>) = n_numElements nd"
    "n_numElements (nd\<lparr>n_dirty := False, n_firstKnownFree := n_numElements nd\<rparr>) = n_numElements nd" by simp_all
  show "node_ok B t es a (nd\<lparr>n_dirty := False, n_firstKnownFree := n_numElements nd\<rparr>)"
  proof (intro node_okI, unfold used_upd f)
    show "n_numElements nd = card (used nd)" by (rule E(6))
    show u: "used nd = {..<n_numElements nd}" unfolding assms(2) k ..
    then show "used nd \<subseteq> {..<n_numElements nd}" by (rule equalityD1)
  qed (use E(1-5) le in simp_all)
qed

lemma cleanupNode_ok:
  assumes inv: "tl_inv s t xs ys" and mem: "cur \<in> set xs \<or> xs = [] \<and> cur \<in> set ys"
    and nd: "nodeAt s cur = Some nd" "n_dirty nd"
  obtains s' xs' ys' nd' where "cleanupNode cur t s = Inr s'" "cleaned t cur s s' xs ys xs' ys' nd nd'"
proof -
  let ?nd0 = "nd\<lparr>n_firstKnownFree := n_capacity nd\<rparr>"
  let ?s0 = "putNode cur ?nd0 s"
  have memu: "cur \<in> set xs \<union> set ys" using mem by auto
  have inv0: "tl_inv ?s0 t xs ys"
    by (rule tl_inv_putNode[OF inv memu nd(1)]) (auto intro: node_ok_setFKF nd(2))
  have s: "s = setF cur (n_firstKnownFree nd) ?s0"
    using nd(1) by (subst setF_putNode[of _ _ ?nd0]) (simp_all add: mem_simps putNode_same)
  have nd0: "nodeAt ?s0 cur = Some ?nd0" "n_dirty ?nd0" "n_firstKnownFree ?nd0 = n_capacity ?nd0"
    "{..<0} \<subseteq> used ?nd0" "n_capacity ?nd0 - 0 < Suc (n_capacity nd)"
    using nd(2) by (simp_all add: mem_simps)
  from cleanupLoop_ok[OF inv0 mem nd0] obtain s1 xs' ys' nd1 k where
    run: "cleanupLoop (Suc (n_capacity nd)) cur t ?s0 = Inr s1" and k: "kept t cur ?s0 s1 xs ys xs' ys' ?nd0 nd1"
    and u: "used nd1 = {..<k}"
    and c0: "cur \<in> set xs' \<or> used ?nd0 = {} \<and> used nd1 = {} \<and> gaveBack ?s0 xs ys xs' ys'" by blast
  have "gaveBack ?s0 xs ys xs' ys' = gaveBack s xs ys xs' ys'"
    unfolding gaveBack_def using nd(1) by (intro arg_cong2[where f = "(\<and>)"] ball_cong) (simp_all add: mem_simps)
  then have c: "cur \<in> set xs' \<or> used nd = {} \<and> used nd1 = {} \<and> gaveBack s xs ys xs' ys'" using c0 by simp
  note K = keptD[OF k]
  let ?nd' = "nd1\<lparr>n_dirty := False, n_firstKnownFree := n_numElements nd1\<rparr>"
  let ?s' = "putNode cur ?nd' s1"
  have "cleanupLoop (Suc (n_capacity nd)) cur t s = Inr (setF cur (n_firstKnownFree nd) s1)"
    by (subst s) (simp add: setF_cleanupLoop run)
  moreover have "nodeAt (setF cur (n_firstKnownFree nd) s1) cur = Some (tweakF cur (n_firstKnownFree nd) cur nd1)"
    using K(4) by (simp add: setF_lookup)
  ultimately have run': "cleanupNode cur t s = Inr ?s'"
    using nd(1) by (simp add: cleanupNode_def mem_simps) (simp add: tweakF_def)
  from K(2) obtain l1 where ok1: "list_ok (nodeBytes s1) t l1 (nodeAt s1) xs' ys'" by (rule tl_invE)
  have memu': "cur \<in> set xs' \<union> set ys'"
    using c mem K(1) by (elim disjE exE) (auto simp: gaveBack_def)
  have nok1: "node_ok (nodeBytes s1) t (tl_elementSize l1) cur nd1"
    using list_okD(3)[OF ok1 memu'] K(4) by simp
  have inv': "tl_inv ?s' t xs' ys'"
    by (rule tl_inv_putNode[OF K(2) memu' K(4)]) (use node_ok_compact(1) u in simp_all)
  have num: "used ?nd' = {..<n_numElements ?nd'}" using u node_ok_compact(2)[OF nok1 u] by simp
  have l0: "liveAddrs (nodeAt ?s0) xs = liveAddrs (nodeAt s) xs"
    unfolding mem_simps by (rule liveAddrs_same[OF nd(1)]) simp
  have l': "liveAddrs (nodeAt ?s') xs' = liveAddrs (nodeAt s1) xs'"
    unfolding mem_simps by (rule liveAddrs_same[OF K(4)]) simp
  have cont: "contents (nodeAt ?s') (cells ?s') xs' = contents (nodeAt s) (cells s) xs"
    using K(8) l0 l' by (simp add: contents_def mem_simps)
  have fr: "framed t (set xs \<union> set ys) s ?s'"
    using framed_trans[OF _ K(9)] memu memu' by simp
  have us: "nodeAt ?s' m = nodeAt s m" if "m \<in> set (takeWhile (\<lambda>m. m \<noteq> cur) xs)" "m \<in> set xs'" for m
    using K(10)[OF that] set_takeWhileD[OF that(1)] by (simp add: mem_simps)
  have cf: "cells ?s' a = cells s a" if "a - a mod nodeBytes s \<noteq> cur" for a
    using K(11)[of a] that by (simp add: mem_simps)
  have "cleaned t cur s ?s' xs ys xs' ys' nd ?nd'"
    unfolding cleaned_def
    using K(1,3,7,12) inv' num cont fr us cf c by (auto simp: mem_simps)
  with run' show thesis by (rule that)
qed

section \<open>Appending a node\<close>

text \<open>
  \<open>posix_memalign\<close> (called through \<open>numalloc_aligned_on_node\<close>) is a parameter: from the addresses of
  the blocks in use and a size, which is also the alignment, the address of a new block, or
  \<open>None\<close> when it fails; the code goes on with the uninitialised pointer then.
\<close>

type_synonym memalign = "addr fset \<Rightarrow> nat \<Rightarrow> addr option"

definition memalign_spec :: "memalign \<Rightarrow> bool" where
  "memalign_spec ma \<longleftrightarrow> (\<forall>U sz a. ma U sz = Some a \<longrightarrow> 0 < a \<and> sz dvd a \<and> a + sz \<le> 2 ^ 64 \<and> a |\<notin>| U)"

text \<open>\<open>int nextIndex = n\<close> and back to \<open>size_t\<close>.\<close>

definition intIndex :: "nat \<Rightarrow> nat" where
  "intIndex n = unat (scast (of_nat n :: 32 word) :: 64 word)"

text \<open>The fields of a fresh node, in one record.\<close>

definition newNode ::
  "nat \<Rightarrow> nat \<Rightarrow> addr \<Rightarrow> nat \<Rightarrow> addr \<Rightarrow> nat \<Rightarrow> pumaBitmask \<Rightarrow> addr \<Rightarrow> nat \<Rightarrow> pumaNode" where
  "newNode pageSize nodeSize t elementSize tail nextIndex bmask elementArray capacity =
     \<lparr>n_elementSize = elementSize,
      n_pageUnit = sz_mul pageSize (sz_sub (sz_add elementSize pageSize) 1 div pageSize),
      n_blockSize = nodeSize, n_numPages = nodeSize div pageSize,
      n_elementArray = elementArray, n_numElements = 0, n_capacity = capacity,
      n_firstKnownFree = 0, n_next = 0, n_prev = tail, n_freeMask = bmask,
      n_dirty = False, n_active = True, n_index = nextIndex, n_threadList = t\<rparr>"

definition appendFresh :: "memalign \<Rightarrow> addr \<Rightarrow> nat \<Rightarrow> addr \<Rightarrow> nat \<Rightarrow> 'e mem \<Rightarrow> c_fault + (addr \<times> 'e mem)" where
  "appendFresh ma t elementSize tail nextIndex s =
     (let nodeSize = nodeBytes s;
          pageSize = pumaPageSize s
      in case ma (fmdom (nodes s)) nodeSize of
        None \<Rightarrow> Inl OutOfMemory
      | Some retNode \<Rightarrow>
          let elementArraySize = sz_sub nodeSize sizeof_pumaNode
          in if elementArraySize < elementSize then Inl ExitElementTooLarge
             else bindE (createPumaBitmaskForElemArray (sz_add retNode sizeof_pumaNode) elementArraySize
                    MASKFREE elementSize) (\<lambda>(bmask, elementArray, capacity).
               if pageSize = 0 then Inl DivByZero
               else bindE (updList t (\<lambda>l. l\<lparr>tl_tail := retNode\<rparr>) (putNode retNode
                  (newNode pageSize nodeSize t elementSize tail nextIndex bmask elementArray capacity) s)) (\<lambda>s1.
               bindE (if tail \<noteq> 0 then updNode tail (\<lambda>nd. nd\<lparr>n_next := retNode\<rparr>) s1 else Inr s1) (\<lambda>s2.
               bindE (updList t (\<lambda>l. if tl_head l = 0 then l\<lparr>tl_head := retNode\<rparr> else l) s2) (\<lambda>s3.
               Inr (retNode, s3))))))"

definition appendPumaNode :: "memalign \<Rightarrow> addr \<Rightarrow> nat \<Rightarrow> 'e mem \<Rightarrow> c_fault + (addr \<times> 'e mem)" where
  "appendPumaNode ma t elementSize s =
     bindE (derefList s t) (\<lambda>l.
     let tail = tl_tail l in
     bindE (if tail = 0 then appendFresh ma t elementSize tail 0 s
       else bindE (derefNode s tail) (\<lambda>tn.
         let nextIndex = intIndex (sz_add (n_index tn) 1) in
         if \<not> n_active tn then Inr (tail, putNode tail (tn\<lparr>n_active := True\<rparr>) s)
         else if n_next tn \<noteq> 0
         then bindE (updNode (n_next tn) (\<lambda>nx. nx\<lparr>n_active := True, n_index := nextIndex\<rparr>)
                (putList t (l\<lparr>tl_tail := n_next tn\<rparr>) s)) (\<lambda>s1. Inr (n_next tn, s1))
         else appendFresh ma t elementSize tail nextIndex s)) (\<lambda>(retNode, s1).
     bindE (derefNode s1 retNode) (\<lambda>rn.
     bindE (updList t (\<lambda>l. l\<lparr>tl_numNodes := sz_add (n_index rn) 1\<rparr>) s1) (\<lambda>s2.
     Inr (retNode, s2)))))"

lemma intIndex_small:
  assumes "n < 2 ^ 31"
  shows "intIndex n = n"
proof -
  have s: "sint (of_nat n :: 32 word) = int n"
    using assms by (simp add: signed_of_nat signed_take_bit_int_eq_self)
  have "(scast (of_nat n :: 32 word) :: 64 word) = word_of_int (sint (of_nat n :: 32 word))" by simp
  then have "(scast (of_nat n :: 32 word) :: 64 word) = of_nat n" unfolding s by simp
  then show ?thesis using assms by (simp add: intIndex_def unsigned_of_nat take_bit_nat_eq_self)
qed

text \<open>A new node holds at least one element exactly when the element size leaves 160 bytes of the node.\<close>

definition elementFits :: "'e mem \<Rightarrow> nat \<Rightarrow> bool" where
  "elementFits s es \<longleftrightarrow> 0 < es \<and> es + 8 < nodeBytes s - sizeof_pumaNode"

lemma new_node_geom:
  assumes B: "cfg_ok B" and a: "0 < a" "B dvd a" "a + B \<le> 2 ^ 64"
    and es: "0 < es" "es + 8 < B - sizeof_pumaNode"
    and nd: "n_elementSize nd = es" "n_capacity nd = elemCount (B - sizeof_pumaNode) es"
      "n_elementArray nd = a + sizeof_pumaNode + (elemCount (B - sizeof_pumaNode) es + 63) div 64 * 8"
  shows "node_geom B a nd"
proof -
  have "0 < n_capacity nd" using elemCount_pos_iff[OF es(1), of "B - sizeof_pumaNode"] es nd(2) by simp
  moreover have "n_elementArray nd + n_capacity nd * es \<le> a + B"
  proof -
    have "(n_capacity nd + 63) div 64 * 8 + n_capacity nd * es \<le> B - sizeof_pumaNode"
      using elemCount_fits[OF es(1), of "B - sizeof_pumaNode"] nd(2) by (simp add: layoutBytes_def)
    moreover have "sizeof_pumaNode < B" using B by (simp add: cfg_ok_def)
    ultimately show ?thesis unfolding nd(3)[folded nd(2)] by linarith
  qed
  ultimately show ?thesis using a es(1) nd by (simp add: node_geom_def)
qed

lemma appendFresh_ok:
  assumes ma: "memalign_spec ma" "ma (fmdom (nodes s)) (nodeBytes s) = Some a"
    and inv: "tl_inv s t xs []" and l: "tlists s t = Some l" and es: "elementFits s (tl_elementSize l)"
  obtains s' nd where "appendFresh ma t (tl_elementSize l) (lastOr 0 xs) (length xs) s = Inr (a, s')"
    "tlists s' = (tlists s)(t \<mapsto> l\<lparr>tl_tail := a, tl_head := firstOr xs a\<rparr>)"
    "nodeAt s' = (if xs = [] then (nodeAt s)(a \<mapsto> nd)
       else (nodeAt s)(a \<mapsto> nd, last xs \<mapsto> (the (nodeAt s (last xs)))\<lparr>n_next := a\<rparr>))"
    "cells s' = cells s" "framed t (insert a (set xs)) s s'"
    "node_ok (nodeBytes s) t (tl_elementSize l) a nd" "used nd = {}" "n_prev nd = lastOr 0 xs" "n_next nd = 0"
    "n_active nd" "n_index nd = length xs" "n_numElements nd = 0" "a \<notin> set xs" "nodeAt s a = None"
    "n_firstKnownFree nd = 0"
proof -
  let ?B = "nodeBytes s" and ?es = "tl_elementSize l"
  let ?A = "?B - sizeof_pumaNode"
  from inv l have B: "cfg_ok ?B" and ok: "list_ok ?B t l (nodeAt s) xs []" by (auto simp: tl_inv_def)
  note D = list_okD[OF ok]
  from ma have a: "0 < a" "?B dvd a" "a + ?B \<le> 2 ^ 64" "nodeAt s a = None"
    unfolding memalign_spec_def by (auto simp: fmdom_notD)
  from B have Bb: "sizeof_pumaNode < ?B" "?B < 2 ^ 57" by (simp_all add: cfg_ok_def)
  from es have e: "0 < ?es" "?es + 8 < ?A" by (simp_all add: elementFits_def)
  have pg: "pumaPageSize s \<noteq> 0" using cfg_ok_pos[OF B] by (intro notI) (simp add: nodeBytes_def sz_mul_def)
  have sub: "sz_sub ?B sizeof_pumaNode = ?A" using Bb by (intro sz_sub_exact) simp_all
  have addr: "sz_add a sizeof_pumaNode = a + sizeof_pumaNode" using a(3) Bb by (intro sz_add_exact) linarith
  have mf: "MASKFREE = bitVal True" by (rule bitVal_mask_consts)
  obtain bm where bm: "createPumaBitmaskForElemArray (a + sizeof_pumaNode) ?A MASKFREE ?es
      = Inr (bm, a + sizeof_pumaNode + (elemCount ?A ?es + 63) div 64 * 8, elemCount ?A ?es)"
    "bm_wf bm" "bm_numElements bm = elemCount ?A ?es" "\<forall>i<elemCount ?A ?es. maskBit bm i = True"
  proof -
    have "?A < 2 ^ 57" "a + sizeof_pumaNode + ?A \<le> 2 ^ 64" "?es \<le> ?A" using a(3) Bb e by linarith+
    from createPumaBitmaskForElemArray_layout[OF e(1) this(3,1,2), of True, folded mf] show thesis
      by (elim exE conjE) (rule that)
  qed
  define nd where "nd = newNode (pumaPageSize s) ?B t ?es (lastOr 0 xs) (length xs) bm
      (a + sizeof_pumaNode + (elemCount ?A ?es + 63) div 64 * 8) (elemCount ?A ?es)"
  note ndf = nd_def newNode_def
  have u: "used nd = {}" using bm(4) by (auto simp: ndf used_def usedSlots_def)
  have g: "node_geom ?B a nd" by (rule new_node_geom[OF B a(1-3) e]) (simp_all add: ndf)
  have nok: "node_ok ?B t ?es a nd"
    by (rule node_okI[OF g]) (use bm u in \<open>simp_all add: ndf\<close>)
  have nf: "n_prev nd = lastOr 0 xs" "n_next nd = 0" "n_active nd" "n_index nd = length xs" "n_numElements nd = 0"
    "n_firstKnownFree nd = 0" by (simp_all add: ndf)
  let ?s1 = "putList t (l\<lparr>tl_tail := a\<rparr>) (putNode a nd s)"
  have nx: "a \<notin> set xs" using list_ok_node[OF ok, of a] a(4) by auto
  have pre: "appendFresh ma t ?es (lastOr 0 xs) (length xs) s
      = bindE (if lastOr 0 xs \<noteq> 0 then updNode (lastOr 0 xs) (\<lambda>nd. nd\<lparr>n_next := a\<rparr>) ?s1 else Inr ?s1) (\<lambda>s2.
        bindE (updList t (\<lambda>l. if tl_head l = 0 then l\<lparr>tl_head := a\<rparr> else l) s2) (\<lambda>s3. Inr (a, s3)))"
    unfolding nd_def using ma(2) e pg l
    by (simp add: appendFresh_def Let_def sub addr bm(1) mem_simps not_less del: One_nat_def split del: if_split)
  show thesis
  proof (cases xs rule: rev_cases)
    case Nil
    then have hd0: "tl_head l = 0" using D(8) by simp
    let ?s' = "putList t (l\<lparr>tl_tail := a, tl_head := a\<rparr>) ?s1"
    have run: "appendFresh ma t ?es (lastOr 0 xs) (length xs) s = Inr (a, ?s')"
      unfolding pre using Nil hd0 by (simp add: mem_simps)
    show thesis
    proof (rule that[OF run _ _ _ _ nok u nf(1-5) nx a(4) nf(6)])
      show "nodeAt ?s' = (if xs = [] then (nodeAt s)(a \<mapsto> nd)
         else (nodeAt s)(a \<mapsto> nd, last xs \<mapsto> (the (nodeAt s (last xs)))\<lparr>n_next := a\<rparr>))"
        using Nil by (simp only: mem_simps if_True simp_thms)
    qed (use Nil l in \<open>simp_all add: mem_simps\<close>)
  next
    case (snoc vs n)
    then obtain tn where tn: "nodeAt s n = Some tn" using list_ok_node[OF ok, of n] by auto
    have nz: "n \<noteq> 0" "n \<noteq> a" using list_ok_nz[OF ok, of n] snoc nx by auto
    have hd: "tl_head l = firstOr xs a" "tl_head l \<noteq> 0"
    proof -
      have ne: "xs \<noteq> []" using snoc by simp
      have f: "firstOr xs b = hd xs" for b using ne by (simp add: firstOr_def split: list.split)
      show "tl_head l = firstOr xs a" using D(8) f by simp
      show "tl_head l \<noteq> 0" using D(8) f list_ok_nz[OF ok, of "hd xs"] hd_in_set[OF ne] by simp
    qed
    let ?s' = "putList t (l\<lparr>tl_tail := a\<rparr>) (putNode n (tn\<lparr>n_next := a\<rparr>) ?s1)"
    have run: "appendFresh ma t ?es (lastOr 0 xs) (length xs) s = Inr (a, ?s')"
      unfolding pre using snoc hd(2) tn nz by (simp add: mem_simps)
    have lu: "l\<lparr>tl_tail := a, tl_head := firstOr xs a\<rparr> = l\<lparr>tl_tail := a\<rparr>" unfolding hd(1)[symmetric] by simp
    show thesis
    proof (rule that[OF run _ _ _ _ nok u nf(1-5) nx a(4) nf(6)])
      show "tlists ?s' = (tlists s)(t \<mapsto> l\<lparr>tl_tail := a, tl_head := firstOr xs a\<rparr>)"
        unfolding lu by (simp add: mem_simps)
      show "nodeAt ?s' = (if xs = [] then (nodeAt s)(a \<mapsto> nd)
         else (nodeAt s)(a \<mapsto> nd, last xs \<mapsto> (the (nodeAt s (last xs)))\<lparr>n_next := a\<rparr>))"
        using snoc tn by (simp add: mem_simps)
    qed (use snoc l in \<open>simp_all add: mem_simps\<close>)
  qed
qed

text \<open>
  \<open>_appendPumaNode\<close> on a list with the invariant: it fails exactly when a block is needed and
  \<open>posix_memalign\<close> fails; otherwise the list has one more active node, an empty one, which was
  the first inactive node if there was one and is a fresh block otherwise.
\<close>

definition appended :: "addr \<Rightarrow> addr \<Rightarrow> 'e mem \<Rightarrow> 'e mem \<Rightarrow> addr list \<Rightarrow> addr list \<Rightarrow> addr list \<Rightarrow> pumaNode \<Rightarrow> bool" where
  "appended t a s s' xs ys ys' nd \<longleftrightarrow>
     tl_inv s' t (xs @ [a]) ys' \<and> nodeAt s' a = Some nd \<and> used nd = {} \<and> n_numElements nd = 0
   \<and> (ys = a # ys' \<or> ys = [] \<and> ys' = [] \<and> nodeAt s a = None \<and> n_firstKnownFree nd = 0)
   \<and> liveAddrs (nodeAt s') (xs @ [a]) = liveAddrs (nodeAt s) xs \<and> cells s' = cells s
   \<and> (\<forall>m\<in>set xs. n_numElements (the (nodeAt s' m)) = n_numElements (the (nodeAt s m)))
   \<and> framed t (insert a (set xs)) s s'"

lemma activated:
  assumes inv: "tl_inv s t xs (y # ys)" and l: "tlists s t = Some l" and ny: "nodeAt s y = Some ny"
    and l': "tl_head l' = tl_head l" "tl_numElements l' = tl_numElements l" "desc l' = desc l"
      "tl_numNodes l' = Suc (length xs)" "tl_tail l' = y"
  shows "appended t y s (putList t l' (putNode y (ny\<lparr>n_active := True, n_index := length xs\<rparr>) s)) xs (y # ys) ys
     (ny\<lparr>n_active := True, n_index := length xs\<rparr>)"
proof -
  let ?ny = "ny\<lparr>n_active := True, n_index := length xs\<rparr>"
  from inv l have B: "cfg_ok (nodeBytes s)" and ok: "list_ok (nodeBytes s) t l (nodeAt s) xs (y # ys)"
    by (auto simp: tl_inv_def)
  note D = list_okD[OF ok]
  have n0: "n_numElements ny = 0" using D(5)[of y] ny by simp
  have nok: "node_ok (nodeBytes s) t (tl_elementSize l) y ny" using D(3)[of y] ny by simp
  have u: "used ny = {}" using node_ok_empty[OF nok] n0 by simp
  have "tl_elementSize l' = tl_elementSize l" using l'(3) by (simp add: desc_def)
  then have "list_ok (nodeBytes s) t l' ((nodeAt s)(y \<mapsto> ?ny)) (xs @ [y]) ys"
    by (intro list_ok_activate[OF ok ny]) (use l' in simp_all)
  then have inv': "tl_inv (putList t l' (putNode y ?ny s)) t (xs @ [y]) ys"
    using B by (simp add: tl_inv_def mem_simps)
  have yx: "y \<notin> set xs" using D(1) by auto
  have "liveAddrs ((nodeAt s)(y \<mapsto> ?ny)) (xs @ [y]) = liveAddrs (nodeAt s) xs"
  proof -
    have "liveAddrs ((nodeAt s)(y \<mapsto> ?ny)) xs = liveAddrs (nodeAt s) xs"
      by (rule liveAddrs_cong) (use yx in auto)
    then show ?thesis using u by (simp add: liveOf_def)
  qed
  then show ?thesis
    using inv' u n0 l l'(3) yx by (auto simp: appended_def mem_simps)
qed

lemma appendPumaNode_ok:
  assumes ma: "memalign_spec ma" and inv: "tl_inv s t xs ys" and l: "tlists s t = Some l"
    and es: "elementFits s (tl_elementSize l)" and len: "length xs < 2 ^ 31"
  obtains (fail) "ys = []" "ma (fmdom (nodes s)) (nodeBytes s) = None"
      "appendPumaNode ma t (tl_elementSize l) s = Inl OutOfMemory"
    | (added) a s' ys' nd where "appendPumaNode ma t (tl_elementSize l) s = Inr (a, s')"
        "appended t a s s' xs ys ys' nd"
proof -
  from inv l have B: "cfg_ok (nodeBytes s)" and ok: "list_ok (nodeBytes s) t l (nodeAt s) xs ys"
    by (auto simp: tl_inv_def)
  note D = list_okD[OF ok]
  let ?es = "tl_elementSize l"
  have len64: "sz_add (length xs) 1 = Suc (length xs)" using len by (simp add: sz_add_exact)
  show thesis
  proof (cases ys)
    case ys: (Cons y yz)
    obtain ny where ny: "nodeAt s y = Some ny" "\<not> n_active ny"
    proof (rule list_ok_node[OF ok, of y])
      fix ny assume "nodeAt s y = Some ny" "n_active ny = (y \<in> set xs)"
      moreover have "y \<notin> set xs" using D(1) ys by auto
      ultimately show thesis by (intro that[of ny]) auto
    qed (simp add: ys)
    have y0: "y \<noteq> 0" using list_ok_nz[OF ok, of y] ys by simp
    let ?ny = "ny\<lparr>n_active := True, n_index := length xs\<rparr>"
    let ?s' = "putList t (l\<lparr>tl_tail := y, tl_numNodes := Suc (length xs)\<rparr>) (putNode y ?ny s)"
    have "appendPumaNode ma t ?es s = Inr (y, ?s')"
    proof (cases xs rule: rev_cases)
      case Nil
      then have "n_index ny = 0" "tl_tail l = y" using D(7,9) ys ny by simp_all
      moreover have "ny\<lparr>n_active := True, n_index := 0\<rparr> = ny\<lparr>n_active := True\<rparr>"
        using calculation(1) by (cases ny) simp
      moreover have "l\<lparr>tl_tail := y, tl_numNodes := Suc 0\<rparr> = l\<lparr>tl_numNodes := Suc 0\<rparr>"
        using calculation(2) by (cases l) simp
      moreover have "appendPumaNode ma t ?es s
          = Inr (y, putList t (l\<lparr>tl_numNodes := Suc 0\<rparr>) (putNode y (ny\<lparr>n_active := True\<rparr>) s))"
        using l ny y0 calculation(1,2) by (simp add: appendPumaNode_def mem_simps sz_add_exact)
      ultimately show ?thesis unfolding Nil list.size by (simp only: One_nat_def)
    next
      case (snoc vs n)
      then have tail: "tl_tail l = n" using D(9) by simp
      obtain tn where tn: "nodeAt s n = Some tn" "n_active tn" using list_ok_node[OF ok, of n] snoc by auto
      have nz: "n \<noteq> 0" "n \<noteq> y" using list_ok_nz[OF ok, of n] D(1) snoc ys by auto
      have nx: "n_next tn = y" using D(2) tn(1) by (simp add: snoc ys)
      have "n_index tn = length vs" using list_ok_index_split[of _ t l "nodeAt s" vs n "[]" ys] ok snoc tn(1) by simp
      then have "intIndex (sz_add (n_index tn) 1) = length xs"
        using len snoc by (simp add: sz_add_exact intIndex_small)
      then show ?thesis
        using l ny y0 tail tn nz nx len64
        by (simp add: appendPumaNode_def mem_simps Let_def) (simp add: putList_def putNode_def)
    qed
    moreover have "appended t y s ?s' xs (y # yz) yz ?ny"
      by (rule activated[OF inv[unfolded ys] l ny(1)]) simp_all
    ultimately show thesis using added ys by simp
  next
    case ys: Nil
    let ?tail = "lastOr 0 xs"
    have red: "appendPumaNode ma t ?es s = bindE (appendFresh ma t ?es ?tail (length xs) s) (\<lambda>(retNode, s1).
       bindE (derefNode s1 retNode) (\<lambda>rn.
       bindE (updList t (\<lambda>l. l\<lparr>tl_numNodes := sz_add (n_index rn) 1\<rparr>) s1) (\<lambda>s2. Inr (retNode, s2))))"
    proof (cases xs rule: rev_cases)
      case Nil
      then have "tl_tail l = 0" using D(9) ys by simp
      then show ?thesis using l Nil by (simp add: appendPumaNode_def mem_simps)
    next
      case (snoc vs n)
      then have tail: "tl_tail l = n" using D(9) by simp
      obtain tn where tn: "nodeAt s n = Some tn" "n_active tn" using list_ok_node[OF ok, of n] snoc by auto
      have nz: "n \<noteq> 0" using list_ok_nz[OF ok, of n] snoc by auto
      have nx: "n_next tn = 0" using D(2) tn(1) by (simp add: snoc ys)
      have "n_index tn = length vs" using list_ok_index_split[of _ t l "nodeAt s" vs n "[]" ys] ok snoc tn(1) by simp
      then have "intIndex (sz_add (n_index tn) 1) = length xs"
        using len snoc by (simp add: sz_add_exact intIndex_small)
      then show ?thesis
        using l tail tn nz nx snoc by (simp add: appendPumaNode_def mem_simps Let_def)
    qed
    show thesis
    proof (cases "ma (fmdom (nodes s)) (nodeBytes s)")
      case None
      then show thesis using red ys by (intro fail) (simp_all add: appendFresh_def)
    next
      case (Some a)
      obtain s1 nd where f: "appendFresh ma t ?es ?tail (length xs) s = Inr (a, s1)"
        "tlists s1 = (tlists s)(t \<mapsto> l\<lparr>tl_tail := a, tl_head := firstOr xs a\<rparr>)"
        "nodeAt s1 = (if xs = [] then (nodeAt s)(a \<mapsto> nd)
           else (nodeAt s)(a \<mapsto> nd, last xs \<mapsto> (the (nodeAt s (last xs)))\<lparr>n_next := a\<rparr>))"
        "cells s1 = cells s" "framed t (insert a (set xs)) s s1"
        "node_ok (nodeBytes s) t ?es a nd" "used nd = {}" "n_prev nd = lastOr 0 xs" "n_next nd = 0"
        "n_active nd" "n_index nd = length xs" "n_numElements nd = 0" "a \<notin> set xs" "nodeAt s a = None"
        "n_firstKnownFree nd = 0"
        by (rule appendFresh_ok[OF ma(1) Some inv[unfolded ys] l es])
      have at: "nodeAt s1 a = Some nd" using f(3,13) by (cases xs rule: rev_cases) (auto split: if_splits)
      let ?l' = "l\<lparr>tl_tail := a, tl_head := firstOr xs a, tl_numNodes := Suc (length xs)\<rparr>"
      let ?s' = "putList t ?l' s1"
      have run: "appendPumaNode ma t ?es s = Inr (a, ?s')"
        unfolding red f(1) using f(2,11) at len64 by (simp add: mem_simps)
      have atl: "nodeAt s1 m = (if m = last xs then Some ((the (nodeAt s m))\<lparr>n_next := a\<rparr>) else nodeAt s m)"
        if "m \<in> set xs" for m
      proof -
        have "m \<noteq> a" "xs \<noteq> []" using that f(13) by auto
        then show ?thesis unfolding f(3) by simp
      qed
      have same: "n_numElements (the (nodeAt s1 m)) = n_numElements (the (nodeAt s m))
          \<and> liveOf (the (nodeAt s1 m)) = liveOf (the (nodeAt s m))" if "m \<in> set xs" for m
        unfolding atl[OF that] by simp
      have lok: "list_ok (nodeBytes s) t ?l' (nodeAt s1) (xs @ [a]) []"
      proof (rule list_ok_append[OF ok[unfolded ys] f(13)])
        show "node_ok (nodeBytes s) t ?es a nd" by (rule f(6))
        show "nodeAt s1 a = Some nd" by (rule at)
        show "nodeAt s1 m = nodeAt s m" if "m \<in> set xs" "m \<noteq> last xs" for m
          using atl that by simp
        show "nodeAt s1 (last xs) = Some ((the (nodeAt s (last xs)))\<lparr>n_next := a\<rparr>)" if "xs \<noteq> []"
          using atl last_in_set[OF that] by simp
      qed (use f(8-12) in simp_all)
      have fr: "framed t (insert a (set xs)) s ?s'" using f(2,5) by simp
      have "nodeBytes s1 = nodeBytes s" by (rule framed_nodeBytes[OF f(5)])
      then have inv': "tl_inv ?s' t (xs @ [a]) []" using B lok by (simp add: tl_inv_def mem_simps)
      have "liveAddrs (nodeAt s1) xs = liveAddrs (nodeAt s) xs" by (rule liveAddrs_cong) (use same in simp)
      then have "appended t a s ?s' xs [] [] nd"
        unfolding appended_def using inv' at f(4,7,12,14,15) same fr by (simp add: mem_simps liveOf_def)
      then show thesis using run added ys by simp
    qed
  qed
qed

end
