(* ===== verification/Pumalloc.thy ===== *)
theory Pumalloc
  imports PumaNode
begin

text \<open>
  Allocation and release of elements: \<open>src/pumalloc.c\<close>. An allocation takes the slot
  \<open>firstKnownFree\<close> of the tail, after a compaction when that counter has reached the capacity,
  and appends a node when the tail is full.
\<close>

section \<open>Operations\<close>

text \<open>The second half of \<open>_pumallocOnThreadList\<close>: mark the tail active and take slot \<open>freeIndex\<close>.\<close>

definition claimSlot :: "addr \<Rightarrow> addr \<Rightarrow> nat \<Rightarrow> 'e mem \<Rightarrow> c_fault + (addr \<times> 'e mem)" where
  "claimSlot t tail freeIndex s =
     bindE (derefNode s tail) (\<lambda>nd.
     bindE (updList t (\<lambda>l. l\<lparr>tl_numNodes := sz_add (tl_numNodes l) (c_bool (\<not> n_active nd)), tl_tail := tail\<rparr>) s) (\<lambda>s1.
     let newElement = getElement nd freeIndex
     in bindE (allocElementOnNode tail newElement (putNode tail (nd\<lparr>n_active := True\<rparr>) s1)) (\<lambda>s2.
        Inr (newElement, s2))))"

definition allocOnTail :: "addr \<Rightarrow> addr \<Rightarrow> 'e mem \<Rightarrow> c_fault + (addr \<times> 'e mem)" where
  "allocOnTail t tail s =
     bindE (derefNode s tail) (\<lambda>nd.
     let freeIndex = n_firstKnownFree nd;
         s1 = putNode tail (nd\<lparr>n_firstKnownFree := sz_add (n_firstKnownFree nd) 1\<rparr>) s
     in if n_capacity nd \<le> freeIndex
        then bindE (cleanupNode tail t s1) (\<lambda>s2.
             bindE (derefNode s2 tail) (\<lambda>nd2.
             claimSlot t tail (n_numElements nd2)
               (putNode tail (nd2\<lparr>n_firstKnownFree := sz_add (n_numElements nd2) 1\<rparr>) s2)))
        else claimSlot t tail freeIndex s1)"

definition pumallocOnThreadList :: "memalign \<Rightarrow> addr \<Rightarrow> 'e mem \<Rightarrow> c_fault + (addr \<times> 'e mem)" where
  "pumallocOnThreadList ma t s =
     bindE (derefList s t) (\<lambda>l.
     let tail = tl_tail l
     in bindE (if tail = 0 then appendPumaNode ma t (tl_elementSize l) s
               else bindE (derefNode s tail) (\<lambda>tn.
                 if n_numElements tn = n_capacity tn then appendPumaNode ma t (tl_elementSize l) s
                 else Inr (tail, s))) (\<lambda>(tail, s1).
        allocOnTail t tail s1))"

definition pufree :: "addr \<Rightarrow> 'e mem \<Rightarrow> c_fault + 'e mem" where
  "pufree element s = freeElementOnNode element (getNodeForElement s element) s"

section \<open>What an allocation does\<close>

text \<open>
  The list has one more live element; the others keep their contents (an element may have been
  moved by the compaction), and nothing outside the list changes but the memory of a new block.
\<close>

definition allocated :: "addr \<Rightarrow> addr \<Rightarrow> 'e mem \<Rightarrow> 'e mem \<Rightarrow> addr list \<Rightarrow> addr list \<Rightarrow> addr list \<Rightarrow> addr list \<Rightarrow> bool" where
  "allocated t e s s' xs ys xs' ys' \<longleftrightarrow> tl_inv s' t xs' ys' \<and> e \<in> liveAddrs (nodeAt s') xs'
     \<and> contents (nodeAt s') (cells s') xs' = add_mset (cells s' e) (contents (nodeAt s) (cells s) xs)
     \<and> framed t (set xs \<union> set ys \<union> {a. nodeAt s a = None}) s s'"

text \<open>No element moves: the old elements stay where they are and keep their cells.\<close>

definition inPlace :: "addr \<Rightarrow> 'e mem \<Rightarrow> 'e mem \<Rightarrow> addr list \<Rightarrow> addr list \<Rightarrow> bool" where
  "inPlace e s s' xs xs' \<longleftrightarrow> cells s' = cells s \<and> e \<notin> liveAddrs (nodeAt s) xs
     \<and> liveAddrs (nodeAt s') xs' = insert e (liveAddrs (nodeAt s) xs)"

lemma putNode_putList: "putNode a nd (putList t l s) = putList t l (putNode a nd s)"
  by (simp add: putNode_def putList_def)

lemma putList_same: "tlists s t = Some l \<Longrightarrow> putList t l s = s"
  by (simp add: putList_def fun_upd_idem)

lemma putList_putNode_lookup: "tlists (putNode a nd s) = tlists s"
  by (simp add: mem_simps)

lemma claimSlot_eq:
  assumes "nodeAt s n = Some nd" "tlists s t = Some l"
  shows "claimSlot t n i s = bindE (allocElementOnNode n (getElement nd i) (putNode n (nd\<lparr>n_active := True\<rparr>)
      (putList t (l\<lparr>tl_numNodes := sz_add (tl_numNodes l) (c_bool (\<not> n_active nd)), tl_tail := n\<rparr>) s)))
      (\<lambda>s2. Inr (getElement nd i, s2))"
  using assms by (simp add: claimSlot_def mem_simps Let_def)

lemma claim_active:
  assumes inv: "tl_inv s t xs ys" and xs: "xs = vs @ [n]" and n: "nodeAt s n = Some nd"
    and i: "i < n_capacity nd" "i \<notin> used nd"
    and F: "insert i (used nd) \<subseteq> {..<F}" "F \<le> Suc (n_capacity nd)"
      "\<not> n_dirty nd \<Longrightarrow> i = n_numElements nd \<and> F = Suc i"
  obtains s' where "claimSlot t n i (putNode n (nd\<lparr>n_firstKnownFree := F\<rparr>) s) = Inr (slotAddr nd i, s')"
    "tl_inv s' t xs ys" "inPlace (slotAddr nd i) s s' xs xs" "framed t (set xs \<union> set ys) s s'"
proof -
  from inv obtain l where B: "cfg_ok (nodeBytes s)" and l: "tlists s t = Some l"
    and ok: "list_ok (nodeBytes s) t l (nodeAt s) xs ys" by (rule tl_invE)
  note D = list_okD[OF ok]
  have nx: "n \<in> set xs" using xs by simp
  have act: "n_active nd" using D(4)[OF nx] n by simp
  have nok: "node_ok (nodeBytes s) t (tl_elementSize l) n nd" using D(3)[of n] nx n by simp
  let ?nd = "nd\<lparr>n_firstKnownFree := F\<rparr>"
  obtain s' nd' fm where a: "allocElementOnNode n (slotAddr nd i) (putNode n ?nd s) = Inr s'"
    "tl_inv s' t xs ys" "nodeAt s' = (nodeAt s)(n \<mapsto> nd')"
    "nd' = nd\<lparr>n_firstKnownFree := F, n_freeMask := fm, n_numElements := Suc (n_numElements nd)\<rparr>"
    "used nd' = insert i (used nd)" "cells s' = cells s" "framed t {n} s s'"
    by (rule alloc_step[OF inv nx n i F])
  have le: "l\<lparr>tl_numNodes := sz_add (tl_numNodes l) (c_bool (\<not> n_active ?nd)), tl_tail := n\<rparr> = l"
  proof -
    have "tl_tail l = n" "sz_add (tl_numNodes l) (c_bool (\<not> n_active ?nd)) = tl_numNodes l"
      using D(9,10) xs act list_ok_bounds(1)[OF ok B] by (simp_all add: sz_add_exact)
    then show ?thesis by simp
  qed
  have ne: "?nd\<lparr>n_active := True\<rparr> = ?nd" using act by (cases nd) simp
  have ge: "getElement ?nd i = slotAddr nd i"
    using getElement_slot[of "nodeBytes s" n ?nd i] node_ok_geom[OF nok] i(1) by simp
  have lp: "tlists (putNode n ?nd s) t = Some l" using l by (simp add: mem_simps)
  have np: "nodeAt (putNode n ?nd s) n = Some ?nd" by (simp add: mem_simps)
  have run: "claimSlot t n i (putNode n ?nd s) = Inr (slotAddr nd i, s')"
    unfolding claimSlot_eq[OF np lp] le ne ge putList_same[OF lp] putNode_twice a(1) by simp
  have sl: "slotAddr nd' = slotAddr nd" by (simp add: a(4))
  have live: "liveAddrs (nodeAt s') xs = insert (slotAddr nd i) (liveAddrs (nodeAt s) xs)"
    unfolding a(3) by (rule liveAddrs_take[where N = "nodeAt s" and n = n and nd = nd])
      (use nx n in \<open>simp_all add: liveOf_def sl a(5)\<close>)
  have "inPlace (slotAddr nd i) s s' xs xs"
    unfolding inPlace_def using live a(6) free_slot_not_live[OF ok nx n i] by simp
  then show thesis using that run a(2) framed_mono[OF a(7)] nx by simp
qed

lemma claim_inactive:
  assumes inv: "tl_inv s t vs (n # ys)" and n: "nodeAt s n = Some nd" "n_index nd = length vs"
    and i: "i < n_capacity nd"
    and F: "i < F" "F \<le> Suc (n_capacity nd)" "\<not> n_dirty nd \<Longrightarrow> i = 0 \<and> F = Suc i"
  obtains s' where "claimSlot t n i (putNode n (nd\<lparr>n_firstKnownFree := F\<rparr>) s) = Inr (slotAddr nd i, s')"
    "tl_inv s' t (vs @ [n]) ys" "inPlace (slotAddr nd i) s s' vs (vs @ [n])"
    "framed t (set vs \<union> set (n # ys)) s s'"
proof -
  from inv obtain l where B: "cfg_ok (nodeBytes s)" and l: "tlists s t = Some l"
    and ok: "list_ok (nodeBytes s) t l (nodeAt s) vs (n # ys)" by (rule tl_invE)
  note D = list_okD[OF ok]
  have act: "\<not> n_active nd" and n0: "n_numElements nd = 0" using D(5)[of n] n by simp_all
  have nok: "node_ok (nodeBytes s) t (tl_elementSize l) n nd" using D(3)[of n] n by simp
  have e: "used nd = {}" using node_ok_empty[OF nok] n0 by simp
  let ?nd = "nd\<lparr>n_active := True, n_index := length vs\<rparr>"
  let ?l = "l\<lparr>tl_numNodes := Suc (length vs), tl_tail := n\<rparr>"
  let ?s = "putList t ?l (putNode n ?nd s)"
  have ap: "appended t n s ?s vs (n # ys) ys ?nd"
    by (rule activated[OF inv l n(1)]) simp_all
  have inv': "tl_inv ?s t (vs @ [n]) ys" and live: "liveAddrs (nodeAt ?s) (vs @ [n]) = liveAddrs (nodeAt s) vs"
    and fr: "framed t (insert n (set vs)) s ?s" and cs: "cells ?s = cells s"
    using ap unfolding appended_def by blast+
  have at: "nodeAt ?s n = Some ?nd" by (simp add: mem_simps)
  obtain s' where c: "claimSlot t n i (putNode n (?nd\<lparr>n_firstKnownFree := F\<rparr>) ?s) = Inr (slotAddr ?nd i, s')"
    "tl_inv s' t (vs @ [n]) ys" "inPlace (slotAddr ?nd i) ?s s' (vs @ [n]) (vs @ [n])"
    "framed t (set (vs @ [n]) \<union> set ys) ?s s'"
    by (rule claim_active[OF inv' refl at, of i F]) (use i e F n0 in auto)
  have num: "sz_add (tl_numNodes l) 1 = Suc (length vs)" "sz_add (Suc (length vs)) 0 = Suc (length vs)"
    using D(10) list_ok_bounds(1)[OF ok B] by (simp_all add: sz_add_exact)
  have ndeq: "nd\<lparr>n_firstKnownFree := F, n_active := True\<rparr> = ?nd\<lparr>n_firstKnownFree := F\<rparr>"
    using n(2) by (cases nd) simp
  have "claimSlot t n i (putNode n (nd\<lparr>n_firstKnownFree := F\<rparr>) s)
      = claimSlot t n i (putNode n (?nd\<lparr>n_firstKnownFree := F\<rparr>) ?s)"
  proof -
    let ?f = "nd\<lparr>n_firstKnownFree := F\<rparr>" and ?g = "?nd\<lparr>n_firstKnownFree := F\<rparr>"
    have a: "nodeAt (putNode n ?f s) n = Some ?f" "tlists (putNode n ?f s) t = Some l"
      "nodeAt (putNode n ?g ?s) n = Some ?g" "tlists (putNode n ?g ?s) t = Some ?l"
      using l by (simp_all add: mem_simps)
    have b: "l\<lparr>tl_numNodes := sz_add (tl_numNodes l) (c_bool (\<not> n_active ?f)), tl_tail := n\<rparr> = ?l"
      "?l\<lparr>tl_numNodes := sz_add (tl_numNodes ?l) (c_bool (\<not> n_active ?g)), tl_tail := n\<rparr> = ?l"
      "getElement ?f i = getElement nd i" "getElement ?g i = getElement nd i"
      "?g\<lparr>n_active := True\<rparr> = ?g"
      using act num by (simp_all add: getElement_def)
    show ?thesis
      unfolding claimSlot_eq[OF a(1,2)] claimSlot_eq[OF a(3,4)]
      unfolding b ndeq putNode_putList putNode_twice
      by (simp add: putList_def putNode_def)
  qed
  then have run: "claimSlot t n i (putNode n (nd\<lparr>n_firstKnownFree := F\<rparr>) s) = Inr (slotAddr nd i, s')"
    using c(1) by simp
  have ip: "inPlace (slotAddr nd i) s s' vs (vs @ [n])"
    using c(3) unfolding inPlace_def live cs by simp
  have "framed t (set vs \<union> set (n # ys)) s s'"
    using framed_trans[OF framed_mono[OF fr] framed_mono[OF c(4)], of "set vs \<union> set (n # ys)"] by auto
  with run c(2) ip show thesis by (rule that)
qed

section \<open>Allocation on the tail\<close>

lemma setF_cleanupNode [simp]: "cleanupNode c t (setF c F s) = cleanupNode c t s"
proof (cases "derefNode s c")
  case (Inl e)
  then show ?thesis by (simp add: cleanupNode_def)
next
  case (Inr nd)
  have d: "derefNode (setF c F s) c = Inr (tweakF c F c nd)" using Inr by simp
  show ?thesis
  proof (cases "cleanupLoop (Suc (n_capacity nd)) c t s")
    case (Inl e)
    then show ?thesis using Inr d by (simp add: cleanupNode_def setF_cleanupLoop)
  next
    case l: (Inr s1)
    show ?thesis
    proof (cases "nodeAt s1 c")
      case None
      then show ?thesis using Inr d l
        by (simp add: cleanupNode_def setF_cleanupLoop updNode_def derefNode_def setF_lookup)
    next
      case (Some n1)
      then have "nodeAt (setF c F s1) c = Some (tweakF c F c n1)" by (simp add: setF_lookup)
      then show ?thesis using Inr d l Some
        by (simp add: cleanupNode_def setF_cleanupLoop mem_simps) (simp add: tweakF_def)
    qed
  qed
qed

text \<open>Compacting the tail does not change how many elements it has, unless it is deactivated.\<close>

lemma cleaned_tail_count:
  assumes inv: "tl_inv s t (vs @ [n]) ys" and nd: "nodeAt s n = Some nd"
    and c: "cleaned t n s s' (vs @ [n]) ys (vs @ [n]) ys' nd nd'"
  shows "n_numElements nd' = n_numElements nd"
proof -
  note K = cleanedD[OF c]
  from inv obtain l where ok: "list_ok (nodeBytes s) t l (nodeAt s) (vs @ [n]) ys" by (rule tl_invE)
  from K(2) obtain l' where ok': "list_ok (nodeBytes s') t l' (nodeAt s') (vs @ [n]) ys'" by (rule tl_invE)
  have nv: "n \<notin> set vs" using list_okD(1)[OF ok] by auto
  have "card (liveAddrs (nodeAt s') (vs @ [n])) = card (liveAddrs (nodeAt s) (vs @ [n]))"
    using arg_cong[OF K(9), of size] unfolding size_contents .
  then have "(\<Sum>m\<leftarrow>vs @ [n]. n_numElements (the (nodeAt s' m))) = (\<Sum>m\<leftarrow>vs @ [n]. n_numElements (the (nodeAt s m)))"
    unfolding list_ok_card_live[OF ok] list_ok_card_live[OF ok'] list_okD(11)[OF ok] list_okD(11)[OF ok'] .
  moreover have "map (\<lambda>m. n_numElements (the (nodeAt s' m))) vs = map (\<lambda>m. n_numElements (the (nodeAt s m))) vs"
  proof (rule map_cong[OF refl])
    fix m assume m: "m \<in> set vs"
    have "takeWhile (\<lambda>m. m \<noteq> n) (vs @ [n]) = vs" using nv by (subst takeWhile_append2) auto
    then show "n_numElements (the (nodeAt s' m)) = n_numElements (the (nodeAt s m))"
      using K(11)[of m] m by simp
  qed
  ultimately show ?thesis using nd K(4) by simp
qed

lemma cleaned_allocated:
  assumes c: "cleaned t n s s1 xs ys xs1 ys1 nd nd1"
    and inv: "tl_inv s' t xs' ys'" and ip: "inPlace e s1 s' xs1 xs'"
    and fr: "framed t (set xs1 \<union> set ys1) s1 s'"
  shows "allocated t e s s' xs ys xs' ys'"
proof -
  note K = cleanedD[OF c]
  have "contents (nodeAt s') (cells s') xs' = add_mset (cells s' e) (contents (nodeAt s1) (cells s1) xs1)"
    using ip contents_insert[of "nodeAt s'" xs' e "nodeAt s1" xs1 "cells s'"] by (simp add: inPlace_def)
  then have "contents (nodeAt s') (cells s') xs' = add_mset (cells s' e) (contents (nodeAt s) (cells s) xs)"
    using K(9) by simp
  moreover have "framed t (set xs \<union> set ys \<union> {a. nodeAt s a = None}) s s'"
    by (rule framed_trans[OF framed_mono[OF K(10)] framed_mono[OF fr]]) (use K(3) in auto)
  ultimately show ?thesis using inv ip by (simp add: allocated_def inPlace_def)
qed

lemma inPlace_allocated:
  assumes "tl_inv s' t xs' ys'" "inPlace e s s' xs xs'" "framed t (set xs \<union> set ys \<union> {a. nodeAt s a = None}) s s'"
  shows "allocated t e s s' xs ys xs' ys'"
  using assms contents_insert[of "nodeAt s'" xs' e "nodeAt s" xs "cells s'"]
  by (simp add: allocated_def inPlace_def)

lemma allocOnTail_active:
  assumes inv: "tl_inv s t xs ys" and xs: "xs = vs @ [n]" and n: "nodeAt s n = Some nd"
    and room: "n_numElements nd < n_capacity nd"
    and safe: "n_firstKnownFree nd < n_capacity nd \<or> n_numElements nd \<noteq> 0 \<or> vs = []
      \<or> n_numElements (the (nodeAt s (last vs))) \<noteq> 0"
  obtains e s' ys' where "allocOnTail t n s = Inr (e, s')" "allocated t e s s' xs ys xs ys'"
    "n_firstKnownFree nd < n_capacity nd \<Longrightarrow> inPlace e s s' xs xs"
proof -
  from inv obtain l where B: "cfg_ok (nodeBytes s)"
    and ok: "list_ok (nodeBytes s) t l (nodeAt s) xs ys" by (rule tl_invE)
  note D = list_okD[OF ok]
  have nx: "n \<in> set xs" using xs by simp
  have nok: "node_ok (nodeBytes s) t (tl_elementSize l) n nd" using D(3)[of n] nx n by simp
  note E = node_okD[OF nok]
  have capB: "Suc (n_capacity nd) < 2 ^ 64"
    using node_capacity_less[OF E(1)] B by (simp add: cfg_ok_def)
  let ?f = "n_firstKnownFree nd"
  show thesis
  proof (cases "?f < n_capacity nd")
    case True
    then have sz: "sz_add ?f 1 = Suc ?f" using capB by (simp add: sz_add_exact)
    obtain s' where c: "claimSlot t n ?f (putNode n (nd\<lparr>n_firstKnownFree := Suc ?f\<rparr>) s) = Inr (slotAddr nd ?f, s')"
      "tl_inv s' t xs ys" "inPlace (slotAddr nd ?f) s s' xs xs" "framed t (set xs \<union> set ys) s s'"
      by (rule claim_active[OF inv xs n True, of "Suc ?f"]) (use E(7,10) True in \<open>auto simp: less_Suc_eq\<close>)
    have run: "allocOnTail t n s = Inr (slotAddr nd ?f, s')"
      unfolding allocOnTail_def using n True c(1) sz by (simp add: mem_simps)
    have fr: "framed t (set xs \<union> set ys \<union> {a. nodeAt s a = None}) s s'" by (rule framed_mono[OF c(4)]) auto
    show thesis by (rule that[OF run inPlace_allocated[OF c(2,3) fr] c(3)])
  next
    case False
    have dirty: "n_dirty nd" using E(10) False room by (cases "n_dirty nd") auto
    have mem: "n \<in> set xs \<or> xs = [] \<and> n \<in> set ys" using nx by simp
    obtain s2 xs' ys' nd2 where cl: "cleanupNode n t s = Inr s2" "cleaned t n s s2 xs ys xs' ys' nd nd2"
      by (rule cleanupNode_ok[OF inv mem n dirty])
    note K = cleanedD[OF cl(2)]
    let ?k = "n_numElements nd2"
    have run: "allocOnTail t n s = claimSlot t n ?k (putNode n (nd2\<lparr>n_firstKnownFree := sz_add ?k 1\<rparr>) s2)"
    proof -
      have "putNode n (nd\<lparr>n_firstKnownFree := sz_add ?f 1\<rparr>) s = setF n (sz_add ?f 1) s"
        by (rule setF_putNode[OF n, symmetric])
      then show ?thesis using n False cl(1) K(4) by (simp add: allocOnTail_def mem_simps not_less)
    qed
    obtain ws where ws: "xs = xs' @ ws" using K(1) by blast
    show thesis
    proof (cases "n \<in> set xs'")
      case True
      then have e: "xs' = xs" using ws xs D(1) by (cases ws rule: rev_cases) auto
      have "?k = n_numElements nd"
        by (rule cleaned_tail_count[where vs = vs and n = n]) (use inv n cl(2) e xs in auto)
      then have k: "?k < n_capacity nd2" using room K(8) by simp
      have sz: "sz_add ?k 1 = Suc ?k" using k K(8) capB by (simp add: sz_add_exact)
      obtain s' where c: "claimSlot t n ?k (putNode n (nd2\<lparr>n_firstKnownFree := Suc ?k\<rparr>) s2) = Inr (slotAddr nd2 ?k, s')"
        "tl_inv s' t xs' ys'" "inPlace (slotAddr nd2 ?k) s2 s' xs' xs'" "framed t (set xs' \<union> set ys') s2 s'"
        by (rule claim_active[OF K(2) _ K(4) k, of vs "Suc ?k"])
          (use e xs k in \<open>auto simp: K(6) less_Suc_eq simp del: lessThan_Suc\<close>)
      have "allocated t (slotAddr nd2 ?k) s s' xs ys xs' ys'" by (rule cleaned_allocated[OF cl(2) c(2,3,4)])
      then show thesis using that run c(1) sz e False by simp
    next
      case out: False
      have g: "used nd = {}" "used nd2 = {}" "gaveBack s xs ys xs' ys'" using K(14)[OF out] by auto
      have k: "?k = 0" using g(2) K(6) by auto
      obtain us where us: "ws = us @ [n]" using out ws xs by (cases ws rule: rev_cases) auto
      then have vs: "vs = xs' @ us" using ws xs by simp
      have "us = []"
      proof (rule ccontr)
        assume ne: "us \<noteq> []"
        then have "last vs \<in> set ws" "vs \<noteq> []" using vs us by auto
        moreover have "n_numElements nd = 0" using E(6) g(1) by simp
        ultimately show False using safe False g(3) ws by (auto simp: gaveBack_def)
      qed
      then have e: "xs' = vs" "ys' = n # ys" using vs us ws g(3) by (auto simp: gaveBack_def)
      have idx: "n_index nd2 = length vs"
        using K(13) list_ok_index_split[of _ t l "nodeAt s" vs n "[]" ys] ok xs n by simp
      have cap: "0 < n_capacity nd2" using room K(8) by simp
      obtain s' where c: "claimSlot t n 0 (putNode n (nd2\<lparr>n_firstKnownFree := Suc 0\<rparr>) s2) = Inr (slotAddr nd2 0, s')"
        "tl_inv s' t (vs @ [n]) ys" "inPlace (slotAddr nd2 0) s2 s' vs (vs @ [n])" "framed t (set vs \<union> set (n # ys)) s2 s'"
        by (rule claim_inactive[of s2 t vs n ys nd2 0 "Suc 0"]) (use K(2,4) e idx cap in auto)
      have "allocated t (slotAddr nd2 0) s s' xs ys xs ys"
        unfolding xs by (rule cleaned_allocated[OF cl(2)[unfolded e xs]]) (use c(2-4) in auto)
      then show thesis using that run c(1) k False by (simp add: sz_add_exact)
    qed
  qed
qed

text \<open>The tail of a list without active nodes is its first inactive node.\<close>

lemma allocOnTail_inactive:
  assumes inv: "tl_inv s t [] (n # ys)" and n: "nodeAt s n = Some nd"
  obtains e s' where "allocOnTail t n s = Inr (e, s')" "allocated t e s s' [] (n # ys) [n] ys"
proof -
  from inv obtain l where B: "cfg_ok (nodeBytes s)"
    and ok: "list_ok (nodeBytes s) t l (nodeAt s) [] (n # ys)" by (rule tl_invE)
  note D = list_okD[OF ok]
  have nok: "node_ok (nodeBytes s) t (tl_elementSize l) n nd" using D(3)[of n] n by simp
  note E = node_okD[OF nok]
  have n0: "n_numElements nd = 0" and idx: "n_index nd = length []" using D(5)[of n] D(7) n by simp_all
  have cap: "0 < n_capacity nd" "Suc (n_capacity nd) < 2 ^ 64"
    using node_capacity_less[OF E(1)] E(1) B by (simp_all add: cfg_ok_def node_geom_def)
  let ?f = "n_firstKnownFree nd"
  show thesis
  proof (cases "?f < n_capacity nd")
    case True
    then have sz: "sz_add ?f 1 = Suc ?f" using cap by (simp add: sz_add_exact)
    obtain s' where c: "claimSlot t n ?f (putNode n (nd\<lparr>n_firstKnownFree := Suc ?f\<rparr>) s) = Inr (slotAddr nd ?f, s')"
      "tl_inv s' t ([] @ [n]) ys" "inPlace (slotAddr nd ?f) s s' [] ([] @ [n])" "framed t (set [] \<union> set (n # ys)) s s'"
      by (rule claim_inactive[OF inv n idx True, of "Suc ?f"]) (use E(10) n0 True in auto)
    have run: "allocOnTail t n s = Inr (slotAddr nd ?f, s')"
      unfolding allocOnTail_def using n True c(1) sz by (simp add: mem_simps)
    have fr: "framed t (set [] \<union> set (n # ys) \<union> {a. nodeAt s a = None}) s s'" by (rule framed_mono[OF c(4)]) auto
    have "allocated t (slotAddr nd ?f) s s' [] (n # ys) [n] ys"
      by (rule inPlace_allocated[OF _ _ fr]) (use c(2,3) in simp_all)
    with run show thesis by (rule that)
  next
    case False
    have dirty: "n_dirty nd" using E(10) False n0 cap by (cases "n_dirty nd") auto
    have mem: "n \<in> set [] \<or> [] = [] \<and> n \<in> set (n # ys)" by simp
    obtain s2 xs' ys' nd2 where cl: "cleanupNode n t s = Inr s2" "cleaned t n s s2 [] (n # ys) xs' ys' nd nd2"
      by (rule cleanupNode_ok[OF inv mem n dirty])
    note K = cleanedD[OF cl(2)]
    have e: "xs' = []" using K(1) by simp
    then have g: "used nd2 = {}" "ys' = n # ys" using K(14) by (auto simp: gaveBack_def)
    have k: "n_numElements nd2 = 0" using g(1) K(6) by auto
    have run: "allocOnTail t n s = claimSlot t n 0 (putNode n (nd2\<lparr>n_firstKnownFree := Suc 0\<rparr>) s2)"
    proof -
      have "putNode n (nd\<lparr>n_firstKnownFree := sz_add ?f 1\<rparr>) s = setF n (sz_add ?f 1) s"
        by (rule setF_putNode[OF n, symmetric])
      then show ?thesis using n False cl(1) K(4) k by (simp add: allocOnTail_def mem_simps not_less sz_add_exact)
    qed
    obtain s' where c: "claimSlot t n 0 (putNode n (nd2\<lparr>n_firstKnownFree := Suc 0\<rparr>) s2) = Inr (slotAddr nd2 0, s')"
      "tl_inv s' t ([] @ [n]) ys" "inPlace (slotAddr nd2 0) s2 s' [] ([] @ [n])" "framed t (set [] \<union> set (n # ys)) s2 s'"
      by (rule claim_inactive[of s2 t "[]" n ys nd2 0 "Suc 0"]) (use K(2,4,8,13) e g idx cap in auto)
    have "allocated t (slotAddr nd2 0) s s' [] (n # ys) [n] ys"
      by (rule cleaned_allocated[OF cl(2)[unfolded e g(2)]]) (use c(2-4) in auto)
    then show thesis using that run c(1) by simp
  qed
qed

section \<open>\<open>_pumallocOnThreadList\<close>\<close>

text \<open>
  The tail, empty and due for compaction, must not follow another empty node: the compaction would
  give both back and only the tail be made active again (see \<open>stranded_after_pumalloc\<close> in \<open>Stranded\<close>).
\<close>

definition tailSafe :: "(addr \<Rightarrow> pumaNode option) \<Rightarrow> addr list \<Rightarrow> bool" where
  "tailSafe N xs \<longleftrightarrow> (xs \<noteq> [] \<and> butlast xs \<noteq> [] \<and> n_numElements (the (N (last xs))) = 0
      \<and> n_capacity (the (N (last xs))) \<le> n_firstKnownFree (the (N (last xs)))
      \<longrightarrow> n_numElements (the (N (last (butlast xs)))) \<noteq> 0)"

lemma appended_alloc:
  assumes ap: "appended t a s s1 xs ys ys1 nd" and inv: "tl_inv s t xs ys"
    and full: "xs \<noteq> [] \<Longrightarrow> n_numElements (the (nodeAt s (last xs))) \<noteq> 0"
  obtains e s' ys' where "allocOnTail t a s1 = Inr (e, s')" "allocated t e s s' xs ys (xs @ [a]) ys'"
proof -
  from ap have A: "tl_inv s1 t (xs @ [a]) ys1" "nodeAt s1 a = Some nd" "n_numElements nd = 0"
    "ys = a # ys1 \<or> ys = [] \<and> ys1 = [] \<and> nodeAt s a = None"
    "liveAddrs (nodeAt s1) (xs @ [a]) = liveAddrs (nodeAt s) xs" "cells s1 = cells s"
    "\<forall>m\<in>set xs. n_numElements (the (nodeAt s1 m)) = n_numElements (the (nodeAt s m))"
    "framed t (insert a (set xs)) s s1"
    unfolding appended_def by blast+
  from A(1) obtain l where ok: "list_ok (nodeBytes s1) t l (nodeAt s1) (xs @ [a]) ys1" by (rule tl_invE)
  have "node_ok (nodeBytes s1) t (tl_elementSize l) a nd" using list_okD(3)[OF ok, of a] A(2) by simp
  then have "node_geom (nodeBytes s1) a nd" by (rule node_ok_geom)
  then have cap: "n_numElements nd < n_capacity nd" using A(3) by (simp add: node_geom_def)
  have safe: "n_firstKnownFree nd < n_capacity nd \<or> n_numElements nd \<noteq> 0 \<or> xs = []
      \<or> n_numElements (the (nodeAt s1 (last xs))) \<noteq> 0"
  proof (cases "xs = []")
    case False
    then show ?thesis using full[OF False] A(7) last_in_set[OF False] by simp
  qed simp
  obtain e s' ys' where c: "allocOnTail t a s1 = Inr (e, s')" "allocated t e s1 s' (xs @ [a]) ys1 (xs @ [a]) ys'"
    by (rule allocOnTail_active[OF A(1) refl A(2) cap safe]) blast
  have "set (xs @ [a]) \<union> set ys1 \<union> {b. nodeAt s1 b = None} \<subseteq> set xs \<union> set ys \<union> {b. nodeAt s b = None}"
  proof -
    have "{b. nodeAt s1 b = None} \<subseteq> {b. nodeAt s b = None} \<union> insert a (set xs)"
      using A(8) by (auto simp: framed_def)
    then show ?thesis using A(4) by auto
  qed
  moreover have "insert a (set xs) \<subseteq> set xs \<union> set ys \<union> {b. nodeAt s b = None}" using A(4) by auto
  moreover have "framed t (set (xs @ [a]) \<union> set ys1 \<union> {b. nodeAt s1 b = None}) s1 s'"
    using c(2) unfolding allocated_def by (elim conjE)
  ultimately have "framed t (set xs \<union> set ys \<union> {b. nodeAt s b = None}) s s'"
    using framed_trans[OF framed_mono[OF A(8)] framed_mono] by meson
  moreover have "contents (nodeAt s1) (cells s1) (xs @ [a]) = contents (nodeAt s) (cells s) xs"
    using A(5,6) by (simp add: contents_def)
  ultimately have "allocated t e s s' xs ys (xs @ [a]) ys'" using c(2) by (simp add: allocated_def)
  with c(1) show thesis by (rule that)
qed

theorem pumallocOnThreadList_ok:
  assumes ma: "memalign_spec ma" and inv: "tl_inv s t xs ys" and l: "tlists s t = Some l"
    and es: "elementFits s (tl_elementSize l)" and len: "length xs < 2 ^ 31" and safe: "tailSafe (nodeAt s) xs"
  shows "(\<exists>e s' xs' ys'. pumallocOnThreadList ma t s = Inr (e, s') \<and> allocated t e s s' xs ys xs' ys'
       \<and> length xs' \<le> Suc (length xs))
    \<or> pumallocOnThreadList ma t s = Inl OutOfMemory \<and> ys = [] \<and> ma (fmdom (nodes s)) (nodeBytes s) = None"
proof -
  from inv l have ok: "list_ok (nodeBytes s) t l (nodeAt s) xs ys" by (auto simp: tl_inv_def)
  note D = list_okD[OF ok]
  let ?app = "appendPumaNode ma t (tl_elementSize l) s"
  have grow: ?thesis if run: "pumallocOnThreadList ma t s = bindE ?app (\<lambda>(tail, s1). allocOnTail t tail s1)"
    and full: "xs \<noteq> [] \<Longrightarrow> n_numElements (the (nodeAt s (last xs))) \<noteq> 0"
  proof (rule appendPumaNode_ok[OF ma inv l es len])
    assume "ys = []" "ma (fmdom (nodes s)) (nodeBytes s) = None" "?app = Inl OutOfMemory"
    then show ?thesis using run by simp
  next
    fix a s1 ys1 nd assume ap: "?app = Inr (a, s1)" "appended t a s s1 xs ys ys1 nd"
    obtain e s' ys' where c: "allocOnTail t a s1 = Inr (e, s')" "allocated t e s s' xs ys (xs @ [a]) ys'"
      by (rule appended_alloc[OF ap(2) inv full])
    have "pumallocOnThreadList ma t s = Inr (e, s')" using run ap(1) c(1) by simp
    moreover have "length (xs @ [a]) \<le> Suc (length xs)" by simp
    ultimately show ?thesis using c(2) by blast
  qed
  show ?thesis
  proof (cases xs rule: rev_cases)
    case Nil
    show ?thesis
    proof (cases ys)
      case ys: Nil
      then have "tl_tail l = 0" using D(9) Nil by simp
      then have "pumallocOnThreadList ma t s = bindE ?app (\<lambda>(tail, s1). allocOnTail t tail s1)"
        using l by (simp add: pumallocOnThreadList_def mem_simps)
      then show ?thesis using grow Nil by simp
    next
      case ys: (Cons n yz)
      have n: "tl_tail l = n" "n \<noteq> 0" using D(9) Nil ys list_ok_nz[OF ok, of n] by simp_all
      obtain nd where nd: "nodeAt s n = Some nd" "node_ok (nodeBytes s) t (tl_elementSize l) n nd"
        "n_numElements nd = 0" using list_ok_node[OF ok, of n] ys by auto
      have "n_numElements nd \<noteq> n_capacity nd" using nd(3) node_ok_geom[OF nd(2)] by (simp add: node_geom_def)
      then have run: "pumallocOnThreadList ma t s = allocOnTail t n s"
        using l n nd(1) by (simp add: pumallocOnThreadList_def mem_simps)
      obtain e s' where "allocOnTail t n s = Inr (e, s')" "allocated t e s s' [] (n # yz) [n] yz"
        by (rule allocOnTail_inactive[OF inv[unfolded Nil ys] nd(1)])
      then show ?thesis using run Nil ys
        by (intro disjI1 exI[of _ e] exI[of _ s'] exI[of _ "[n]"] exI[of _ yz]) simp
    qed
  next
    case (snoc vs n)
    have n: "tl_tail l = n" "n \<noteq> 0" using D(9) snoc list_ok_nz[OF ok, of n] by simp_all
    obtain nd where nd: "nodeAt s n = Some nd" "node_ok (nodeBytes s) t (tl_elementSize l) n nd"
      using list_ok_node[OF ok, of n] snoc by auto
    have cap: "0 < n_capacity nd" using node_ok_geom[OF nd(2)] by (simp add: node_geom_def)
    show ?thesis
    proof (cases "n_numElements nd = n_capacity nd")
      case True
      then have "pumallocOnThreadList ma t s = bindE ?app (\<lambda>(tail, s1). allocOnTail t tail s1)"
        using l n nd(1) by (simp add: pumallocOnThreadList_def mem_simps)
      then show ?thesis using grow True cap snoc nd(1) by simp
    next
      case False
      then have room: "n_numElements nd < n_capacity nd"
        using node_ok_count[OF nd(2)] card_used_le[of nd] by simp
      have run: "pumallocOnThreadList ma t s = allocOnTail t n s"
        using l n nd(1) False by (simp add: pumallocOnThreadList_def mem_simps)
      have sf: "n_firstKnownFree nd < n_capacity nd \<or> n_numElements nd \<noteq> 0 \<or> vs = []
        \<or> n_numElements (the (nodeAt s (last vs))) \<noteq> 0"
        using safe nd(1) snoc by (auto simp: tailSafe_def)
      obtain e s' ys' where "allocOnTail t n s = Inr (e, s')" "allocated t e s s' xs ys xs ys'"
        by (rule allocOnTail_active[OF inv snoc nd(1) room sf]) blast
      then show ?thesis using run
        by (intro disjI1 exI[of _ e] exI[of _ s'] exI[of _ xs] exI[of _ ys']) simp
    qed
  qed
qed

section \<open>\<open>pufree\<close>\<close>

definition freed :: "addr \<Rightarrow> addr \<Rightarrow> 'e mem \<Rightarrow> 'e mem \<Rightarrow> addr list \<Rightarrow> addr list \<Rightarrow> addr list \<Rightarrow> bool" where
  "freed t e s s' xs ys ys' \<longleftrightarrow> tl_inv s' t xs ys' \<and> (ys' = ys \<or> ys' = [])
     \<and> liveAddrs (nodeAt s') xs = liveAddrs (nodeAt s) xs - {e} \<and> cells s' = cells s
     \<and> contents (nodeAt s) (cells s) xs = add_mset (cells s e) (contents (nodeAt s') (cells s') xs)
     \<and> framed t (set xs \<union> set ys) s s'"

theorem pufree_ok:
  assumes inv: "tl_inv s t xs ys" and e: "e \<in> liveAddrs (nodeAt s) xs"
  shows "\<exists>s' ys'. pufree e s = Inr s' \<and> freed t e s s' xs ys ys'"
proof -
  from inv obtain l where B: "cfg_ok (nodeBytes s)"
    and ok: "list_ok (nodeBytes s) t l (nodeAt s) xs ys" by (rule tl_invE)
  from e obtain n where n: "n \<in> set xs" "e \<in> liveOf (the (nodeAt s n))" by (auto simp: liveAddrs_def)
  obtain nd where nd: "nodeAt s n = Some nd" "node_ok (nodeBytes s) t (tl_elementSize l) n nd"
    using list_ok_node[OF ok, of n] n(1) by auto
  obtain i where i: "i \<in> used nd" "e = slotAddr nd i" using n(2) nd(1) by (auto simp: liveOf_def)
  have g: "node_geom (nodeBytes s) n nd" by (rule node_ok_geom[OF nd(2)])
  have home: "getNodeForElement s e = n"
    unfolding i(2) by (rule node_of_slot[OF B g used_less[OF i(1)]])
  obtain s' ys' nd' fm where f: "freeElementOnNode (slotAddr nd i) n s = Inr s'" "tl_inv s' t xs ys'"
    "ys' = ys \<or> ys' = []" "\<And>m. m \<in> set xs \<Longrightarrow> m \<noteq> n \<Longrightarrow> nodeAt s' m = nodeAt s m"
    "nodeAt s' n = Some nd'"
    "nd' = nd\<lparr>n_dirty := True, n_freeMask := fm, n_numElements := n_numElements nd - 1\<rparr>
     \<or> nd' = nd\<lparr>n_dirty := True, n_freeMask := fm, n_numElements := n_numElements nd - 1, n_next := 0\<rparr>"
    "used nd' = used nd - {i}" "cells s' = cells s" "framed t (set xs \<union> set ys) s s'"
    by (rule free_step[OF inv n(1) nd(1) i(1)]) blast
  have sl: "slotAddr nd' = slotAddr nd" using f(6) by (elim disjE) simp_all
  have lo: "liveOf nd' = liveOf nd - {e}"
    using f(7) sl i(2) slot_less_iff(3)[OF g] by (auto simp: liveOf_def)
  have live: "liveAddrs (nodeAt s') xs = liveAddrs (nodeAt s) xs - {e}"
    by (rule liveAddrs_release[where N = "nodeAt s" and n = n and nd = nd and nd' = nd'])
      (use ok n nd(1) f(4,5) lo in auto)
  have "freed t e s s' xs ys ys'"
    unfolding freed_def using f(2,3,8,9) live contents_delete[OF live e, of "cells s"] by simp
  then show ?thesis using f(1) home i(2) by (auto simp: pufree_def)
qed

end
