(* ===== verification/Kernel.thy ===== *)
theory Kernel
  imports Pumalloc
begin

unbundle bit_operations_syntax

text \<open>
  Running a kernel over the elements of one thread list: \<open>_runKernelOnNode\<close> and the loop of
  \<open>_runKernelThread\<close> of \<open>src/pumakernel.c\<close>. A kernel reads and writes the content of one element
  and the thread's extra data; the run-time statistics are not modelled.
\<close>

section \<open>Operations\<close>

type_synonym ('e, 'x) kernel = "'e \<Rightarrow> 'x \<Rightarrow> 'e \<times> 'x"

text \<open>
  The loop of \<open>_runKernelOnNode\<close> for a node \<open>nd\<close>: \<open>i - skippedElements\<close> wraps. Skipping a free
  slot increments \<open>skippedElements\<close> and not \<open>i\<close>. The result is the final \<open>i\<close>, the extra data
  and the cells.
\<close>

definition loopRank :: "nat \<Rightarrow> nat \<Rightarrow> 64 word \<Rightarrow> nat" where
  "loopRank orig i skipped =
     (if of_nat i - skipped < of_nat orig then Suc (unat (of_nat i - skipped)) else 0)"

lemma loopRank_skip:
  assumes "of_nat i - skipped < (of_nat orig :: 64 word)"
  shows "loopRank orig i (skipped + 1) < loopRank orig i skipped"
proof (cases "of_nat i - skipped = 0")
  case True
  then have "of_nat i - (skipped + 1) = (- 1 :: 64 word)" by (simp add: algebra_simps)
  then show ?thesis using assms by (simp add: loopRank_def)
next
  case False
  have e: "of_nat i - (skipped + 1) = of_nat i - skipped - (1 :: 64 word)" by simp
  have "unat (of_nat i - (skipped + 1) :: 64 word) < unat (of_nat i - skipped)"
    using False unfolding e by (simp add: unat_minus_one unat_gt_0)
  then show ?thesis using assms by (simp add: loopRank_def)
qed

function kernelLoop :: "('e, 'x) kernel \<Rightarrow> pumaNode \<Rightarrow> nat \<Rightarrow> bool \<Rightarrow> nat \<Rightarrow> 64 word \<Rightarrow> 'x \<Rightarrow> (addr \<Rightarrow> 'e)
    \<Rightarrow> c_fault + (nat \<times> 'x \<times> (addr \<Rightarrow> 'e))" where
  "kernelLoop kern nd originalElements goOn i skippedElements x c =
     (if of_nat i - skippedElements < (of_nat originalElements :: 64 word) \<and> i < n_capacity nd \<and> goOn
      then bindE (pumaBitmaskGet (n_freeMask nd) i) (\<lambda>b.
           if b = MASKFREE
           then kernelLoop kern nd originalElements goOn i (skippedElements + 1) x c
           else let currentElement = getElement nd i;
                    (v, x') = kern (c currentElement) x
                in kernelLoop kern nd originalElements goOn (Suc i) skippedElements x' (c(currentElement := v)))
      else Inr (i, x, c))"
  by pat_completeness auto
termination
proof (relation "measures [\<lambda>(k, nd, orig, goOn, i, sk, x, c). n_capacity nd - i,
    \<lambda>(k, nd, orig, goOn, i, sk, x, c). loopRank orig i sk]", goal_cases)
  case 1
  then show ?case by simp
next
  case 2
  then show ?case using loopRank_skip by simp
next
  case 3
  then show ?case by simp linarith
qed

declare kernelLoop.simps [simp del]

definition runKernelOnNode :: "('e, 'x) kernel \<Rightarrow> addr \<Rightarrow> nat \<Rightarrow> nat \<Rightarrow> 'x \<Rightarrow> 'e mem
    \<Rightarrow> c_fault + (nat \<times> 'x \<times> 'e mem)" where
  "runKernelOnNode kern node elementsDone numElements x s =
     bindE (derefNode s node) (\<lambda>nd.
     bindE (kernelLoop kern nd (n_numElements nd) (elementsDone < numElements) 0 0 x (cells s)) (\<lambda>(i, x', c).
     Inr (sz_add elementsDone i, x', s\<lparr>cells := c\<rparr>)))"

fun kernelNodes :: "nat \<Rightarrow> ('e, 'x) kernel \<Rightarrow> addr \<Rightarrow> addr \<Rightarrow> nat \<Rightarrow> nat \<Rightarrow> 'x \<Rightarrow> 'e mem \<Rightarrow> c_fault + ('x \<times> 'e mem)" where
  "kernelNodes 0 kern t currentNode elementsDone initNumElements x s = Inl OutOfFuel"
| "kernelNodes (Suc fuel) kern t currentNode elementsDone initNumElements x s =
     (if currentNode = 0 then Inr (x, s)
      else bindE (derefNode s currentNode) (\<lambda>nd.
        if \<not> n_active nd \<or> initNumElements \<le> elementsDone then Inr (x, s)
        else bindE (if n_dirty nd then cleanupNode currentNode t s else Inr s) (\<lambda>s1.
             bindE (runKernelOnNode kern currentNode elementsDone initNumElements x s1) (\<lambda>(elementsDone', x', s2).
             bindE (derefNode s2 currentNode) (\<lambda>nd2.
             kernelNodes fuel kern t (n_next nd2) elementsDone' initNumElements x' s2)))))"

declare kernelNodes.simps [simp del]

definition runKernelThread :: "('e, 'x) kernel \<Rightarrow> addr \<Rightarrow> 'x \<Rightarrow> 'e mem \<Rightarrow> c_fault + ('x \<times> 'e mem)" where
  "runKernelThread kern t x s =
     bindE (derefList s t) (\<lambda>l.
     kernelNodes (Suc (fcard (fmdom (nodes s)))) kern t (tl_head l) 0 (tl_numElements l) x s)"

section \<open>The kernel over a sequence of elements\<close>

fun runSeq :: "('e, 'x) kernel \<Rightarrow> addr list \<Rightarrow> 'x \<Rightarrow> (addr \<Rightarrow> 'e) \<Rightarrow> 'x \<times> (addr \<Rightarrow> 'e)" where
  "runSeq k [] x c = (x, c)"
| "runSeq k (a # ads) x c = (let (v, x') = k (c a) x in runSeq k ads x' (c(a := v)))"

fun feed :: "('e, 'x) kernel \<Rightarrow> 'e list \<Rightarrow> 'x \<Rightarrow> 'e list \<times> 'x" where
  "feed k [] x = ([], x)"
| "feed k (e # es) x = (let (v, x1) = k e x; (vs, x2) = feed k es x1 in (v # vs, x2))"

lemma feed_append:
  "feed k es x = (es', x1) \<Longrightarrow> feed k fs x1 = (fs', x2) \<Longrightarrow> feed k (es @ fs) x = (es' @ fs', x2)"
  by (induction es arbitrary: x es') (auto split: prod.splits)

lemma runSeq_feed:
  assumes "distinct ads" "runSeq k ads x c = (x', c')"
  shows "feed k (map c ads) x = (map c' ads, x') \<and> (\<forall>a. a \<notin> set ads \<longrightarrow> c' a = c a)"
  using assms
proof (induction ads arbitrary: x c)
  case Nil
  then show ?case by simp
next
  case (Cons a ads)
  obtain v x1 where v: "k (c a) x = (v, x1)" by fastforce
  have run: "runSeq k ads x1 (c(a := v)) = (x', c')" using Cons.prems(2) v by simp
  have d: "distinct ads" using Cons.prems(1) by simp
  note IH = conjunct1[OF Cons.IH[OF d run]] conjunct2[OF Cons.IH[OF d run]]
  have "map (c(a := v)) ads = map c ads" using Cons.prems(1) by auto
  then have "feed k (map c ads) x1 = (map c' ads, x')" using IH(1) by (simp only:)
  moreover have "c' a = v" using IH(2) Cons.prems(1) by simp
  ultimately show ?case using IH(2) v by auto
qed

section \<open>A compact node is visited completely\<close>

lemma kernelLoop_compact:
  assumes g: "node_geom B a nd" and m: "node_mask_ok nd" and u: "used nd = {..<k}" "k < 2 ^ 64" and i: "i \<le> k"
  shows "kernelLoop kern nd k True i 0 x c
    = (case runSeq kern (map (slotAddr nd) [i..<k]) x c of (x', c') \<Rightarrow> Inr (k, x', c'))"
  using i
proof (induction "k - i" arbitrary: i x c)
  case 0
  then show ?case by (subst kernelLoop.simps) simp
next
  case (Suc d)
  then have lt: "i < k" and d: "d = k - Suc i" by auto
  have iu: "i \<in> used nd" using u(1) lt by simp
  have ic: "i < n_capacity nd" by (rule used_less[OF iu])
  have "pumaBitmaskGet (n_freeMask nd) i = Inr (bitVal (maskBit (n_freeMask nd) i))"
    using m ic by (intro pumaBitmaskGet_bit) (simp_all add: node_mask_ok_def)
  moreover have "\<not> maskBit (n_freeMask nd) i" using iu by (simp add: used_def usedSlots_def)
  ultimately have get: "pumaBitmaskGet (n_freeMask nd) i = Inr (bitVal False)" by simp
  have lt64: "(of_nat i :: 64 word) - 0 < of_nat k"
    using lt u(2) by (simp add: word_less_nat_alt unsigned_of_nat take_bit_nat_eq_self)
  have ge: "getElement nd i = slotAddr nd i" by (rule getElement_slot[OF g ic])
  obtain v x1 where v: "kern (c (slotAddr nd i)) x = (v, x1)" by fastforce
  have up: "[i..<k] = i # [Suc i..<k]" using lt by (rule upt_conv_Cons)
  have ne: "bitVal False \<noteq> MASKFREE" by (simp add: bitVal_mask_consts)
  have "kernelLoop kern nd k True i 0 x c = kernelLoop kern nd k True (Suc i) 0 x1 (c(slotAddr nd i := v))"
    using get lt64 ic ge v ne by (subst kernelLoop.simps) simp
  also have "\<dots> = (case runSeq kern (map (slotAddr nd) [Suc i..<k]) x1 (c(slotAddr nd i := v)) of
      (x', c') \<Rightarrow> Inr (k, x', c'))"
    using Suc.hyps(1)[OF d] lt by simp
  finally show ?case unfolding up using v by simp
qed

lemma runKernelOnNode_compact:
  assumes inv: "tl_inv s t xs ys" and n: "n \<in> set xs" "nodeAt s n = Some nd"
    and u: "used nd = {..<n_numElements nd}" and goOn: "elementsDone < numElements"
  obtains x' c' es es' where
    "runKernelOnNode k n elementsDone numElements x s
       = Inr (sz_add elementsDone (n_numElements nd), x', s\<lparr>cells := c'\<rparr>)"
    "feed k es x = (es', x')" "mset es = contents (nodeAt s) (cells s) [n]" "mset es' = contents (nodeAt s) c' [n]"
    "\<And>a. a - a mod nodeBytes s \<noteq> n \<Longrightarrow> c' a = cells s a"
proof -
  from inv obtain l where B: "cfg_ok (nodeBytes s)"
    and ok: "list_ok (nodeBytes s) t l (nodeAt s) xs ys" by (rule tl_invE)
  have nok: "node_ok (nodeBytes s) t (tl_elementSize l) n nd" using list_okD(3)[OF ok, of n] n by simp
  note g = node_ok_geom[OF nok]
  let ?k = "n_numElements nd"
  let ?L = "map (slotAddr nd) [0..<?k]"
  have kc: "?k \<le> n_capacity nd" using node_ok_count[OF nok] card_used_le by simp
  then have k64: "?k < 2 ^ 64" using node_capacity_less[OF g] B by (simp add: cfg_ok_def)
  obtain x' c' where r: "runSeq k ?L x (cells s) = (x', c')" by fastforce
  have run: "runKernelOnNode k n elementsDone numElements x s = Inr (sz_add elementsDone ?k, x', s\<lparr>cells := c'\<rparr>)"
    unfolding runKernelOnNode_def using n(2) goOn r
      kernelLoop_compact[OF g node_ok_mask[OF nok] u k64, of 0 k x "cells s"]
    by (simp add: mem_simps)
  have "distinct ?L" by (simp add: distinct_map inj_on_def slot_less_iff(3)[OF g])
  from runSeq_feed[OF this r] have f: "feed k (map (cells s) ?L) x = (map c' ?L, x')"
    and fr: "\<forall>a. a \<notin> set ?L \<longrightarrow> c' a = cells s a" by blast+
  have other: "c' a = cells s a" if am: "a - a mod nodeBytes s \<noteq> n" for a
  proof -
    have "a \<notin> set ?L"
    proof
      assume "a \<in> set ?L"
      then obtain j where "a = slotAddr nd j" "j < ?k" by auto
      then show False using slot_block[OF g, of j] kc am by simp
    qed
    then show ?thesis using fr by blast
  qed
  note cc = contents_compact[where N = "nodeAt s" and n = n and nd = nd and k = ?k, OF g n(2) u, symmetric]
  show thesis by (rule that[OF run f cc cc other])
qed

section \<open>The loop over the nodes\<close>

text \<open>
  The loop has visited \<open>us\<close> and stands at the first node of \<open>vs\<close>. It ends with the contents of
  \<open>us\<close> as they were and each element of \<open>vs\<close> given to the kernel exactly once, in some order.
\<close>

definition visited :: "('e, 'x) kernel \<Rightarrow> addr \<Rightarrow> 'e mem \<Rightarrow> 'e mem \<Rightarrow> 'x \<Rightarrow> 'x
    \<Rightarrow> addr list \<Rightarrow> addr list \<Rightarrow> addr list \<Rightarrow> bool" where
  "visited k t s s' x x' us vs ys \<longleftrightarrow> (\<exists>xs' ys' es es'. tl_inv s' t xs' ys' \<and> (\<exists>ws. us @ vs = xs' @ ws)
     \<and> feed k es x = (es', x') \<and> mset es = contents (nodeAt s) (cells s) vs
     \<and> contents (nodeAt s') (cells s') xs' = contents (nodeAt s) (cells s) us + mset es'
     \<and> framed t (set (us @ vs) \<union> set ys) s s')"

lemma prefix_member:
  assumes "us @ n # vs = xs' @ ws" "distinct (us @ n # vs)" "n \<in> set xs'"
  shows "\<exists>vs1. xs' = us @ n # vs1 \<and> vs = vs1 @ ws"
  using assms
proof (induction us arbitrary: xs')
  case Nil
  then show ?case by (cases xs') auto
next
  case (Cons u us)
  then obtain zs where z: "xs' = u # zs" "us @ n # vs = zs @ ws" by (cases xs') auto
  have "n \<noteq> u" "distinct (us @ n # vs)" using Cons.prems(2) by auto
  then show ?case using Cons.IH[OF z(2)] Cons.prems(3) z(1) by simp
qed

text \<open>The compaction of the node that is visited next; a clean node is left as it is.\<close>

lemma clean_step:
  assumes inv: "tl_inv s t (us @ n # vs) ys" and nd: "nodeAt s n = Some nd"
    and left: "(\<Sum>m\<leftarrow>n # vs. n_numElements (the (nodeAt s m))) \<noteq> 0"
  obtains s1 vs1 ws ys1 nd1 where "(if n_dirty nd then cleanupNode n t s else Inr s) = Inr s1"
    "tl_inv s1 t (us @ n # vs1) ys1" "vs = vs1 @ ws" "nodeAt s1 n = Some nd1" "used nd1 = {..<n_numElements nd1}"
    "contents (nodeAt s1) (cells s1) (us @ n # vs1) = contents (nodeAt s) (cells s) (us @ n # vs)"
    "\<And>m. m \<in> set us \<Longrightarrow> nodeAt s1 m = nodeAt s m"
    "\<And>m a. m \<in> set us \<Longrightarrow> a \<in> liveOf (the (nodeAt s m)) \<Longrightarrow> cells s1 a = cells s a"
    "set vs1 \<union> set ys1 \<subseteq> set (us @ n # vs) \<union> set ys" "framed t (set (us @ n # vs) \<union> set ys) s s1"
proof -
  from inv obtain l where ok: "list_ok (nodeBytes s) t l (nodeAt s) (us @ n # vs) ys" by (rule tl_invE)
  have d: "distinct (us @ n # vs)" using list_okD(1)[OF ok] by auto
  have nok: "node_ok (nodeBytes s) t (tl_elementSize l) n nd" using list_okD(3)[OF ok, of n] nd by simp
  show thesis
  proof (cases "n_dirty nd")
    case False
    have "used nd = {..<n_numElements nd}" by (rule node_okD(9)[OF nok False])
    with False inv nd show thesis by (intro that[of s vs ys "[]" nd]) auto
  next
    case True
    have mem: "n \<in> set (us @ n # vs) \<or> us @ n # vs = [] \<and> n \<in> set ys" by simp
    obtain s1 xs' ys' nd1 where cl: "cleanupNode n t s = Inr s1" "cleaned t n s s1 (us @ n # vs) ys xs' ys' nd nd1"
      by (rule cleanupNode_ok[OF inv mem nd True])
    note K = cleanedD[OF cl(2)]
    obtain ws where ws: "us @ n # vs = xs' @ ws" using K(1) by blast
    have "n \<in> set xs'"
    proof (rule ccontr)
      assume out: "n \<notin> set xs'"
      then have "gaveBack s (us @ n # vs) ys xs' ys'" using K(14) by blast
      then have z: "\<forall>m\<in>set ws. n_numElements (the (nodeAt s m)) = 0" unfolding ws by (simp add: gaveBack_def)
      have "set (n # vs) \<subseteq> set ws"
      proof -
        obtain zs where "xs' @ zs = us \<and> ws = zs @ n # vs \<or> xs' = us @ zs \<and> zs @ ws = n # vs"
          using ws[unfolded append_eq_append_conv2] by metis
        then show ?thesis using out by (cases zs) auto
      qed
      then have "map (\<lambda>m. n_numElements (the (nodeAt s m))) (n # vs) = map (\<lambda>m. 0) (n # vs)"
        using z by (intro map_cong) auto
      then show False using left by (simp add: sum_list_triv)
    qed
    then obtain vs1 where vs1: "xs' = us @ n # vs1" "vs = vs1 @ ws" using prefix_member[OF ws d] by blast
    have tw: "takeWhile (\<lambda>m. m \<noteq> n) (us @ n # vs) = us" using d by (subst takeWhile_append2) auto
    have us: "nodeAt s1 m = nodeAt s m" if "m \<in> set us" for m using K(11)[of m] that vs1(1) tw by simp
    have cs: "cells s1 a = cells s a" if "m \<in> set us" "a \<in> liveOf (the (nodeAt s m))" for m a
      using K(12)[of a] list_ok_live_block[OF ok, of m a] that d by auto
    show thesis
      by (rule that[of s1 vs1 ys' ws nd1]) (use True cl(1) K vs1 us cs in auto)
  qed
qed

lemma size_contents_sum:
  "list_ok B t l N xs ys \<Longrightarrow> size (contents N c xs) = (\<Sum>m\<leftarrow>xs. n_numElements (the (N m)))"
  by (simp add: size_contents list_ok_card_live list_okD(11))

lemma contents_node_Cons:
  assumes "list_ok B t l N (us @ n # vs) ys"
  shows "contents N c (n # vs) = contents N c [n] + contents N c vs"
proof -
  have "contents N c ([n] @ vs) = contents N c [n] + contents N c vs"
    by (rule contents_parts[OF assms]) (use list_okD(1)[OF assms] in auto)
  then show ?thesis by simp
qed

lemma contents_node_snoc:
  assumes "list_ok B t l N (us @ n # vs) ys"
  shows "contents N c (us @ [n]) = contents N c us + contents N c [n]"
  by (rule contents_parts[OF assms]) (use list_okD(1)[OF assms] in auto)

lemma visited_none:
  assumes inv: "tl_inv s t (us @ vs) ys" and z: "(\<Sum>m\<leftarrow>vs. n_numElements (the (nodeAt s m))) = 0"
  shows "visited k t s s x x us vs ys"
proof -
  from inv obtain l where ok: "list_ok (nodeBytes s) t l (nodeAt s) (us @ vs) ys" by (rule tl_invE)
  have "contents (nodeAt s) (cells s) vs = {#}"
    by (rule contents_empty[OF ok]) (use z in \<open>auto simp: sum_list_eq_0_iff\<close>)
  moreover have "contents (nodeAt s) (cells s) (us @ vs) = contents (nodeAt s) (cells s) us + contents (nodeAt s) (cells s) vs"
    by (rule contents_append[OF ok])
  ultimately show ?thesis
    unfolding visited_def using inv
    by (intro exI[of _ "us @ vs"] exI[of _ ys] exI[of _ "[]"]) simp
qed

text \<open>One node, and then the rest of the list.\<close>

lemma visited_step:
  assumes inv: "tl_inv s t (us @ n # vs) ys" and inv1: "tl_inv s1 t (us @ n # vs1) ys1" and vs: "vs = vs1 @ ws"
    and cont: "contents (nodeAt s1) (cells s1) (us @ n # vs1) = contents (nodeAt s) (cells s) (us @ n # vs)"
    and us: "\<And>m. m \<in> set us \<Longrightarrow> nodeAt s1 m = nodeAt s m"
      "\<And>m a. m \<in> set us \<Longrightarrow> a \<in> liveOf (the (nodeAt s m)) \<Longrightarrow> cells s1 a = cells s a"
    and sub: "set vs1 \<union> set ys1 \<subseteq> set (us @ n # vs) \<union> set ys" and fr: "framed t (set (us @ n # vs) \<union> set ys) s s1"
    and f1: "feed k es1 x = (es1', x1)" "mset es1 = contents (nodeAt s1) (cells s1) [n]"
      "mset es1' = contents (nodeAt s1) c' [n]"
    and oc: "\<And>a. a - a mod nodeBytes s1 \<noteq> n \<Longrightarrow> c' a = cells s1 a"
    and v: "visited k t (s1\<lparr>cells := c'\<rparr>) s' x1 x' (us @ [n]) vs1 ys1"
  shows "visited k t s s' x x' us (n # vs) ys"
proof -
  from inv obtain l where ok: "list_ok (nodeBytes s) t l (nodeAt s) (us @ n # vs) ys" by (rule tl_invE)
  from inv1 obtain l1 where ok1: "list_ok (nodeBytes s1) t l1 (nodeAt s1) (us @ n # vs1) ys1" by (rule tl_invE)
  have d1: "distinct (us @ n # vs1)" using list_okD(1)[OF ok1] by auto
  have ok1': "list_ok (nodeBytes s1) t l1 (nodeAt s1) ((us @ [n]) @ vs1) ys1" using ok1 by simp
  let ?N = "nodeAt s1"
  have oth: "c' a = cells s1 a" if "m \<in> set (us @ n # vs1)" "m \<noteq> n" "a \<in> liveOf (the (?N m))" for m a
    using oc[of a] list_ok_live_block[OF ok1 that(1,3)] that(2) by simp
  from v obtain xs' ys' es2 es2' ws2 where V: "tl_inv s' t xs' ys'" "(us @ [n]) @ vs1 = xs' @ ws2"
    "feed k es2 x1 = (es2', x')" "mset es2 = contents ?N c' vs1"
    "contents (nodeAt s') (cells s') xs' = contents ?N c' (us @ [n]) + mset es2'"
    "framed t (set ((us @ [n]) @ vs1) \<union> set ys1) (s1\<lparr>cells := c'\<rparr>) s'"
    unfolding visited_def cells_upd_simps by blast
  have cus: "contents ?N (cells s1) us = contents (nodeAt s) (cells s) us"
    by (rule contents_cong) (use us in auto)
  have cus': "contents ?N c' us = contents ?N (cells s1) us"
    by (rule contents_cong) (use oth d1 in auto)
  have cvs: "contents ?N c' vs1 = contents ?N (cells s1) vs1"
    by (rule contents_cong) (use oth d1 in auto)
  have split1: "contents ?N (cells s1) (us @ n # vs1)
      = contents ?N (cells s1) us + contents ?N (cells s1) [n] + contents ?N (cells s1) vs1"
    using contents_append[OF ok1, of "cells s1"] contents_node_Cons[OF ok1, of "cells s1"] by simp
  have "contents (nodeAt s) (cells s) (us @ n # vs) = contents (nodeAt s) (cells s) us + contents (nodeAt s) (cells s) (n # vs)"
    by (rule contents_append[OF ok])
  then have es: "mset (es1 @ es2) = contents (nodeAt s) (cells s) (n # vs)"
    using cont split1 cus cvs f1(2) V(4) by simp
  have "contents ?N c' (us @ [n]) = contents ?N c' us + contents ?N c' [n]"
    by (rule contents_node_snoc[OF ok1])
  then have fin: "contents (nodeAt s') (cells s') xs' = contents (nodeAt s) (cells s) us + mset (es1' @ es2')"
    using V(5) cus cus' f1(3) by simp
  have pre: "us @ n # vs = xs' @ (ws2 @ ws)" using V(2) vs by simp
  have "framed t (set (us @ n # vs) \<union> set ys) s s'"
  proof (rule framed_trans[OF framed_cells[OF fr] framed_mono[OF V(6)]])
    show "c' a = cells s1 a" if "a - a mod nodeBytes s \<notin> set (us @ n # vs) \<union> set ys" for a
      using oc[of a] that framed_nodeBytes[OF fr] by auto
  qed (use sub in auto)
  then show ?thesis
    unfolding visited_def using V(1) pre feed_append[OF f1(1) V(3)] es fin by blast
qed

text \<open>One iteration of the loop over the nodes while elements are left, and what the rest of the loop needs.\<close>

lemma kernel_node:
  assumes inv: "tl_inv s t (us @ n # vs) ys"
    and don: "elementsDone = (\<Sum>m\<leftarrow>us. n_numElements (the (nodeAt s m)))"
    and tot: "initNum = (\<Sum>m\<leftarrow>us @ n # vs. n_numElements (the (nodeAt s m)))" and lt: "elementsDone < initNum"
  obtains nd s1 vs1 ws ys1 nd1 x1 c' es1 es1' where "nodeAt s n = Some nd" "n_active nd" "n \<noteq> 0"
    "(if n_dirty nd then cleanupNode n t s else Inr s) = Inr s1" "nodeAt s1 n = Some nd1"
    "runKernelOnNode k n elementsDone initNum x s1 = Inr (sz_add elementsDone (n_numElements nd1), x1, s1\<lparr>cells := c'\<rparr>)"
    "n_next nd1 = firstOr vs1 (firstOr ys1 0)" "vs = vs1 @ ws"
    "tl_inv (s1\<lparr>cells := c'\<rparr>) t ((us @ [n]) @ vs1) ys1"
    "sz_add elementsDone (n_numElements nd1) = (\<Sum>m\<leftarrow>us @ [n]. n_numElements (the (nodeAt (s1\<lparr>cells := c'\<rparr>) m)))"
    "initNum = (\<Sum>m\<leftarrow>(us @ [n]) @ vs1. n_numElements (the (nodeAt (s1\<lparr>cells := c'\<rparr>) m)))"
    "\<And>s' x'. visited k t (s1\<lparr>cells := c'\<rparr>) s' x1 x' (us @ [n]) vs1 ys1 \<Longrightarrow> visited k t s s' x x' us (n # vs) ys"
proof -
  from inv obtain l where B: "cfg_ok (nodeBytes s)"
    and ok: "list_ok (nodeBytes s) t l (nodeAt s) (us @ n # vs) ys" by (rule tl_invE)
  obtain nd where nd: "nodeAt s n = Some nd" "n_active nd" by (rule list_ok_active[OF ok, of n]) simp_all
  have n0: "n \<noteq> 0" using list_ok_nz[OF ok, of n] by simp
  have left: "(\<Sum>m\<leftarrow>n # vs. n_numElements (the (nodeAt s m))) \<noteq> 0"
  proof -
    have "initNum = elementsDone + (\<Sum>m\<leftarrow>n # vs. n_numElements (the (nodeAt s m)))"
      unfolding tot don by (simp only: map_append sum_list_append)
    then show ?thesis using lt by linarith
  qed
  obtain s1 vs1 ws ys1 nd1 where cl: "(if n_dirty nd then cleanupNode n t s else Inr s) = Inr s1"
    "tl_inv s1 t (us @ n # vs1) ys1" "vs = vs1 @ ws" "nodeAt s1 n = Some nd1" "used nd1 = {..<n_numElements nd1}"
    "contents (nodeAt s1) (cells s1) (us @ n # vs1) = contents (nodeAt s) (cells s) (us @ n # vs)"
    "\<And>m. m \<in> set us \<Longrightarrow> nodeAt s1 m = nodeAt s m"
    "\<And>m a. m \<in> set us \<Longrightarrow> a \<in> liveOf (the (nodeAt s m)) \<Longrightarrow> cells s1 a = cells s a"
    "set vs1 \<union> set ys1 \<subseteq> set (us @ n # vs) \<union> set ys" "framed t (set (us @ n # vs) \<union> set ys) s s1"
    by (rule clean_step[OF inv nd(1) left]) (rule that)
  from cl(2) obtain l1 where ok1: "list_ok (nodeBytes s1) t l1 (nodeAt s1) (us @ n # vs1) ys1" by (rule tl_invE)
  have nin: "n \<in> set (us @ n # vs1)" by simp
  obtain x1 c' es1 es1' where r: "runKernelOnNode k n elementsDone initNum x s1
       = Inr (sz_add elementsDone (n_numElements nd1), x1, s1\<lparr>cells := c'\<rparr>)"
    "feed k es1 x = (es1', x1)" "mset es1 = contents (nodeAt s1) (cells s1) [n]"
    "mset es1' = contents (nodeAt s1) c' [n]"
    "\<And>a. a - a mod nodeBytes s1 \<noteq> n \<Longrightarrow> c' a = cells s1 a"
    by (rule runKernelOnNode_compact[OF cl(2) nin cl(4,5) lt, of k x]) (rule that)
  have nx: "n_next nd1 = firstOr vs1 (firstOr ys1 0)" using list_okD(2)[OF ok1] cl(4) by simp
  have sums: "(\<Sum>m\<leftarrow>us. n_numElements (the (nodeAt s1 m))) = (\<Sum>m\<leftarrow>us. n_numElements (the (nodeAt s m)))"
    by (rule arg_cong[where f = sum_list], rule map_cong) (simp_all add: cl(7))
  have tot1: "initNum = (\<Sum>m\<leftarrow>us @ n # vs1. n_numElements (the (nodeAt s1 m)))"
    using arg_cong[OF cl(6), of size] unfolding size_contents_sum[OF ok1] size_contents_sum[OF ok] tot by (rule sym)
  have dn: "sz_add elementsDone (n_numElements nd1) = (\<Sum>m\<leftarrow>us @ [n]. n_numElements (the (nodeAt (s1\<lparr>cells := c'\<rparr>) m)))"
  proof -
    have "elementsDone + n_numElements nd1 \<le> initNum" using tot1 sums don cl(4) by simp
    moreover have "Suc initNum < 2 ^ 64" using list_ok_bounds(2)[OF ok B] tot by simp
    ultimately show ?thesis using sums don cl(4) by (simp add: sz_add_exact)
  qed
  show thesis
    by (rule that[OF nd n0 cl(1,4) r(1) nx cl(3) _ dn])
      (use cl(2) tot1 visited_step[OF inv cl(2,3,6,7,8) cl(9,10) r(2-5)] in simp_all)
qed

lemma kernelNodes_stop:
  assumes inv: "tl_inv s t (us @ vs) ys" and stop: "vs = [] \<or> initNum \<le> elementsDone"
  shows "kernelNodes (Suc fuel) k t (firstOr vs (firstOr ys 0)) elementsDone initNum x s = Inr (x, s)"
proof -
  from inv obtain l where ok: "list_ok (nodeBytes s) t l (nodeAt s) (us @ vs) ys" by (rule tl_invE)
  show ?thesis
  proof (cases vs)
    case Nil
    show ?thesis
    proof (cases ys)
      case (Cons y yz)
      obtain ny where "nodeAt s y = Some ny" "\<not> n_active ny"
        by (rule list_ok_inactive[OF ok, of y]) (simp_all add: Cons)
      then show ?thesis using Nil Cons by (simp add: kernelNodes.simps(2) mem_simps)
    qed (use Nil in \<open>simp add: kernelNodes.simps(2)\<close>)
  next
    case (Cons n vz)
    obtain nd where "nodeAt s n = Some nd" "n_active nd" by (rule list_ok_active[OF ok, of n]) (simp_all add: Cons)
    then show ?thesis using Cons stop by (simp add: kernelNodes.simps(2) mem_simps)
  qed
qed

lemma kernelNodes_ok:
  "tl_inv s t (us @ vs) ys \<Longrightarrow> length vs < fuel
   \<Longrightarrow> elementsDone = (\<Sum>m\<leftarrow>us. n_numElements (the (nodeAt s m)))
   \<Longrightarrow> initNum = (\<Sum>m\<leftarrow>us @ vs. n_numElements (the (nodeAt s m)))
   \<Longrightarrow> \<exists>x' s'. kernelNodes fuel k t (firstOr vs (firstOr ys 0)) elementsDone initNum x s = Inr (x', s')
        \<and> visited k t s s' x x' us vs ys"
proof (induction fuel arbitrary: s us vs ys elementsDone x)
  case 0
  then show ?case by simp
next
  case (Suc fuel)
  note inv = Suc.prems(1)
  show ?case
  proof (cases "vs = [] \<or> initNum \<le> elementsDone")
    case True
    have "visited k t s s x x us vs ys" by (rule visited_none[OF inv]) (use True Suc.prems(3,4) in auto)
    with kernelNodes_stop[OF inv True] show ?thesis by (intro exI conjI)
  next
    case False
    then obtain n vz where vs: "vs = n # vz" and lt: "elementsDone < initNum" by (cases vs) auto
    obtain nd s1 vs1 ws ys1 nd1 x1 c' where K: "nodeAt s n = Some nd" "n_active nd" "n \<noteq> 0"
      "(if n_dirty nd then cleanupNode n t s else Inr s) = Inr s1" "nodeAt s1 n = Some nd1"
      "runKernelOnNode k n elementsDone initNum x s1 = Inr (sz_add elementsDone (n_numElements nd1), x1, s1\<lparr>cells := c'\<rparr>)"
      "n_next nd1 = firstOr vs1 (firstOr ys1 0)" "vz = vs1 @ ws"
      "tl_inv (s1\<lparr>cells := c'\<rparr>) t ((us @ [n]) @ vs1) ys1"
      "sz_add elementsDone (n_numElements nd1) = (\<Sum>m\<leftarrow>us @ [n]. n_numElements (the (nodeAt (s1\<lparr>cells := c'\<rparr>) m)))"
      "initNum = (\<Sum>m\<leftarrow>(us @ [n]) @ vs1. n_numElements (the (nodeAt (s1\<lparr>cells := c'\<rparr>) m)))"
      "\<And>s' x'. visited k t (s1\<lparr>cells := c'\<rparr>) s' x1 x' (us @ [n]) vs1 ys1 \<Longrightarrow> visited k t s s' x x' us (n # vz) ys"
      by (rule kernel_node[OF inv[unfolded vs] Suc.prems(3,4)[unfolded vs] lt, of k x]) (rule that)
    have run: "kernelNodes (Suc fuel) k t n elementsDone initNum x s
        = kernelNodes fuel k t (firstOr vs1 (firstOr ys1 0)) (sz_add elementsDone (n_numElements nd1)) initNum x1 (s1\<lparr>cells := c'\<rparr>)"
      using K(1-7) lt by (simp add: kernelNodes.simps(2) mem_simps)
    have fl: "length vs1 < fuel" using Suc.prems(2) vs K(8) by simp
    from Suc.IH[OF K(9) fl K(10,11), of x1] show ?thesis using run K(12) vs by auto
  qed
qed

text \<open>
  One run of a kernel over a thread list: it ends without a fault and keeps the invariant, and the
  kernel is applied exactly once to every live element, in some order, the extra data being passed
  from one application to the next.
\<close>

definition kernelDone :: "('e, 'x) kernel \<Rightarrow> addr \<Rightarrow> 'e mem \<Rightarrow> 'e mem \<Rightarrow> 'x \<Rightarrow> 'x \<Rightarrow> addr list \<Rightarrow> addr list
    \<Rightarrow> addr list \<Rightarrow> addr list \<Rightarrow> bool" where
  "kernelDone k t s s' x x' xs ys xs' ys' \<longleftrightarrow> tl_inv s' t xs' ys' \<and> (\<exists>ws. xs = xs' @ ws)
     \<and> (\<exists>es es'. feed k es x = (es', x') \<and> mset es = contents (nodeAt s) (cells s) xs
          \<and> contents (nodeAt s') (cells s') xs' = mset es')
     \<and> framed t (set xs \<union> set ys) s s'"

theorem runKernelThread_ok:
  assumes inv: "tl_inv s t xs ys"
  shows "\<exists>x' s' xs' ys'. runKernelThread k t x s = Inr (x', s') \<and> kernelDone k t s s' x x' xs ys xs' ys'"
proof -
  from inv obtain l where l: "tlists s t = Some l"
    and ok: "list_ok (nodeBytes s) t l (nodeAt s) xs ys" by (rule tl_invE)
  note D = list_okD[OF ok]
  have fl: "length xs < Suc (fcard (fmdom (nodes s)))" using list_ok_length[OF ok] by simp
  have inv0: "tl_inv s t ([] @ xs) ys" using inv by simp
  have tot: "tl_numElements l = (\<Sum>m\<leftarrow>[] @ xs. n_numElements (the (nodeAt s m)))" using D(11) by simp
  have z: "0 = (\<Sum>m\<leftarrow>[]. n_numElements (the (nodeAt s m)))" by simp
  from kernelNodes_ok[OF inv0 fl z tot, of k x] obtain x' s' where
    r: "kernelNodes (Suc (fcard (fmdom (nodes s)))) k t (firstOr xs (firstOr ys 0)) 0 (tl_numElements l) x s = Inr (x', s')"
      "visited k t s s' x x' [] xs ys" by blast
  have "runKernelThread k t x s = Inr (x', s')"
    using l r(1) D(8) by (simp add: runKernelThread_def mem_simps)
  moreover have "\<exists>xs' ys'. kernelDone k t s s' x x' xs ys xs' ys'"
    using r(2) unfolding visited_def kernelDone_def by (auto simp: contents_def)
  ultimately show ?thesis by blast
qed

end
