(* ===== verification/Demo.thy ===== *)
theory Demo
  imports Kernel
begin

unbundle bit_operations_syntax

text \<open>
  Concrete memories on which the properties are instantiated: nodes of two pages of 4096 bytes and
  elements of 4000 bytes, two to a node. \<open>mem0\<close> has one empty thread list; \<open>mem2\<close> has a full
  node, then a node whose first slot was freed.
\<close>

definition listAddr :: addr where "listAddr = 64"
definition nodeA :: addr where "nodeA = 8192"
definition nodeB :: addr where "nodeB = 16384"

definition emptyList :: pumaThreadList where
  "emptyList = \<lparr>tl_head = 0, tl_tail = 0, tl_numElements = 0, tl_numNodes = 0, tl_active = True,
     tl_numaDomain = 0, tl_elementSize = 4000, tl_tid = 0\<rparr>"

definition mem0 :: "nat mem" where
  "mem0 = \<lparr>pumaPageSize = 4096, PUMA_NODEPAGES = 2, nodes = fmempty,
     tlists = (\<lambda>a. if a = listAddr then Some emptyList else None), cells = (\<lambda>a. a)\<rparr>"

text \<open>A node of two slots at \<open>a\<close>; \<open>w\<close> is its mask word, bit 63 for slot 0.\<close>

definition demoNode :: "addr \<Rightarrow> nat \<Rightarrow> addr \<Rightarrow> addr \<Rightarrow> 64 word \<Rightarrow> nat \<Rightarrow> bool \<Rightarrow> pumaNode" where
  "demoNode a idx prv nxt w num dirty =
     \<lparr>n_elementSize = 4000, n_pageUnit = 4096, n_blockSize = 8192, n_numPages = 2,
      n_elementArray = a + 160, n_numElements = num, n_capacity = 2, n_firstKnownFree = 2,
      n_next = nxt, n_prev = prv,
      n_freeMask = \<lparr>buckets = [w], bm_numElements = 2, mallocedBuckets = False\<rparr>,
      n_dirty = dirty, n_active = True, n_index = idx, n_threadList = listAddr\<rparr>"

definition mem2 :: "nat mem" where
  "mem2 = mem0\<lparr>nodes := fmap_of_list
       [(nodeA, demoNode nodeA 0 0 nodeB 0x3FFFFFFFFFFFFFFF 2 False),
        (nodeB, demoNode nodeB 1 nodeA 0 0xBFFFFFFFFFFFFFFF 1 True)],
     tlists := (\<lambda>a. if a = listAddr then Some (emptyList\<lparr>tl_head := nodeA, tl_tail := nodeB,
       tl_numElements := 3, tl_numNodes := 2\<rparr>) else None)\<rparr>"

lemma demo_bytes [simp]: "nodeBytes mem0 = 8192" "nodeBytes mem2 = 8192"
  by (simp_all add: mem0_def mem2_def nodeBytes_def sz_mul_def)

lemma demo_cfg: "cfg_ok 8192"
proof -
  have "(8192 :: nat) = 2 ^ 13" by simp
  then show ?thesis unfolding cfg_ok_def sizeof_pumaNode_def by (intro conjI exI[of _ 13]) simp_all
qed

lemma mem0_inv: "tl_inv mem0 listAddr [] []"
  unfolding tl_inv_def demo_bytes using demo_cfg by (simp add: mem0_def list_ok_def emptyList_def)

lemma demo_used:
  "used (demoNode a idx prv nxt w num dirty) = {i. i < 2 \<and> \<not> bit w (63 - i)}"
  by (auto simp: used_def usedSlots_def demoNode_def maskBit_def)

lemma less_two: "(i :: nat) < 2 \<longleftrightarrow> i = 0 \<or> i = 1"
  by auto

lemma demo_masks:
  "used (demoNode a idx prv nxt 0x3FFFFFFFFFFFFFFF num dirty) = {0, 1}"
  "used (demoNode a idx prv nxt 0xBFFFFFFFFFFFFFFF num dirty) = {1}"
  by (auto simp: demo_used less_two)

lemma demo_geom: "a = 8192 \<or> a = 16384 \<Longrightarrow> node_geom 8192 a (demoNode a idx prv nxt w num dirty)"
  by (auto simp: node_geom_def demoNode_def sizeof_pumaNode_def)

lemma demo_node_ok:
  assumes "a = 8192 \<or> a = 16384"
    and "used (demoNode a idx prv nxt w num dirty) = U" "num = card U" "U \<subseteq> {0, 1}" "dirty \<or> U = {0, 1}"
  shows "node_ok 8192 listAddr 4000 a (demoNode a idx prv nxt w num dirty)"
proof (rule node_okI[OF demo_geom[OF assms(1)]], unfold assms(2))
  show "n_numElements (demoNode a idx prv nxt w num dirty) = card U"
    using assms(3) by (simp add: demoNode_def)
  show "U \<subseteq> {..<n_firstKnownFree (demoNode a idx prv nxt w num dirty)}"
    using assms(4) by (auto simp: demoNode_def)
  assume d: "\<not> n_dirty (demoNode a idx prv nxt w num dirty)"
  then have u: "U = {0, 1}" using assms(5) by (simp add: demoNode_def)
  show "U = {..<n_numElements (demoNode a idx prv nxt w num dirty)}"
    using u assms(3) by (auto simp: demoNode_def less_two)
  show "n_firstKnownFree (demoNode a idx prv nxt w num dirty) = n_numElements (demoNode a idx prv nxt w num dirty)"
    using u assms(3) by (simp add: demoNode_def)
qed (simp_all add: demoNode_def bm_wf_def)

abbreviation demoA :: pumaNode where
  "demoA \<equiv> demoNode 8192 0 0 16384 0x3FFFFFFFFFFFFFFF 2 False"

abbreviation demoB :: pumaNode where
  "demoB \<equiv> demoNode 16384 1 8192 0 0xBFFFFFFFFFFFFFFF 1 True"

lemma mem2_nodes: "nodeAt mem2 8192 = Some demoA" "nodeAt mem2 16384 = Some demoB"
  by (simp_all add: mem2_def nodeA_def nodeB_def fmlookup_of_list)

lemma mem2_inv: "tl_inv mem2 listAddr [8192, 16384] []"
proof -
  let ?l = "emptyList\<lparr>tl_head := nodeA, tl_tail := nodeB, tl_numElements := 3, tl_numNodes := 2\<rparr>"
  have l: "tlists mem2 listAddr = Some ?l" by (simp add: mem2_def)
  have A: "node_ok 8192 listAddr 4000 8192 demoA" by (rule demo_node_ok[where U = "{0, 1}"]) (simp_all add: demo_masks)
  have B: "node_ok 8192 listAddr 4000 16384 demoB" by (rule demo_node_ok[where U = "{1}"]) (simp_all add: demo_masks)
  have f: "n_active demoA" "n_active demoB" "n_index demoA = 0" "n_index demoB = 1"
    "n_prev demoA = 0" "n_next demoA = 16384" "n_prev demoB = 8192" "n_next demoB = 0"
    "n_numElements demoA = 2" "n_numElements demoB = 1"
    by (simp_all add: demoNode_def)
  have "list_ok 8192 listAddr ?l (nodeAt mem2) [8192, 16384] []"
    by (rule list_okI) (use A B f in \<open>auto simp: mem2_nodes emptyList_def nodeA_def nodeB_def\<close>)
  then show ?thesis using l demo_cfg by (simp add: tl_inv_def)
qed

text \<open>A first-fit allocator of aligned blocks: an instance of the parameter for \<open>posix_memalign\<close>.\<close>

definition firstFit :: memalign where
  "firstFit U sz =
     (if sz = 0 then None
      else find (\<lambda>a. a |\<notin>| U \<and> a + sz \<le> 2 ^ 64) (map (\<lambda>k. Suc k * sz) [0..<Suc (fcard U)]))"

lemma firstFit_spec: "memalign_spec firstFit"
  unfolding memalign_spec_def
proof (intro allI impI)
  fix U sz a assume f: "firstFit U sz = Some a"
  then have sz: "0 < sz" by (auto simp: firstFit_def split: if_splits)
  have find_SomeD: "find P ls = Some b \<Longrightarrow> P b" and find_set: "find P ls = Some b \<Longrightarrow> b \<in> set ls" for P ls and b :: nat
    unfolding find_Some_iff by auto
  from f sz have g: "find (\<lambda>a. a |\<notin>| U \<and> a + sz \<le> 2 ^ 64) (map (\<lambda>k. Suc k * sz) [0..<Suc (fcard U)]) = Some a"
    by (simp add: firstFit_def)
  from find_SomeD[OF g] find_set[OF g]
  have "a \<in> set (map (\<lambda>k. Suc k * sz) [0..<Suc (fcard U)])" "a |\<notin>| U" "a + sz \<le> 2 ^ 64" by blast+
  then show "0 < a \<and> sz dvd a \<and> a + sz \<le> 2 ^ 64 \<and> a |\<notin>| U" using sz by (auto simp del: mult_Suc)
qed

lemma demo_slot: "slotAddr (demoNode a idx prv nxt w num dirty) i = a + 160 + i * 4000"
  by (simp add: slotAddr_def demoNode_def)

lemma mem2_live: "liveAddrs (nodeAt mem2) [8192, 16384] = {8352, 12352, 20544}"
  by (auto simp: mem2_nodes liveOf_def demo_masks demo_slot)

end
