(* ===== verification/Balance.thy ===== *)
theory Balance
  imports ThreadList
begin

text \<open>
  Moving nodes between thread lists: \<open>_transferNNodes\<close> of \<open>src/internal/pumabalance.c\<close> and its
  helpers. The last \<open>n\<close> active nodes of one list become the last active nodes of another. The
  migration of their pages to another NUMA domain (\<open>_moveNodeDomains\<close>) does not change what is
  modelled here; its requests to the kernel are in \<open>PagePlacement\<close>.
\<close>

section \<open>Operations\<close>

text \<open>The three loops over the nodes from \<open>start\<close> to \<open>end\<close>; a unit of fuel is one iteration.\<close>

fun indexNodesLoop :: "nat \<Rightarrow> addr \<Rightarrow> addr \<Rightarrow> nat \<Rightarrow> 'e mem \<Rightarrow> c_fault + 'e mem" where
  "indexNodesLoop 0 start endN index s = Inl OutOfFuel"
| "indexNodesLoop (Suc fuel) start endN index s =
     bindE (updNode start (\<lambda>nd. nd\<lparr>n_index := index\<rparr>) s) (\<lambda>s1.
     bindE (derefNode s1 start) (\<lambda>nd.
     if start = endN then Inr s1 else indexNodesLoop fuel (n_next nd) endN (sz_add index 1) s1))"

definition indexNodes :: "nat \<Rightarrow> addr \<Rightarrow> addr \<Rightarrow> 'e mem \<Rightarrow> c_fault + 'e mem" where
  "indexNodes fuel start endN s =
     bindE (derefNode s start) (\<lambda>nd.
     bindE (if n_prev nd = 0 then Inr 0
            else bindE (derefNode s (n_prev nd)) (\<lambda>p. Inr (sz_add (n_index p) 1))) (\<lambda>index.
     indexNodesLoop fuel start endN index s))"

fun moveNodeThreadLists :: "nat \<Rightarrow> addr \<Rightarrow> addr \<Rightarrow> addr \<Rightarrow> 'e mem \<Rightarrow> c_fault + 'e mem" where
  "moveNodeThreadLists 0 start endN t s = Inl OutOfFuel"
| "moveNodeThreadLists (Suc fuel) start endN t s =
     bindE (updNode start (\<lambda>nd. nd\<lparr>n_threadList := t\<rparr>) s) (\<lambda>s1.
     bindE (derefNode s1 start) (\<lambda>nd.
     if start = endN then Inr s1 else moveNodeThreadLists fuel (n_next nd) endN t s1))"

fun updatenumElements :: "nat \<Rightarrow> addr \<Rightarrow> addr \<Rightarrow> addr \<Rightarrow> addr \<Rightarrow> 'e mem \<Rightarrow> c_fault + 'e mem" where
  "updatenumElements 0 start endN src dst s = Inl OutOfFuel"
| "updatenumElements (Suc fuel) start endN src dst s =
     bindE (derefNode s start) (\<lambda>nd.
     bindE (updList src (\<lambda>l. l\<lparr>tl_numElements := sz_sub (tl_numElements l) (n_numElements nd)\<rparr>) s) (\<lambda>s1.
     bindE (updList dst (\<lambda>l. l\<lparr>tl_numElements := sz_add (tl_numElements l) (n_numElements nd)\<rparr>) s1) (\<lambda>s2.
     if start = endN then Inr s2 else updatenumElements fuel (n_next nd) endN src dst s2)))"

text \<open>\<open>_countNodes\<close>: the active nodes from the head on.\<close>

fun countNodesLoop :: "nat \<Rightarrow> addr \<Rightarrow> nat \<Rightarrow> 'e mem \<Rightarrow> c_fault + nat" where
  "countNodesLoop 0 c n s = Inl OutOfFuel"
| "countNodesLoop (Suc fuel) c n s =
     (if c = 0 then Inr n
      else bindE (derefNode s c) (\<lambda>nd.
        if n_active nd then countNodesLoop fuel (n_next nd) (sz_add n 1) s else Inr n))"

definition countNodes :: "addr \<Rightarrow> 'e mem \<Rightarrow> c_fault + nat" where
  "countNodes t s =
     bindE (derefList s t) (\<lambda>l. countNodesLoop (Suc (fcard (fmdom (nodes s)))) (tl_head l) 0 s)"

text \<open>\<open>for(size_t i = 1; i < n; ++i) start = start->prev;\<close>\<close>

fun walkBack :: "nat \<Rightarrow> addr \<Rightarrow> 'e mem \<Rightarrow> c_fault + addr" where
  "walkBack 0 start s = Inr start"
| "walkBack (Suc n) start s = bindE (derefNode s start) (\<lambda>nd. walkBack n (n_prev nd) s)"

text \<open>Splice the nodes \<open>start\<close> .. \<open>endN\<close> behind the active nodes of \<open>dst\<close>.\<close>

definition spliceIn :: "addr \<Rightarrow> addr \<Rightarrow> addr \<Rightarrow> 'e mem \<Rightarrow> c_fault + 'e mem" where
  "spliceIn dst start endN s =
     bindE (derefList s dst) (\<lambda>lt.
     let tail = tl_tail lt
     in bindE (if tail = 0 then Inr False else bindE (derefNode s tail) (\<lambda>tn. Inr (n_active tn))) (\<lambda>tailActive.
     if tailActive
     then bindE (derefNode s tail) (\<lambda>tn.
          bindE (updNode endN (\<lambda>e. e\<lparr>n_next := n_next tn\<rparr>) s) (\<lambda>s1.
          bindE (if n_next tn \<noteq> 0 then updNode (n_next tn) (\<lambda>x. x\<lparr>n_prev := endN\<rparr>) s1 else Inr s1) (\<lambda>s2.
          bindE (updNode tail (\<lambda>t. t\<lparr>n_next := start, n_dirty := True\<rparr>) s2) (\<lambda>s3.
          updNode start (\<lambda>st. st\<lparr>n_prev := tail\<rparr>) s3))))
     else bindE (updList dst (\<lambda>l. l\<lparr>tl_head := start\<rparr>) s) (\<lambda>s1.
          bindE (updNode endN (\<lambda>e. e\<lparr>n_next := tail\<rparr>) s1) (\<lambda>s2.
          bindE (if tail \<noteq> 0
                 then bindE (derefNode s2 endN) (\<lambda>e.
                      updNode tail (\<lambda>t. t\<lparr>n_prev := endN, n_index := sz_add (n_index e) 1\<rparr>) s2)
                 else Inr s2) (\<lambda>s3.
          updNode start (\<lambda>st. st\<lparr>n_prev := 0\<rparr>) s3)))))"

text \<open>Close the gap in \<open>src\<close>, whose tail has been set to the node before \<open>start\<close>.\<close>

definition closeGap :: "addr \<Rightarrow> addr \<Rightarrow> 'e mem \<Rightarrow> c_fault + 'e mem" where
  "closeGap src srcTailNext s =
     bindE (derefList s src) (\<lambda>lf.
     if tl_tail lf = 0
     then bindE (updList src (\<lambda>l. l\<lparr>tl_tail := srcTailNext, tl_head := srcTailNext\<rparr>) s) (\<lambda>s1.
          if srcTailNext \<noteq> 0 then updNode srcTailNext (\<lambda>x. x\<lparr>n_prev := 0, n_index := 0\<rparr>) s1 else Inr s1)
     else bindE (updNode (tl_tail lf) (\<lambda>x. x\<lparr>n_next := srcTailNext\<rparr>) s) (\<lambda>s1.
          if srcTailNext \<noteq> 0 then updNode srcTailNext (\<lambda>x. x\<lparr>n_prev := tl_tail lf\<rparr>) s1 else Inr s1))"

definition transferNNodes :: "nat \<Rightarrow> addr \<Rightarrow> addr \<Rightarrow> 'e mem \<Rightarrow> c_fault + 'e mem" where
  "transferNNodes n src dst s =
     bindE (derefList s src) (\<lambda>lf.
     let endN = tl_tail lf
     in bindE (derefNode s endN) (\<lambda>en.
        bindE (walkBack (n - 1) endN s) (\<lambda>start.
        bindE (derefNode s start) (\<lambda>sn.
        bindE (updList src (\<lambda>l. l\<lparr>tl_tail := n_prev sn\<rparr>) s) (\<lambda>s1.
        bindE (spliceIn dst start endN s1) (\<lambda>s2.
        bindE (updList dst (\<lambda>l. l\<lparr>tl_tail := endN\<rparr>) s2) (\<lambda>s3.
        bindE (closeGap src (n_next en) s3) (\<lambda>s4.
        bindE (indexNodes n start endN s4) (\<lambda>s5.
        bindE (moveNodeThreadLists n start endN dst s5) (\<lambda>s6.
        bindE (updatenumElements n start endN src dst s6) (\<lambda>s7.
        bindE (updList src (\<lambda>l. l\<lparr>tl_numNodes := sz_sub (tl_numNodes l) n\<rparr>) s7) (\<lambda>s8.
        updList dst (\<lambda>l. l\<lparr>tl_numNodes := sz_add (tl_numNodes l) n\<rparr>) s8))))))))))))"

definition size_min :: "nat \<Rightarrow> nat \<Rightarrow> nat" where
  "size_min a b = sz_add (sz_mul (c_bool (a < b)) a) (sz_mul (c_bool (b \<le> a)) b)"

lemma size_min_min: "a < 2 ^ 64 \<Longrightarrow> b < 2 ^ 64 \<Longrightarrow> size_min a b = min a b"
  by (auto simp: size_min_def sz_mul_exact sz_add_exact min_def)

section \<open>Node updates as functions\<close>

text \<open>\<open>updNode\<close> on an allocated node, seen on the whole heap: no other lookup changes.\<close>

definition modNode :: "addr \<Rightarrow> (pumaNode \<Rightarrow> pumaNode) \<Rightarrow> 'e mem \<Rightarrow> 'e mem" where
  "modNode a f s = s\<lparr>nodes := fmmap_keys (\<lambda>k v. if k = a then f v else v) (nodes s)\<rparr>"

lemma updNode_mod:
  assumes "nodeAt s a = Some nd"
  shows "updNode a f s = Inr (modNode a f s)"
proof -
  have "fmupd a (f nd) (nodes s) = fmmap_keys (\<lambda>k v. if k = a then f v else v) (nodes s)"
    by (rule fmap_ext) (use assms in \<open>auto simp: map_option_idI\<close>)
  then show ?thesis using assms by (simp add: updNode_def derefNode_def putNode_def modNode_def)
qed

lemma modNode_lookup: "nodeAt (modNode a f s) b = map_option (\<lambda>v. if b = a then f v else v) (nodeAt s b)"
  by (simp add: modNode_def)

lemma modNode_fields [simp]:
  "tlists (modNode a f s) = tlists s" "cells (modNode a f s) = cells s"
  "pumaPageSize (modNode a f s) = pumaPageSize s" "PUMA_NODEPAGES (modNode a f s) = PUMA_NODEPAGES s"
  by (simp_all add: modNode_def)

lemma modNode_same [simp]: "nodeAt s a = Some nd \<Longrightarrow> nodeAt (modNode a f s) a = Some (f nd)"
  by (simp add: modNode_lookup)

lemma modNode_other [simp]: "b \<noteq> a \<Longrightarrow> nodeAt (modNode a f s) b = nodeAt s b"
  by (simp add: modNode_lookup option.map_ident)

text \<open>States that differ in their nodes only.\<close>

definition sameRest :: "'e mem \<Rightarrow> 'e mem \<Rightarrow> bool" where
  "sameRest s s' \<longleftrightarrow> tlists s' = tlists s \<and> cells s' = cells s
     \<and> pumaPageSize s' = pumaPageSize s \<and> PUMA_NODEPAGES s' = PUMA_NODEPAGES s"

lemma sameRest_simps [simp]:
  "sameRest s s" "sameRest s (modNode a f s') \<longleftrightarrow> sameRest s s'"
  by (simp_all add: sameRest_def)

lemma sameRest_trans: "sameRest s s' \<Longrightarrow> sameRest s' s'' \<Longrightarrow> sameRest s s''"
  by (simp add: sameRest_def)

section \<open>The loops over a linked segment\<close>

lemma links_hd: "links N p ns b \<Longrightarrow> ns \<noteq> [] \<Longrightarrow> \<exists>nd. N (hd ns) = Some nd \<and> n_prev nd = p \<and> n_next nd = firstOr (tl ns) b"
  by (cases ns) auto

lemma walkBack_links:
  "links (nodeAt s) p (m # ns) b \<Longrightarrow> walkBack (length ns) (last (m # ns)) s = Inr m"
proof (induction ns arbitrary: b rule: rev_induct)
  case Nil
  then show ?case by simp
next
  case (snoc n ns)
  then have l: "links (nodeAt s) p (m # ns) n"
    and "\<exists>nd. nodeAt s n = Some nd \<and> n_prev nd = lastOr p (m # ns)" by auto
  then show ?case using snoc.IH[OF l] by (auto simp: mem_simps lastOr_def)
qed

lemma indexNodesLoop_ok:
  "links (nodeAt s) p ns b \<Longrightarrow> ns \<noteq> [] \<Longrightarrow> distinct ns \<Longrightarrow> length ns \<le> fuel \<Longrightarrow> index + length ns < 2 ^ 64
   \<Longrightarrow> \<exists>s'. indexNodesLoop fuel (hd ns) (last ns) index s = Inr s' \<and> sameRest s s'
     \<and> (\<forall>m. m \<notin> set ns \<longrightarrow> nodeAt s' m = nodeAt s m)
     \<and> (\<forall>i<length ns. nodeAt s' (ns ! i) = map_option (\<lambda>nd. nd\<lparr>n_index := index + i\<rparr>) (nodeAt s (ns ! i)))"
proof (induction ns arbitrary: s p fuel index)
  case Nil
  then show ?case by simp
next
  case (Cons n ns)
  obtain fuel' where fuel: "fuel = Suc fuel'" using Cons.prems(4) by (cases fuel) auto
  obtain nd where nd: "nodeAt s n = Some nd" "n_next nd = firstOr ns b" and tail: "links (nodeAt s) n ns b"
    using Cons.prems(1) by auto
  let ?s1 = "modNode n (\<lambda>nd. nd\<lparr>n_index := index\<rparr>) s"
  have at: "nodeAt ?s1 n = Some (nd\<lparr>n_index := index\<rparr>)" using nd(1) by simp
  have nn: "n \<notin> set ns" using Cons.prems(3) by simp
  show ?case
  proof (cases "ns = []")
    case True
    then have "indexNodesLoop fuel n n index s = Inr ?s1"
      using nd at by (simp add: fuel updNode_mod mem_simps)
    then show ?thesis using True nd(1) by (auto simp: modNode_lookup option.map_ident)
  next
    case False
    then have ln: "last ns \<noteq> n" using nn last_in_set by metis
    have "nodeAt ?s1 m = nodeAt s m" if "m \<in> set ns" for m using that nn by (metis modNode_other)
    then have l1: "links (nodeAt ?s1) n ns b" using links_frame[of ns "nodeAt ?s1" "nodeAt s" n b] tail by blast
    have sz: "sz_add index 1 = Suc index" using Cons.prems(5) by (simp add: sz_add_exact)
    have run: "indexNodesLoop fuel n (last ns) index s = indexNodesLoop fuel' (hd ns) (last ns) (Suc index) ?s1"
      using nd at ln False sz by (simp add: fuel updNode_mod mem_simps firstOr_def split: list.split)
    have "distinct ns" "length ns \<le> fuel'" "Suc index + length ns < 2 ^ 64" using Cons.prems fuel by auto
    from Cons.IH[OF l1 False this] obtain s' where s': "indexNodesLoop fuel' (hd ns) (last ns) (Suc index) ?s1 = Inr s'"
      "sameRest ?s1 s'" "\<forall>m. m \<notin> set ns \<longrightarrow> nodeAt s' m = nodeAt ?s1 m"
      "\<forall>i<length ns. nodeAt s' (ns ! i) = map_option (\<lambda>nd. nd\<lparr>n_index := Suc index + i\<rparr>) (nodeAt ?s1 (ns ! i))" by blast
    have "nodeAt s' ((n # ns) ! i) = map_option (\<lambda>nd. nd\<lparr>n_index := index + i\<rparr>) (nodeAt s ((n # ns) ! i))"
      if "i < length (n # ns)" for i
    proof (cases i)
      case 0
      then show ?thesis using s'(3) nn at nd(1) by simp
    next
      case (Suc j)
      then have "ns ! j \<noteq> n" using nn that by (metis length_Cons Suc_less_eq nth_mem)
      then show ?thesis using s'(4) Suc that by simp
    qed
    moreover have "sameRest s s'" using s'(2) by (simp add: sameRest_def)
    moreover have "nodeAt s' m = nodeAt s m" if "m \<notin> set (n # ns)" for m using s'(3) that by simp
    ultimately show ?thesis using run s'(1) False by auto
  qed
qed

lemma moveNodeThreadLists_ok:
  "links (nodeAt s) p ns b \<Longrightarrow> ns \<noteq> [] \<Longrightarrow> distinct ns \<Longrightarrow> length ns \<le> fuel
   \<Longrightarrow> \<exists>s'. moveNodeThreadLists fuel (hd ns) (last ns) t s = Inr s' \<and> sameRest s s'
     \<and> (\<forall>m. nodeAt s' m = (if m \<in> set ns then map_option (\<lambda>nd. nd\<lparr>n_threadList := t\<rparr>) (nodeAt s m) else nodeAt s m))"
proof (induction ns arbitrary: s p fuel)
  case Nil
  then show ?case by simp
next
  case (Cons n ns)
  obtain fuel' where fuel: "fuel = Suc fuel'" using Cons.prems(4) by (cases fuel) auto
  obtain nd where nd: "nodeAt s n = Some nd" "n_next nd = firstOr ns b" and tail: "links (nodeAt s) n ns b"
    using Cons.prems(1) by auto
  let ?s1 = "modNode n (\<lambda>nd. nd\<lparr>n_threadList := t\<rparr>) s"
  have at: "nodeAt ?s1 n = Some (nd\<lparr>n_threadList := t\<rparr>)" using nd(1) by simp
  have nn: "n \<notin> set ns" using Cons.prems(3) by simp
  show ?case
  proof (cases "ns = []")
    case True
    then have "moveNodeThreadLists fuel n n t s = Inr ?s1"
      using nd at by (simp add: fuel updNode_mod mem_simps)
    then show ?thesis using True nd(1) by (auto simp: modNode_lookup option.map_ident)
  next
    case False
    then have ln: "last ns \<noteq> n" using nn last_in_set by metis
    have "nodeAt ?s1 m = nodeAt s m" if "m \<in> set ns" for m using that nn by (metis modNode_other)
    then have l1: "links (nodeAt ?s1) n ns b" using links_frame[of ns "nodeAt ?s1" "nodeAt s" n b] tail by blast
    have run: "moveNodeThreadLists fuel n (last ns) t s = moveNodeThreadLists fuel' (hd ns) (last ns) t ?s1"
      using nd at ln False by (simp add: fuel updNode_mod mem_simps firstOr_def split: list.split)
    have "distinct ns" "length ns \<le> fuel'" using Cons.prems fuel by auto
    from Cons.IH[OF l1 False this] obtain s' where s': "moveNodeThreadLists fuel' (hd ns) (last ns) t ?s1 = Inr s'"
      "sameRest ?s1 s'" "\<forall>m. nodeAt s' m = (if m \<in> set ns then map_option (\<lambda>nd. nd\<lparr>n_threadList := t\<rparr>) (nodeAt ?s1 m) else nodeAt ?s1 m)"
      by blast
    have "nodeAt s' m = (if m \<in> set (n # ns) then map_option (\<lambda>nd. nd\<lparr>n_threadList := t\<rparr>) (nodeAt s m) else nodeAt s m)" for m
      using s'(3) nn at nd(1) by (cases "m = n") simp_all
    moreover have "sameRest s s'" using s'(2) by (simp add: sameRest_def)
    ultimately show ?thesis using run s'(1) False by auto
  qed
qed

lemma updatenumElements_ok:
  "links (nodeAt s) p ns b \<Longrightarrow> ns \<noteq> [] \<Longrightarrow> distinct ns \<Longrightarrow> length ns \<le> fuel \<Longrightarrow> src \<noteq> dst
   \<Longrightarrow> tlists s src = Some lf \<Longrightarrow> tlists s dst = Some lt
   \<Longrightarrow> (\<Sum>m\<leftarrow>ns. n_numElements (the (nodeAt s m))) \<le> tl_numElements lf \<Longrightarrow> tl_numElements lf < 2 ^ 64
   \<Longrightarrow> tl_numElements lt + (\<Sum>m\<leftarrow>ns. n_numElements (the (nodeAt s m))) < 2 ^ 64
   \<Longrightarrow> updatenumElements fuel (hd ns) (last ns) src dst s = Inr (s\<lparr>tlists := (tlists s)
        (src \<mapsto> lf\<lparr>tl_numElements := tl_numElements lf - (\<Sum>m\<leftarrow>ns. n_numElements (the (nodeAt s m)))\<rparr>,
         dst \<mapsto> lt\<lparr>tl_numElements := tl_numElements lt + (\<Sum>m\<leftarrow>ns. n_numElements (the (nodeAt s m)))\<rparr>)\<rparr>)"
proof (induction ns arbitrary: s p fuel lf lt)
  case Nil
  then show ?case by simp
next
  case (Cons n ns)
  obtain fuel' where fuel: "fuel = Suc fuel'" using Cons.prems(4) by (cases fuel) auto
  obtain nd where nd: "nodeAt s n = Some nd" "n_next nd = firstOr ns b" and tail: "links (nodeAt s) n ns b"
    using Cons.prems(1) by auto
  let ?k = "n_numElements nd" and ?S = "\<Sum>m\<leftarrow>ns. n_numElements (the (nodeAt s m))"
  let ?lf = "lf\<lparr>tl_numElements := tl_numElements lf - ?k\<rparr>" and ?lt = "lt\<lparr>tl_numElements := tl_numElements lt + ?k\<rparr>"
  let ?s2 = "putList dst ?lt (putList src ?lf s)"
  have k: "?k + ?S \<le> tl_numElements lf" "tl_numElements lt + (?k + ?S) < 2 ^ 64" using Cons.prems(8,10) nd(1) by simp_all
  then have sz: "sz_sub (tl_numElements lf) ?k = tl_numElements lf - ?k" "sz_add (tl_numElements lt) ?k = tl_numElements lt + ?k"
    using Cons.prems(9) by (simp_all add: sz_sub_exact sz_add_exact)
  have nn: "n \<notin> set ns" using Cons.prems(3) by simp
  have eq: "?s2 = s\<lparr>tlists := (tlists s)(src \<mapsto> ?lf, dst \<mapsto> ?lt)\<rparr>" by (simp add: putList_def)
  show ?case
  proof (cases "ns = []")
    case True
    then show ?thesis
      using nd Cons.prems(5-7) sz by (simp add: fuel mem_simps putList_def fun_upd_def cong: if_cong)
  next
    case False
    then have ln: "last ns \<noteq> n" using nn last_in_set by metis
    have run: "updatenumElements fuel n (last ns) src dst s = updatenumElements fuel' (hd ns) (last ns) src dst ?s2"
      using nd ln False sz Cons.prems(5-7) by (simp add: fuel mem_simps firstOr_def split: list.split)
    have l2: "links (nodeAt ?s2) n ns b" using tail by (simp add: mem_simps)
    have n2: "nodeAt ?s2 = nodeAt s" by (simp add: mem_simps)
    have pr: "distinct ns" "length ns \<le> fuel'" using Cons.prems fuel by auto
    have at: "tlists ?s2 src = Some ?lf" "tlists ?s2 dst = Some ?lt" using Cons.prems(5) by (simp_all add: mem_simps)
    have "updatenumElements fuel' (hd ns) (last ns) src dst ?s2 = Inr (?s2\<lparr>tlists := (tlists ?s2)
        (src \<mapsto> ?lf\<lparr>tl_numElements := tl_numElements ?lf - ?S\<rparr>, dst \<mapsto> ?lt\<lparr>tl_numElements := tl_numElements ?lt + ?S\<rparr>)\<rparr>)"
      by (rule Cons.IH[OF l2 False pr Cons.prems(5) at, unfolded n2]) (use k Cons.prems(9) in simp_all)
    also have "\<dots> = Inr (s\<lparr>tlists := (tlists s)(src \<mapsto> lf\<lparr>tl_numElements := tl_numElements lf - (?k + ?S)\<rparr>,
         dst \<mapsto> lt\<lparr>tl_numElements := tl_numElements lt + (?k + ?S)\<rparr>)\<rparr>)"
      unfolding eq by (simp add: add.assoc fun_eq_iff)
    finally have "updatenumElements fuel (hd (n # ns)) (last (n # ns)) src dst s = Inr (s\<lparr>tlists := (tlists s)
        (src \<mapsto> lf\<lparr>tl_numElements := tl_numElements lf - (?k + ?S)\<rparr>, dst \<mapsto> lt\<lparr>tl_numElements := tl_numElements lt + (?k + ?S)\<rparr>)\<rparr>)"
      unfolding run list.sel last_ConsR[OF False] .
    moreover have "(\<Sum>m\<leftarrow>n # ns. n_numElements (the (nodeAt s m))) = ?k + ?S" using nd(1) by simp
    ultimately show ?thesis by (simp only:)
  qed
qed

section \<open>Splicing\<close>

lemma putList_NODEPAGES [simp]: "PUMA_NODEPAGES (putList t l s) = PUMA_NODEPAGES s"
  by (simp add: putList_def)

lemmas splice_simps = mem_lookup_simps deref_simps upd_simps(2) updNode_mod modNode_lookup

lemma firstOr_hd: "ns \<noteq> [] \<Longrightarrow> firstOr ns b = hd ns"
  by (cases ns) auto

lemma lastOr_last: "ns \<noteq> [] \<Longrightarrow> lastOr p ns = last ns"
  by (simp add: lastOr_def)

lemma spliceIn_ok:
  assumes lt: "tlists s dst = Some lt" "tl_head lt = firstOr (zs @ yst) 0" "tl_tail lt = (if zs = [] then firstOr yst 0 else last zs)"
    and lk: "links (nodeAt s) 0 (zs @ yst) 0" and d: "distinct (zs @ yst)" "0 \<notin> set (zs @ yst)"
    and act: "\<And>m. m \<in> set zs \<Longrightarrow> n_active (the (nodeAt s m))" "\<And>m. m \<in> set yst \<Longrightarrow> \<not> n_active (the (nodeAt s m))"
    and se: "nodeAt s start = Some sn" "nodeAt s endN = Some en" "start \<notin> set (zs @ yst)" "endN \<notin> set (zs @ yst)"
  shows "\<exists>s'. spliceIn dst start endN s = Inr s' \<and> tlists s' = (tlists s)(dst \<mapsto> lt\<lparr>tl_head := firstOr zs start\<rparr>)
    \<and> cells s' = cells s \<and> pumaPageSize s' = pumaPageSize s \<and> PUMA_NODEPAGES s' = PUMA_NODEPAGES s
    \<and> (\<forall>m. nodeAt s' m = map_option (\<lambda>nd. nd\<lparr>
        n_next := if m = endN then firstOr yst 0 else if zs \<noteq> [] \<and> m = last zs then start else n_next nd,
        n_prev := if m = start then lastOr 0 zs else if yst \<noteq> [] \<and> m = hd yst then endN else n_prev nd,
        n_dirty := n_dirty nd \<or> zs \<noteq> [] \<and> m = last zs,
        n_index := if zs = [] \<and> yst \<noteq> [] \<and> m = hd yst then sz_add (n_index en) 1 else n_index nd\<rparr>) (nodeAt s m))"
proof (cases "zs = []")
  case zs: True
  let ?s1 = "putList dst (lt\<lparr>tl_head := start\<rparr>) s"
  let ?s2 = "modNode endN (\<lambda>e. e\<lparr>n_next := firstOr yst 0\<rparr>) ?s1"
  show ?thesis
  proof (cases "yst = []")
    case True
    have "spliceIn dst start endN s = Inr (modNode start (\<lambda>st. st\<lparr>n_prev := 0\<rparr>) ?s2)"
      using lt zs True se by (simp add: spliceIn_def splice_simps)
    then show ?thesis using zs True
      by (auto simp: modNode_lookup mem_simps option.map_comp intro!: map_option_cong)
  next
    case False
    then obtain y ys' where y: "yst = y # ys'" by (cases yst) auto
    then obtain yn where yn: "nodeAt s y = Some yn" using lk by auto
    have ny: "\<not> n_active yn" using act(2)[of y] y yn by simp
    have ne: "y \<noteq> 0" "y \<noteq> endN" "y \<noteq> start" using d(2) se(3,4) y by auto
    let ?s3 = "modNode y (\<lambda>t. t\<lparr>n_prev := endN, n_index := sz_add (n_index en) 1\<rparr>) ?s2"
    have "spliceIn dst start endN s = Inr (modNode start (\<lambda>st. st\<lparr>n_prev := 0\<rparr>) ?s3)"
      using lt zs y yn ny ne se by (simp add: spliceIn_def splice_simps)
    then show ?thesis using zs y ne
      by (auto simp: modNode_lookup mem_simps option.map_comp intro!: map_option_cong)
  qed
next
  case zs: False
  then obtain zs' z where z: "zs = zs' @ [z]" by (cases zs rule: rev_cases) auto
  then obtain zn where zn: "nodeAt s z = Some zn" "n_next zn = firstOr yst 0" using lk by auto
  have az: "n_active zn" using act(1)[of z] z zn by simp
  have ne: "z \<noteq> 0" "z \<noteq> endN" "z \<noteq> start" using d(2) se(3,4) z by auto
  let ?s1 = "modNode endN (\<lambda>e. e\<lparr>n_next := firstOr yst 0\<rparr>) s"
  have tl_id: "(tlists s)(dst \<mapsto> lt\<lparr>tl_head := firstOr zs start\<rparr>) = tlists s"
    using lt zs by (cases zs) (auto simp: fun_eq_iff)
  show ?thesis
  proof (cases "yst = []")
    case True
    have "spliceIn dst start endN s = Inr (modNode start (\<lambda>st. st\<lparr>n_prev := z\<rparr>) (modNode z (\<lambda>t. t\<lparr>n_next := start, n_dirty := True\<rparr>) ?s1))"
      using lt z zn az ne True se by (simp add: spliceIn_def splice_simps)
    then show ?thesis unfolding tl_id using z ne True
      by (auto simp: modNode_lookup mem_simps option.map_comp intro!: map_option_cong)
  next
    case False
    then obtain y ys' where y: "yst = y # ys'" by (cases yst) auto
    then obtain yn where yn: "nodeAt s y = Some yn" using lk by auto
    have ny: "y \<noteq> 0" "y \<noteq> endN" "y \<noteq> start" "y \<noteq> z" using d se(3,4) y z by auto
    have "spliceIn dst start endN s = Inr (modNode start (\<lambda>st. st\<lparr>n_prev := z\<rparr>) (modNode z (\<lambda>t. t\<lparr>n_next := start, n_dirty := True\<rparr>)
        (modNode y (\<lambda>x. x\<lparr>n_prev := endN\<rparr>) ?s1)))"
      using lt z zn az ne yn y ny se by (simp add: spliceIn_def splice_simps)
    then show ?thesis unfolding tl_id using z ne y ny
      by (auto simp: modNode_lookup mem_simps option.map_comp intro!: map_option_cong)
  qed
qed

lemma closeGap_ok:
  assumes lf: "tlists s src = Some lf" "tl_tail lf = lastOr 0 xs" and d: "distinct (xs @ ys)" "0 \<notin> set (xs @ ys)"
    and al: "\<And>m. m \<in> set (xs @ ys) \<Longrightarrow> nodeAt s m \<noteq> None"
  shows "\<exists>s'. closeGap src (firstOr ys 0) s = Inr s' \<and> tlists s' = (tlists s)(src \<mapsto> lf\<lparr>
        tl_head := if xs = [] then firstOr ys 0 else tl_head lf, tl_tail := if xs = [] then firstOr ys 0 else last xs\<rparr>)
    \<and> cells s' = cells s \<and> pumaPageSize s' = pumaPageSize s \<and> PUMA_NODEPAGES s' = PUMA_NODEPAGES s
    \<and> (\<forall>m. nodeAt s' m = map_option (\<lambda>nd. nd\<lparr>
        n_next := if xs \<noteq> [] \<and> m = last xs then firstOr ys 0 else n_next nd,
        n_prev := if ys \<noteq> [] \<and> m = hd ys then lastOr 0 xs else n_prev nd,
        n_index := if xs = [] \<and> ys \<noteq> [] \<and> m = hd ys then 0 else n_index nd\<rparr>) (nodeAt s m))"
proof (cases "xs = []")
  case xs: True
  show ?thesis
  proof (cases ys)
    case Nil
    then have "closeGap src (firstOr ys 0) s = Inr (putList src (lf\<lparr>tl_tail := 0, tl_head := 0\<rparr>) s)"
      using lf xs by (simp add: closeGap_def mem_simps)
    then show ?thesis using xs Nil by (cases lf) (simp add: mem_simps option.map_ident putList_def)
  next
    case (Cons y ys')
    then have y: "nodeAt s y \<noteq> None" "y \<noteq> 0" using al[of y] d by auto
    then have "closeGap src (firstOr ys 0) s = Inr (modNode y (\<lambda>x. x\<lparr>n_prev := 0, n_index := 0\<rparr>) (putList src (lf\<lparr>tl_tail := y, tl_head := y\<rparr>) s))"
      using lf xs Cons by (auto simp: closeGap_def splice_simps)
    then show ?thesis using xs Cons by (auto simp: mem_simps modNode_lookup intro!: map_option_cong)
  qed
next
  case False
  then obtain xs' x where x: "xs = xs' @ [x]" by (cases xs rule: rev_cases) auto
  then obtain xn where xn: "nodeAt s x = Some xn" "x \<noteq> 0" using al[of x] d by auto
  have tl_id: "(tlists s)(src \<mapsto> lf\<lparr>tl_head := tl_head lf, tl_tail := x\<rparr>) = tlists s"
    using lf x by (auto simp: fun_eq_iff)
  show ?thesis
  proof (cases ys)
    case Nil
    then have "closeGap src (firstOr ys 0) s = Inr (modNode x (\<lambda>x. x\<lparr>n_next := 0\<rparr>) s)"
      using lf x xn by (simp add: closeGap_def splice_simps)
    then show ?thesis using x Nil tl_id by (auto simp: modNode_lookup intro!: map_option_cong)
  next
    case (Cons y ys')
    then have y: "nodeAt s y \<noteq> None" "y \<noteq> 0" "y \<noteq> x" using al[of y] d x by auto
    then have "closeGap src (firstOr ys 0) s = Inr (modNode y (\<lambda>n. n\<lparr>n_prev := x\<rparr>) (modNode x (\<lambda>n. n\<lparr>n_next := y\<rparr>) s))"
      using lf x xn Cons by (auto simp: closeGap_def splice_simps)
    then show ?thesis using x Cons y tl_id by (auto simp: modNode_lookup option.map_comp intro!: map_option_cong)
  qed
qed

section \<open>The transfer\<close>

text \<open>
  How the transfer of \<open>xs2\<close> from the list \<open>xs1 @ xs2\<close>, \<open>ysf\<close> to the list \<open>zs\<close>, \<open>yst\<close> of \<open>dst\<close>
  changes the nodes.
\<close>

definition movedNode ::
  "addr \<Rightarrow> addr list \<Rightarrow> addr list \<Rightarrow> addr list \<Rightarrow> addr list \<Rightarrow> addr list \<Rightarrow> addr \<Rightarrow> nat \<Rightarrow> pumaNode \<Rightarrow> pumaNode" where
  "movedNode dst xs1 xs2 ysf zs yst m i nd = nd\<lparr>
        n_next := if xs1 \<noteq> [] \<and> m = last xs1 then firstOr ysf 0 else if m = last xs2 then firstOr yst 0
          else if zs \<noteq> [] \<and> m = last zs then hd xs2 else n_next nd,
        n_prev := if ysf \<noteq> [] \<and> m = hd ysf then lastOr 0 xs1 else if m = hd xs2 then lastOr 0 zs
          else if yst \<noteq> [] \<and> m = hd yst then last xs2 else n_prev nd,
        n_dirty := n_dirty nd \<or> zs \<noteq> [] \<and> m = last zs,
        n_threadList := if m \<in> set xs2 then dst else n_threadList nd,
        n_index := i\<rparr>"

lemma movedNode_sel:
  "n_next (movedNode dst xs1 xs2 ysf zs yst m i nd) = (if xs1 \<noteq> [] \<and> m = last xs1 then firstOr ysf 0
     else if m = last xs2 then firstOr yst 0 else if zs \<noteq> [] \<and> m = last zs then hd xs2 else n_next nd)"
  "n_prev (movedNode dst xs1 xs2 ysf zs yst m i nd) = (if ysf \<noteq> [] \<and> m = hd ysf then lastOr 0 xs1
     else if m = hd xs2 then lastOr 0 zs else if yst \<noteq> [] \<and> m = hd yst then last xs2 else n_prev nd)"
  "n_threadList (movedNode dst xs1 xs2 ysf zs yst m i nd) = (if m \<in> set xs2 then dst else n_threadList nd)"
  "n_index (movedNode dst xs1 xs2 ysf zs yst m i nd) = i"
  "n_active (movedNode dst xs1 xs2 ysf zs yst m i nd) = n_active nd"
  "n_numElements (movedNode dst xs1 xs2 ysf zs yst m i nd) = n_numElements nd"
  "liveOf (movedNode dst xs1 xs2 ysf zs yst m i nd) = liveOf nd"
  by (simp_all add: movedNode_def)

definition transferred ::
  "addr \<Rightarrow> addr list \<Rightarrow> addr list \<Rightarrow> addr list \<Rightarrow> addr list \<Rightarrow> addr list
   \<Rightarrow> (addr \<Rightarrow> pumaNode option) \<Rightarrow> (addr \<Rightarrow> pumaNode option) \<Rightarrow> bool" where
  "transferred dst xs1 xs2 ysf zs yst N N' \<longleftrightarrow>
     (\<forall>m. N' m = map_option (movedNode dst xs1 xs2 ysf zs yst m (n_index (the (N' m)))) (N m))
   \<and> (\<forall>i<length xs2. n_index (the (N' (xs2 ! i))) = length zs + i)
   \<and> (\<forall>m\<in>set xs1 \<union> set zs. n_index (the (N' m)) = n_index (the (N m)))
   \<and> (xs1 = [] \<and> ysf \<noteq> [] \<longrightarrow> n_index (the (N' (hd ysf))) = 0)
   \<and> (\<forall>m. m \<notin> set (xs1 @ xs2 @ ysf @ zs @ yst) \<longrightarrow> N' m = N m)"

lemma indexNodes_ok:
  assumes lk: "links (nodeAt s) (lastOr 0 zs) ns b" "ns \<noteq> []" "distinct ns" "length zs + length ns < 2 ^ 64"
    and z: "zs \<noteq> [] \<Longrightarrow> last zs \<noteq> 0 \<and> (\<exists>zn. nodeAt s (last zs) = Some zn \<and> Suc (n_index zn) = length zs)"
  shows "\<exists>s'. indexNodes (length ns) (hd ns) (last ns) s = Inr s' \<and> sameRest s s'
     \<and> (\<forall>m. m \<notin> set ns \<longrightarrow> nodeAt s' m = nodeAt s m)
     \<and> (\<forall>i<length ns. nodeAt s' (ns ! i) = map_option (\<lambda>nd. nd\<lparr>n_index := length zs + i\<rparr>) (nodeAt s (ns ! i)))"
proof -
  obtain nd where nd: "nodeAt s (hd ns) = Some nd" "n_prev nd = lastOr 0 zs" using links_hd[OF lk(1,2)] by blast
  have "indexNodes (length ns) (hd ns) (last ns) s = indexNodesLoop (length ns) (hd ns) (last ns) (length zs) s"
  proof (cases "zs = []")
    case False
    from z[OF this] obtain zn where zn: "last zs \<noteq> 0" "nodeAt s (last zs) = Some zn" "Suc (n_index zn) = length zs" by blast
    then have "sz_add (n_index zn) 1 = length zs" using lk(4) by (simp add: sz_add_exact)
    then show ?thesis using nd zn(1,2) False by (simp add: indexNodes_def lastOr_def deref_simps)
  qed (use nd in \<open>simp add: indexNodes_def deref_simps\<close>)
  then show ?thesis using indexNodesLoop_ok[OF lk(1-3) le_refl lk(4)] by simp
qed

text \<open>The elements move with their nodes; the counters follow.\<close>

lemma transferNNodes_run:
  assumes f: "tl_inv s src (xs1 @ xs2) ysf" and t: "tl_inv s dst zs yst" and ne: "src \<noteq> dst" "xs2 \<noteq> []"
  shows "\<exists>s' lf lt. transferNNodes (length xs2) src dst s = Inr s'
    \<and> transferred dst xs1 xs2 ysf zs yst (nodeAt s) (nodeAt s') \<and> cells s' = cells s
    \<and> pumaPageSize s' = pumaPageSize s \<and> PUMA_NODEPAGES s' = PUMA_NODEPAGES s
    \<and> tlists s src = Some lf \<and> tlists s dst = Some lt
    \<and> tlists s' = (tlists s)
      (src \<mapsto> lf\<lparr>tl_head := firstOr (xs1 @ ysf) 0, tl_tail := if xs1 = [] then firstOr ysf 0 else last xs1,
          tl_numElements := \<Sum>m\<leftarrow>xs1. n_numElements (the (nodeAt s m)), tl_numNodes := length xs1\<rparr>,
       dst \<mapsto> lt\<lparr>tl_head := firstOr (zs @ xs2) 0, tl_tail := last xs2,
          tl_numElements := \<Sum>m\<leftarrow>zs @ xs2. n_numElements (the (nodeAt s m)), tl_numNodes := length (zs @ xs2)\<rparr>)"
proof -
  let ?B = "nodeBytes s" and ?N = "nodeAt s" and ?start = "hd xs2" and ?fin = "last xs2"
  obtain lf where lf: "cfg_ok ?B" "tlists s src = Some lf" "list_ok ?B src lf ?N (xs1 @ xs2) ysf" using f by (rule tl_invE)
  obtain lt where lt: "tlists s dst = Some lt" "list_ok ?B dst lt ?N zs yst" using t by (rule tl_invE)
  note F = list_okD[OF lf(3)] and T = list_okD[OF lt(2)]
  have disj: "set (xs1 @ xs2 @ ysf) \<inter> set (zs @ yst) = {}"
    using F(3)[THEN node_okD(3)] T(3)[THEN node_okD(3)] ne(1) by auto
  have d: "distinct xs1" "distinct xs2" "distinct zs" "distinct yst" "distinct ysf"
    "set xs1 \<inter> set xs2 = {}" "set xs1 \<inter> set ysf = {}" "set xs2 \<inter> set ysf = {}" "set zs \<inter> set yst = {}"
    using F(1) T(1) by auto
  have nz: "0 \<notin> set (xs1 @ xs2 @ ysf @ zs @ yst)"
    using list_ok_nz[OF lf(3), of 0] list_ok_nz[OF lt(2), of 0] by auto
  have al: "\<exists>nd. ?N m = Some nd" if "m \<in> set (xs1 @ xs2 @ ysf @ zs @ yst)" for m
    using that links_alloc[OF F(2), of m] links_alloc[OF T(2), of m] by auto
  have ends: "?start \<in> set xs2" "?fin \<in> set xs2" using ne(2) by simp_all
  have lx2: "links ?N (lastOr 0 xs1) xs2 (firstOr ysf 0)" using F(2) by simp
  obtain sn where sn: "?N ?start = Some sn" "n_prev sn = lastOr 0 xs1" using links_hd[OF lx2 ne(2)] by blast
  obtain en where en: "?N ?fin = Some en" "n_next en = firstOr ysf 0"
    using lx2 ne(2) by (cases xs2 rule: rev_cases) auto
  have wb: "walkBack (length xs2 - 1) ?fin s = Inr ?start"
    using walkBack_links[of s _ "hd xs2" "tl xs2"] lx2 ne(2) by (cases xs2) (auto simp del: walkBack.simps)
  have bnd: "Suc (length ((xs1 @ xs2) @ zs)) < 2 ^ 64" "Suc (\<Sum>m\<leftarrow>(xs1 @ xs2) @ zs. n_numElements (the (?N m))) < 2 ^ 64"
  proof -
    have d': "distinct ((xs1 @ xs2) @ zs)" using d disj by auto
    have ok: "\<exists>t es. node_ok ?B t es m (the (?N m))" if "m \<in> set ((xs1 @ xs2) @ zs)" for m
      using that F(3)[of m] T(3)[of m] by auto
    show "Suc (length ((xs1 @ xs2) @ zs)) < 2 ^ 64" "Suc (\<Sum>m\<leftarrow>(xs1 @ xs2) @ zs. n_numElements (the (?N m))) < 2 ^ 64"
      using nodes_bounds[OF lf(1) d' ok] by blast+
  qed
  let ?s1 = "putList src (lf\<lparr>tl_tail := lastOr 0 xs1\<rparr>) s"
  have "\<exists>s2. spliceIn dst ?start ?fin ?s1 = Inr s2 \<and> tlists s2 = (tlists ?s1)(dst \<mapsto> lt\<lparr>tl_head := firstOr zs ?start\<rparr>)
    \<and> cells s2 = cells ?s1 \<and> pumaPageSize s2 = pumaPageSize ?s1 \<and> PUMA_NODEPAGES s2 = PUMA_NODEPAGES ?s1
    \<and> (\<forall>m. nodeAt s2 m = map_option (\<lambda>nd. nd\<lparr>
        n_next := if m = ?fin then firstOr yst 0 else if zs \<noteq> [] \<and> m = last zs then ?start else n_next nd,
        n_prev := if m = ?start then lastOr 0 zs else if yst \<noteq> [] \<and> m = hd yst then ?fin else n_prev nd,
        n_dirty := n_dirty nd \<or> zs \<noteq> [] \<and> m = last zs,
        n_index := if zs = [] \<and> yst \<noteq> [] \<and> m = hd yst then sz_add (n_index en) 1 else n_index nd\<rparr>) (nodeAt ?s1 m))"
  proof (rule spliceIn_ok)
    show "?start \<notin> set (zs @ yst)" "?fin \<notin> set (zs @ yst)" using ends disj by auto
  qed (use lt(1) ne(1) T nz sn en in \<open>auto simp: mem_simps\<close>)
  then obtain s2 where s2: "spliceIn dst ?start ?fin ?s1 = Inr s2"
    and t2: "tlists s2 = (tlists ?s1)(dst \<mapsto> lt\<lparr>tl_head := firstOr zs ?start\<rparr>)"
    and r2: "cells s2 = cells s" "pumaPageSize s2 = pumaPageSize s" "PUMA_NODEPAGES s2 = PUMA_NODEPAGES s"
    and n2: "\<And>m. nodeAt s2 m = map_option (\<lambda>nd. nd\<lparr>
        n_next := if m = ?fin then firstOr yst 0 else if zs \<noteq> [] \<and> m = last zs then ?start else n_next nd,
        n_prev := if m = ?start then lastOr 0 zs else if yst \<noteq> [] \<and> m = hd yst then ?fin else n_prev nd,
        n_dirty := n_dirty nd \<or> zs \<noteq> [] \<and> m = last zs,
        n_index := if zs = [] \<and> yst \<noteq> [] \<and> m = hd yst then sz_add (n_index en) 1 else n_index nd\<rparr>) (?N m)"
    by (auto simp: mem_simps)
  let ?lt3 = "lt\<lparr>tl_head := firstOr zs ?start, tl_tail := ?fin\<rparr>"
  let ?s3 = "putList dst ?lt3 s2"
  have l3: "tlists ?s3 = (tlists s)(src \<mapsto> lf\<lparr>tl_tail := lastOr 0 xs1\<rparr>, dst \<mapsto> ?lt3)"
    by (simp add: t2 mem_simps)
  let ?lf3 = "lf\<lparr>tl_tail := lastOr 0 xs1\<rparr>"
  have "\<exists>s4. closeGap src (firstOr ysf 0) ?s3 = Inr s4 \<and> tlists s4 = (tlists ?s3)(src \<mapsto> ?lf3\<lparr>
        tl_head := if xs1 = [] then firstOr ysf 0 else tl_head ?lf3, tl_tail := if xs1 = [] then firstOr ysf 0 else last xs1\<rparr>)
    \<and> cells s4 = cells ?s3 \<and> pumaPageSize s4 = pumaPageSize ?s3 \<and> PUMA_NODEPAGES s4 = PUMA_NODEPAGES ?s3
    \<and> (\<forall>m. nodeAt s4 m = map_option (\<lambda>nd. nd\<lparr>
        n_next := if xs1 \<noteq> [] \<and> m = last xs1 then firstOr ysf 0 else n_next nd,
        n_prev := if ysf \<noteq> [] \<and> m = hd ysf then lastOr 0 xs1 else n_prev nd,
        n_index := if xs1 = [] \<and> ysf \<noteq> [] \<and> m = hd ysf then 0 else n_index nd\<rparr>) (nodeAt ?s3 m))"
  proof (rule closeGap_ok)
    show "nodeAt ?s3 m \<noteq> None" if "m \<in> set (xs1 @ ysf)" for m
      using al[of m] that by (auto simp: mem_simps n2)
  qed (use ne(1) l3 d nz in \<open>auto simp: lastOr_def\<close>)
  then obtain s4 where s4: "closeGap src (firstOr ysf 0) ?s3 = Inr s4"
    and t4: "tlists s4 = (tlists ?s3)(src \<mapsto> ?lf3\<lparr>
        tl_head := if xs1 = [] then firstOr ysf 0 else tl_head ?lf3, tl_tail := if xs1 = [] then firstOr ysf 0 else last xs1\<rparr>)"
    and r4: "cells s4 = cells s" "pumaPageSize s4 = pumaPageSize s" "PUMA_NODEPAGES s4 = PUMA_NODEPAGES s"
    and n4': "\<And>m. nodeAt s4 m = map_option (\<lambda>nd. nd\<lparr>
        n_next := if xs1 \<noteq> [] \<and> m = last xs1 then firstOr ysf 0 else n_next nd,
        n_prev := if ysf \<noteq> [] \<and> m = hd ysf then lastOr 0 xs1 else n_prev nd,
        n_index := if xs1 = [] \<and> ysf \<noteq> [] \<and> m = hd ysf then 0 else n_index nd\<rparr>) (nodeAt s2 m)"
    using r2 by (auto simp: mem_simps)
  have n4: "nodeAt s4 m = map_option (\<lambda>nd. nd\<lparr>
        n_next := if xs1 \<noteq> [] \<and> m = last xs1 then firstOr ysf 0 else if m = ?fin then firstOr yst 0
          else if zs \<noteq> [] \<and> m = last zs then ?start else n_next nd,
        n_prev := if ysf \<noteq> [] \<and> m = hd ysf then lastOr 0 xs1 else if m = ?start then lastOr 0 zs
          else if yst \<noteq> [] \<and> m = hd yst then ?fin else n_prev nd,
        n_dirty := n_dirty nd \<or> zs \<noteq> [] \<and> m = last zs,
        n_index := if xs1 = [] \<and> ysf \<noteq> [] \<and> m = hd ysf then 0
          else if zs = [] \<and> yst \<noteq> [] \<and> m = hd yst then sz_add (n_index en) 1 else n_index nd\<rparr>) (?N m)" for m
    unfolding n4' n2 option.map_comp comp_def by (rule map_option_cong) simp_all
  have mem2: "m \<notin> set xs1 \<and> m \<notin> set ysf \<and> m \<notin> set zs \<and> m \<notin> set yst" if "m \<in> set xs2" for m
    using that d disj by auto
  have l4: "links (nodeAt s4) (lastOr 0 zs) xs2 (firstOr yst 0)"
  proof (rule links_relink[OF lx2 d(2)])
    fix m nd
    assume m: "m \<in> set xs2" "?N m = Some nd"
    have neg: "(xs1 \<noteq> [] \<and> m = last xs1) = False" "(zs \<noteq> [] \<and> m = last zs) = False"
      "(ysf \<noteq> [] \<and> m = hd ysf) = False" "(yst \<noteq> [] \<and> m = hd yst) = False"
      using mem2[OF m(1)] last_in_set hd_in_set by blast+
    show "\<exists>nd'. nodeAt s4 m = Some nd' \<and> n_prev nd' = (if m = hd xs2 then lastOr 0 zs else n_prev nd)
        \<and> n_next nd' = (if m = last xs2 then firstOr yst 0 else n_next nd)" unfolding n4 m(2) neg by simp
  qed
  have z4: "last zs \<noteq> 0 \<and> (\<exists>zn. nodeAt s4 (last zs) = Some zn \<and> Suc (n_index zn) = length zs)" if z: "zs \<noteq> []"
  proof -
    have lz: "last zs \<in> set zs" using z by simp
    obtain zn where zn: "?N (last zs) = Some zn" using al[of "last zs"] lz by auto
    have "n_index (the (?N (zs ! (length zs - 1)))) = length zs - 1" by (rule list_ok_index[OF lt(2)]) (use z in simp)
    then have "Suc (n_index zn) = length zs" using zn z by (simp add: last_conv_nth)
    moreover have "\<not> (ysf \<noteq> [] \<and> last zs = hd ysf)" using disj lz hd_in_set by fastforce
    moreover have "last zs \<noteq> 0" using nz lz by (metis UnCI set_append)
    ultimately show ?thesis using zn z by (auto simp: n4)
  qed
  have len: "length zs + length xs2 < 2 ^ 64" using bnd(1) by simp
  from indexNodes_ok[OF l4 ne(2) d(2) len z4] obtain s5 where s5: "indexNodes (length xs2) ?start ?fin s4 = Inr s5"
    and r5: "sameRest s4 s5" and n5: "\<And>m. m \<notin> set xs2 \<Longrightarrow> nodeAt s5 m = nodeAt s4 m"
    "\<And>i. i < length xs2 \<Longrightarrow> nodeAt s5 (xs2 ! i) = map_option (\<lambda>nd. nd\<lparr>n_index := length zs + i\<rparr>) (nodeAt s4 (xs2 ! i))" by blast
  have n5i: "\<exists>k. nodeAt s5 m = map_option (\<lambda>nd. nd\<lparr>n_index := k\<rparr>) (nodeAt s4 m)" if "m \<in> set xs2" for m
    using that n5(2) by (auto simp: in_set_conv_nth)
  have l5: "links (nodeAt s5) (lastOr 0 zs) xs2 (firstOr yst 0)"
    by (rule links_cong[OF l4]) (use n5i in fastforce)
  from moveNodeThreadLists_ok[OF l5 ne(2) d(2) le_refl] obtain s6 where s6: "moveNodeThreadLists (length xs2) ?start ?fin dst s5 = Inr s6"
    and r6: "sameRest s5 s6"
    and n6: "\<And>m. nodeAt s6 m = (if m \<in> set xs2 then map_option (\<lambda>nd. nd\<lparr>n_threadList := dst\<rparr>) (nodeAt s5 m) else nodeAt s5 m)" by blast
  have l6: "links (nodeAt s6) (lastOr 0 zs) xs2 (firstOr yst 0)"
    by (rule links_cong[OF l5]) (auto simp: n6)
  have e6: "n_numElements (the (nodeAt s6 m)) = n_numElements (the (?N m))" if "m \<in> set xs2" for m
  proof -
    have "m \<in> set (xs1 @ xs2 @ ysf @ zs @ yst)" using that by simp
    then obtain nd where "?N m = Some nd" using al by blast
    then show ?thesis using n5i[OF that] that by (auto simp: n6 n4)
  qed
  have sum6: "(\<Sum>m\<leftarrow>xs2. n_numElements (the (nodeAt s6 m))) = (\<Sum>m\<leftarrow>xs2. n_numElements (the (?N m)))"
    by (rule arg_cong[where f = sum_list], rule map_cong[OF refl]) (rule e6)
  let ?S = "\<lambda>ms. \<Sum>m\<leftarrow>ms. n_numElements (the (?N m))"
  let ?lf4 = "lf\<lparr>tl_head := firstOr (xs1 @ ysf) 0, tl_tail := if xs1 = [] then firstOr ysf 0 else last xs1\<rparr>"
  let ?lt4 = "lt\<lparr>tl_head := firstOr (zs @ xs2) 0, tl_tail := last xs2\<rparr>"
  have hf: "tl_head lf = firstOr xs1 ?start" using F(8) ne(2) by (simp add: firstOr_hd)
  have t6: "tlists s6 = (tlists s)(src \<mapsto> ?lf4, dst \<mapsto> ?lt4)"
  proof -
    have "tlists s6 = tlists s4" using r5 r6 by (simp add: sameRest_def)
    also have "\<dots> = (tlists s)(src \<mapsto> ?lf4, dst \<mapsto> ?lt4)"
      using ne hf by (cases xs1) (auto simp: t4 l3 fun_eq_iff firstOr_hd lastOr_def)
    finally show ?thesis .
  qed
  have at6: "tlists s6 src = Some ?lf4" "tlists s6 dst = Some ?lt4" using ne(1) by (simp_all add: t6)
  have num: "tl_numElements lf = ?S xs1 + ?S xs2" "tl_numElements lt = ?S zs" using F(11) T(11) by simp_all
  have sums: "?S xs2 \<le> tl_numElements lf" "tl_numElements lf < 2 ^ 64" "tl_numElements lt + ?S xs2 < 2 ^ 64"
    using bnd(2) num by simp_all
  have s7: "updatenumElements (length xs2) ?start ?fin src dst s6 = Inr (s6\<lparr>tlists := (tlists s6)
        (src \<mapsto> ?lf4\<lparr>tl_numElements := tl_numElements ?lf4 - ?S xs2\<rparr>, dst \<mapsto> ?lt4\<lparr>tl_numElements := tl_numElements ?lt4 + ?S xs2\<rparr>)\<rparr>)"
    by (rule updatenumElements_ok[OF l6 ne(2) d(2) le_refl ne(1) at6, unfolded sum6]) (use sums in simp_all)
  define s7' where "s7' = s6\<lparr>tlists := (tlists s6)
        (src \<mapsto> ?lf4\<lparr>tl_numElements := tl_numElements ?lf4 - ?S xs2\<rparr>, dst \<mapsto> ?lt4\<lparr>tl_numElements := tl_numElements ?lt4 + ?S xs2\<rparr>)\<rparr>"
  have t7: "tlists s7' = (tlists s)(src \<mapsto> ?lf4\<lparr>tl_numElements := ?S xs1\<rparr>, dst \<mapsto> ?lt4\<lparr>tl_numElements := ?S (zs @ xs2)\<rparr>)"
    using ne(1) num by (simp add: s7'_def t6 fun_eq_iff)
  have rest7: "cells s7' = cells s" "pumaPageSize s7' = pumaPageSize s" "PUMA_NODEPAGES s7' = PUMA_NODEPAGES s" "nodeAt s7' = nodeAt s6"
    using r4 r5 r6 by (simp_all add: s7'_def sameRest_def)
  let ?lf8 = "?lf4\<lparr>tl_numElements := ?S xs1, tl_numNodes := length xs1\<rparr>"
  let ?lt8 = "?lt4\<lparr>tl_numElements := ?S (zs @ xs2), tl_numNodes := length (zs @ xs2)\<rparr>"
  have sz: "sz_sub (tl_numNodes lf) (length xs2) = length xs1" "sz_add (tl_numNodes lt) (length xs2) = length (zs @ xs2)"
    using F(10) T(10) bnd(1) by (simp_all add: sz_sub_exact sz_add_exact)
  have u8: "updList src (\<lambda>l. l\<lparr>tl_numNodes := sz_sub (tl_numNodes l) (length xs2)\<rparr>) s7' = Inr (putList src ?lf8 s7')"
    using ne(1) sz(1) by (simp add: upd_simps(2)[where l = "?lf4\<lparr>tl_numElements := ?S xs1\<rparr>"] t7)
  have u9: "updList dst (\<lambda>l. l\<lparr>tl_numNodes := sz_add (tl_numNodes l) (length xs2)\<rparr>) (putList src ?lf8 s7')
      = Inr (putList dst ?lt8 (putList src ?lf8 s7'))"
    using ne(1) sz(2) by (simp add: upd_simps(2)[where l = "?lt4\<lparr>tl_numElements := ?S (zs @ xs2)\<rparr>"] t7 mem_simps)
  have tailf: "tl_tail lf = ?fin" using F(9) ne(2) by simp
  have u3: "updList dst (\<lambda>l. l\<lparr>tl_tail := ?fin\<rparr>) s2 = Inr ?s3"
    by (simp add: upd_simps(2)[where l = "lt\<lparr>tl_head := firstOr zs ?start\<rparr>"] t2)
  have u1: "updList src (\<lambda>l. l\<lparr>tl_tail := lastOr 0 xs1\<rparr>) s = Inr ?s1" by (simp add: upd_simps(2)[OF lf(2)])
  have run: "transferNNodes (length xs2) src dst s = Inr (putList dst ?lt8 (putList src ?lf8 s7'))"
    unfolding transferNNodes_def deref_simps(3)[OF lf(2)] bindE_simps(2) Let_def tailf deref_simps(1)[OF en(1)] wb
      deref_simps(1)[OF sn(1)] sn(2) u1 s2 u3 en(2) s4 s5 s6 s7[folded s7'_def] u8 u9 ..
  let ?s' = "putList dst ?lt8 (putList src ?lf8 s7')"
  have t8: "tlists ?s' = (tlists s)(src \<mapsto> ?lf8, dst \<mapsto> ?lt8)" using t7 by (simp add: mem_simps fun_eq_iff)
  have N8: "nodeAt ?s' = nodeAt s6" using rest7 by (simp add: mem_simps)
  have tr: "transferred dst xs1 xs2 ysf zs yst ?N (nodeAt s6)"
    unfolding transferred_def
  proof (intro conjI allI ballI impI)
    fix m
    have "\<exists>k. nodeAt s6 m = map_option (\<lambda>nd. nd\<lparr>n_index := k, n_threadList := if m \<in> set xs2 then dst else n_threadList nd\<rparr>) (nodeAt s4 m)"
    proof (cases "m \<in> set xs2")
      case True
      then show ?thesis using n5i[OF True] by (auto simp: n6 option.map_comp comp_def)
    next
      case False
      then show ?thesis
        by (intro exI[of _ "n_index (the (nodeAt s4 m))"]) (cases "nodeAt s4 m", simp_all add: n6 n5(1))
    qed
    then obtain k where k: "nodeAt s6 m = map_option (\<lambda>nd. nd\<lparr>n_index := k, n_threadList := if m \<in> set xs2 then dst else n_threadList nd\<rparr>) (nodeAt s4 m)" ..
    show "nodeAt s6 m = map_option (movedNode dst xs1 xs2 ysf zs yst m (n_index (the (nodeAt s6 m)))) (?N m)"
    proof (cases "?N m")
      case None
      then show ?thesis by (simp add: k n4)
    next
      case (Some nd)
      have "n_index (the (nodeAt s6 m)) = k" by (simp add: k n4 Some)
      then show ?thesis by (cases nd) (simp add: k n4 Some movedNode_def cong: if_cong split del: if_split)
    qed
  next
    fix i
    assume i: "i < length xs2"
    then have "xs2 ! i \<in> set (xs1 @ xs2 @ ysf @ zs @ yst)" by simp
    then obtain nd where "?N (xs2 ! i) = Some nd" using al by blast
    then show "n_index (the (nodeAt s6 (xs2 ! i))) = length zs + i" using i by (simp add: n6 n5(2) n4)
  next
    fix m
    assume m: "m \<in> set xs1 \<union> set zs"
    have x: "set ysf \<inter> set zs = {}" "set xs1 \<inter> set yst = {}" using disj by auto
    have m': "m \<notin> set xs2" "(xs1 = [] \<and> ysf \<noteq> [] \<and> m = hd ysf) = False" "(zs = [] \<and> yst \<noteq> [] \<and> m = hd yst) = False"
      using m mem2 d(6) x hd_in_set[of ysf] hd_in_set[of yst] by fastforce+
    have "m \<in> set (xs1 @ xs2 @ ysf @ zs @ yst)" using m by auto
    then obtain nd where "?N m = Some nd" using al by blast
    moreover have e: "nodeAt s6 m = nodeAt s4 m" using m'(1) by (simp add: n6 n5(1))
    ultimately show "n_index (the (nodeAt s6 m)) = n_index (the (?N m))" unfolding e n4 m'(2,3) by simp
  next
    assume e: "xs1 = [] \<and> ysf \<noteq> []"
    then have h: "hd ysf \<in> set ysf" by simp
    then have "hd ysf \<in> set (xs1 @ xs2 @ ysf @ zs @ yst)" by auto
    then obtain nd where "?N (hd ysf) = Some nd" using al by blast
    moreover have "hd ysf \<notin> set xs2" using mem2 h by blast
    ultimately show "n_index (the (nodeAt s6 (hd ysf))) = 0" using e by (simp add: n6 n5(1) n4)
  next
    fix m
    assume m: "m \<notin> set (xs1 @ xs2 @ ysf @ zs @ yst)"
    have neg: "(xs1 \<noteq> [] \<and> m = last xs1) = False" "(zs \<noteq> [] \<and> m = last zs) = False" "(m = ?fin) = False" "(m = ?start) = False"
      "(ysf \<noteq> [] \<and> m = hd ysf) = False" "(yst \<noteq> [] \<and> m = hd yst) = False" "m \<notin> set xs2"
      using m ends last_in_set[of xs1] last_in_set[of zs] hd_in_set[of ysf] hd_in_set[of yst] by auto
    show "nodeAt s6 m = ?N m" using neg(7) by (simp add: n6 n5(1)) (simp add: n4 neg(1-6) option.map_ident)
  qed
  show ?thesis
    by (rule exI[of _ ?s'], rule exI[of _ lf], rule exI[of _ lt], unfold N8)
      (use run tr t8 rest7 lf(2) lt(1) in \<open>simp add: mem_simps\<close>)
qed

section \<open>The invariants after the transfer\<close>

lemma links_last_next: "links N p ns b \<Longrightarrow> ns \<noteq> [] \<Longrightarrow> N (last ns) = Some nd \<Longrightarrow> n_next nd = b"
  by (cases ns rule: rev_cases) auto

lemma links_hd_prev: "links N p ns b \<Longrightarrow> ns \<noteq> [] \<Longrightarrow> N (hd ns) = Some nd \<Longrightarrow> n_prev nd = p"
  by (cases ns) auto

lemma transferredD:
  assumes "transferred dst xs1 xs2 ysf zs yst N N'" "N m = Some nd"
  obtains i where "N' m = Some (movedNode dst xs1 xs2 ysf zs yst m i nd)"
proof -
  from assms(1) have "N' m = map_option (movedNode dst xs1 xs2 ysf zs yst m (n_index (the (N' m)))) (N m)"
    unfolding transferred_def by (elim conjE) (erule spec)
  then show thesis using assms(2) by (auto intro: that)
qed

text \<open>The five segments get their new ends.\<close>

lemma transferred_links:
  assumes tr: "transferred dst xs1 xs2 ysf zs yst N N'" and ne: "xs2 \<noteq> []"
    and f: "links N 0 ((xs1 @ xs2) @ ysf) 0" and t: "links N 0 (zs @ yst) 0"
    and d: "distinct (xs1 @ xs2 @ ysf @ zs @ yst)"
  shows "links N' 0 (xs1 @ ysf) 0" "links N' 0 ((zs @ xs2) @ yst) 0"
proof -
  have mem: "xs \<noteq> [] \<Longrightarrow> hd xs \<in> set xs" "xs \<noteq> [] \<Longrightarrow> last xs \<in> set xs" for xs :: "addr list" by simp_all
  have seg: "links N' p' ns b'" if lk: "links N p ns b" and dn: "distinct ns"
      and pv: "\<And>m nd. m \<in> set ns \<Longrightarrow> N m = Some nd \<Longrightarrow>
        (if ysf \<noteq> [] \<and> m = hd ysf then lastOr 0 xs1 else if m = hd xs2 then lastOr 0 zs
          else if yst \<noteq> [] \<and> m = hd yst then last xs2 else n_prev nd) = (if m = hd ns then p' else n_prev nd)"
      and nx: "\<And>m nd. m \<in> set ns \<Longrightarrow> N m = Some nd \<Longrightarrow>
        (if xs1 \<noteq> [] \<and> m = last xs1 then firstOr ysf 0 else if m = last xs2 then firstOr yst 0
          else if zs \<noteq> [] \<and> m = last zs then hd xs2 else n_next nd) = (if m = last ns then b' else n_next nd)"
    for p p' ns b b'
  proof (rule links_relink[OF lk dn])
    fix m nd
    assume m: "m \<in> set ns" "N m = Some nd"
    obtain i where i: "N' m = Some (movedNode dst xs1 xs2 ysf zs yst m i nd)" by (rule transferredD[OF tr m(2)])
    show "\<exists>nd'. N' m = Some nd' \<and> n_prev nd' = (if m = hd ns then p' else n_prev nd)
        \<and> n_next nd' = (if m = last ns then b' else n_next nd)"
      by (intro exI conjI, rule i, simp only: movedNode_sel pv[OF m], simp only: movedNode_sel nx[OF m])
  qed
  have l: "links N 0 xs1 (hd xs2)" "links N (lastOr 0 xs1) xs2 (firstOr ysf 0)" "links N (last xs2) ysf 0"
    "links N 0 zs (firstOr yst 0)" "links N (lastOr 0 zs) yst 0"
    using f t ne by (simp_all add: firstOr_hd lastOr_last)
  have off: "m \<notin> set ms \<Longrightarrow> (ms \<noteq> [] \<and> m = hd ms) = False" "m \<notin> set ms \<Longrightarrow> (ms \<noteq> [] \<and> m = last ms) = False" for m and ms :: "addr list"
    using mem[of ms] by blast+
  have off2: "m \<notin> set xs2 \<Longrightarrow> (m = hd xs2) = False" "m \<notin> set xs2 \<Longrightarrow> (m = last xs2) = False" for m
    using mem[OF ne] by blast+
  note ln = links_hd_prev and nl = links_last_next
  have "links N' 0 xs1 (firstOr ysf 0)"
  proof (rule seg[OF l(1)])
    fix m nd
    assume m: "m \<in> set xs1" "N m = Some nd"
    then have o: "m \<notin> set xs2" "m \<notin> set ysf" "m \<notin> set zs" "m \<notin> set yst" using d by auto
    show "(if ysf \<noteq> [] \<and> m = hd ysf then lastOr 0 xs1 else if m = hd xs2 then lastOr 0 zs
          else if yst \<noteq> [] \<and> m = hd yst then last xs2 else n_prev nd) = (if m = hd xs1 then 0 else n_prev nd)"
      unfolding off(1)[OF o(2)] off(1)[OF o(4)] off2(1)[OF o(1)] using ln[OF l(1), of nd] in_set_not_Nil[OF m(1)] m by auto
    show "(if xs1 \<noteq> [] \<and> m = last xs1 then firstOr ysf 0 else if m = last xs2 then firstOr yst 0
          else if zs \<noteq> [] \<and> m = last zs then hd xs2 else n_next nd) = (if m = last xs1 then firstOr ysf 0 else n_next nd)"
      unfolding off(2)[OF o(3)] off2(2)[OF o(1)] using m by auto
  qed (use d in simp)
  moreover have "links N' (lastOr 0 xs1) ysf 0"
  proof (rule seg[OF l(3)])
    fix m nd
    assume m: "m \<in> set ysf" "N m = Some nd"
    then have o: "m \<notin> set xs2" "m \<notin> set xs1" "m \<notin> set zs" "m \<notin> set yst" using d by auto
    show "(if ysf \<noteq> [] \<and> m = hd ysf then lastOr 0 xs1 else if m = hd xs2 then lastOr 0 zs
          else if yst \<noteq> [] \<and> m = hd yst then last xs2 else n_prev nd) = (if m = hd ysf then lastOr 0 xs1 else n_prev nd)"
      unfolding off(1)[OF o(4)] off2(1)[OF o(1)] using m by auto
    show "(if xs1 \<noteq> [] \<and> m = last xs1 then firstOr ysf 0 else if m = last xs2 then firstOr yst 0
          else if zs \<noteq> [] \<and> m = last zs then hd xs2 else n_next nd) = (if m = last ysf then 0 else n_next nd)"
      unfolding off(2)[OF o(2)] off(2)[OF o(3)] off2(2)[OF o(1)] using nl[OF l(3), of nd] in_set_not_Nil[OF m(1)] m by auto
  qed (use d in simp)
  ultimately show "links N' 0 (xs1 @ ysf) 0" by simp
  have "links N' 0 zs (hd xs2)"
  proof (rule seg[OF l(4)])
    fix m nd
    assume m: "m \<in> set zs" "N m = Some nd"
    then have o: "m \<notin> set xs2" "m \<notin> set xs1" "m \<notin> set ysf" "m \<notin> set yst" using d by auto
    show "(if ysf \<noteq> [] \<and> m = hd ysf then lastOr 0 xs1 else if m = hd xs2 then lastOr 0 zs
          else if yst \<noteq> [] \<and> m = hd yst then last xs2 else n_prev nd) = (if m = hd zs then 0 else n_prev nd)"
      unfolding off(1)[OF o(3)] off(1)[OF o(4)] off2(1)[OF o(1)] using ln[OF l(4), of nd] in_set_not_Nil[OF m(1)] m by auto
    show "(if xs1 \<noteq> [] \<and> m = last xs1 then firstOr ysf 0 else if m = last xs2 then firstOr yst 0
          else if zs \<noteq> [] \<and> m = last zs then hd xs2 else n_next nd) = (if m = last zs then hd xs2 else n_next nd)"
      unfolding off(2)[OF o(2)] off2(2)[OF o(1)] using m by auto
  qed (use d in simp)
  moreover have "links N' (lastOr 0 zs) xs2 (firstOr yst 0)"
  proof (rule seg[OF l(2)])
    fix m nd
    assume m: "m \<in> set xs2" "N m = Some nd"
    then have o: "m \<notin> set xs1" "m \<notin> set ysf" "m \<notin> set zs" "m \<notin> set yst" using d by auto
    show "(if ysf \<noteq> [] \<and> m = hd ysf then lastOr 0 xs1 else if m = hd xs2 then lastOr 0 zs
          else if yst \<noteq> [] \<and> m = hd yst then last xs2 else n_prev nd) = (if m = hd xs2 then lastOr 0 zs else n_prev nd)"
      unfolding off(1)[OF o(2)] off(1)[OF o(4)] by simp
    show "(if xs1 \<noteq> [] \<and> m = last xs1 then firstOr ysf 0 else if m = last xs2 then firstOr yst 0
          else if zs \<noteq> [] \<and> m = last zs then hd xs2 else n_next nd) = (if m = last xs2 then firstOr yst 0 else n_next nd)"
      unfolding off(2)[OF o(1)] off(2)[OF o(3)] by simp
  qed (use d in simp)
  moreover have "links N' (last xs2) yst 0"
  proof (rule seg[OF l(5)])
    fix m nd
    assume m: "m \<in> set yst" "N m = Some nd"
    then have o: "m \<notin> set xs2" "m \<notin> set xs1" "m \<notin> set zs" "m \<notin> set ysf" using d by auto
    show "(if ysf \<noteq> [] \<and> m = hd ysf then lastOr 0 xs1 else if m = hd xs2 then lastOr 0 zs
          else if yst \<noteq> [] \<and> m = hd yst then last xs2 else n_prev nd) = (if m = hd yst then last xs2 else n_prev nd)"
      unfolding off(1)[OF o(4)] off2(1)[OF o(1)] using m by auto
    show "(if xs1 \<noteq> [] \<and> m = last xs1 then firstOr ysf 0 else if m = last xs2 then firstOr yst 0
          else if zs \<noteq> [] \<and> m = last zs then hd xs2 else n_next nd) = (if m = last yst then 0 else n_next nd)"
      unfolding off(2)[OF o(2)] off(2)[OF o(3)] off2(2)[OF o(1)] using nl[OF l(5), of nd] in_set_not_Nil[OF m(1)] m by auto
  qed (use d in simp)
  ultimately show "links N' 0 ((zs @ xs2) @ yst) 0" using ne by (simp add: firstOr_hd lastOr_last)
qed

lemma node_ok_moved:
  assumes "node_ok B t es a nd" "n_dirty nd \<Longrightarrow> c"
  shows "node_ok B t' es a (nd\<lparr>n_next := x, n_prev := y, n_dirty := c, n_threadList := t', n_index := i\<rparr>)"
proof (rule node_okI)
  note D = node_okD[OF assms(1)]
  let ?nd = "nd\<lparr>n_next := x, n_prev := y, n_dirty := c, n_threadList := t', n_index := i\<rparr>"
  show "n_numElements ?nd = card (used ?nd)" using D(6) by simp
  show "used ?nd \<subseteq> {..<n_firstKnownFree ?nd}" using D(7) by simp
  show "used ?nd = {..<n_numElements ?nd}" if "\<not> n_dirty ?nd" using D(9) that assms(2) by auto
  show "n_firstKnownFree ?nd = n_numElements ?nd" if "\<not> n_dirty ?nd" using D(10) that assms(2) by auto
qed (use node_okD(1-5,8)[OF assms(1)] in simp_all)

lemma node_ok_movedNode:
  "node_ok B t es a nd \<Longrightarrow>
   node_ok B (if m \<in> set xs2 then dst else n_threadList nd) es a (movedNode dst xs1 xs2 ysf zs yst m i nd)"
  unfolding movedNode_def by (rule node_ok_moved) simp_all

text \<open>
  Transferring the last nodes \<open>xs2\<close> of a list keeps both lists well formed; the elements, at
  their old addresses, now belong to the other list.
\<close>

definition betweenLists :: "addr \<Rightarrow> addr \<Rightarrow> addr set \<Rightarrow> 'e mem \<Rightarrow> 'e mem \<Rightarrow> bool" where
  "betweenLists src dst A s s' \<longleftrightarrow> pumaPageSize s' = pumaPageSize s \<and> PUMA_NODEPAGES s' = PUMA_NODEPAGES s
     \<and> cells s' = cells s \<and> (\<forall>u. u \<noteq> src \<longrightarrow> u \<noteq> dst \<longrightarrow> tlists s' u = tlists s u)
     \<and> (\<forall>u. map_option desc (tlists s' u) = map_option desc (tlists s u))
     \<and> (\<forall>a. a \<notin> A \<longrightarrow> nodeAt s' a = nodeAt s a)
     \<and> (\<forall>a. map_option liveOf (nodeAt s' a) = map_option liveOf (nodeAt s a))"

lemma transferred_list_ok:
  assumes tr: "transferred dst xs1 xs2 ysf zs yst N N'" and ne: "xs2 \<noteq> []"
    and f: "list_ok B src lf N (xs1 @ xs2) ysf" and t: "list_ok B dst lt N zs yst"
    and d: "distinct (xs1 @ xs2 @ ysf @ zs @ yst)" and es: "tl_elementSize lf = tl_elementSize lt"
  shows "list_ok B src (lf\<lparr>tl_head := firstOr (xs1 @ ysf) 0, tl_tail := if xs1 = [] then firstOr ysf 0 else last xs1,
          tl_numElements := \<Sum>m\<leftarrow>xs1. n_numElements (the (N m)), tl_numNodes := length xs1\<rparr>) N' xs1 ysf" (is "list_ok _ _ ?lf' _ _ _")
    and "list_ok B dst (lt\<lparr>tl_head := firstOr (zs @ xs2) 0, tl_tail := last xs2,
          tl_numElements := \<Sum>m\<leftarrow>zs @ xs2. n_numElements (the (N m)), tl_numNodes := length (zs @ xs2)\<rparr>) N' (zs @ xs2) yst" (is "list_ok _ _ ?lt' _ _ _")
proof -
  note F = list_okD[OF f] and T = list_okD[OF t]
  have al: "\<exists>nd. N m = Some nd" if "m \<in> set (xs1 @ xs2 @ ysf @ zs @ yst)" for m
    using that links_alloc[OF F(2), of m] links_alloc[OF T(2), of m] by auto
  have same: "n_active (the (N' m)) = n_active (the (N m)) \<and> n_numElements (the (N' m)) = n_numElements (the (N m))
      \<and> (node_ok B t' es m (the (N m)) \<longrightarrow> node_ok B (if m \<in> set xs2 then dst else n_threadList (the (N m))) es m (the (N' m)))"
    if m: "m \<in> set (xs1 @ xs2 @ ysf @ zs @ yst)" for m t' es
  proof -
    obtain nd where nd: "N m = Some nd" using al[OF m] by blast
    obtain i where i: "N' m = Some (movedNode dst xs1 xs2 ysf zs yst m i nd)" by (rule transferredD[OF tr nd])
    show ?thesis unfolding nd i option.sel movedNode_sel using node_ok_movedNode by blast
  qed
  have tlF: "n_threadList (the (N m)) = src" if "m \<in> set xs1 \<union> set ysf" for m
    using node_okD(3)[OF F(3), of m] that by auto
  have tlT: "n_threadList (the (N m)) = dst" if "m \<in> set zs \<union> set yst" for m
    using node_okD(3)[OF T(3), of m] that by auto
  have idx: "\<forall>i<length xs2. n_index (the (N' (xs2 ! i))) = length zs + i"
    "\<And>m. m \<in> set xs1 \<union> set zs \<Longrightarrow> n_index (the (N' m)) = n_index (the (N m))"
    "xs1 = [] \<and> ysf \<noteq> [] \<longrightarrow> n_index (the (N' (hd ysf))) = 0"
    using tr unfolding transferred_def by blast+
  have sums: "(\<Sum>m\<leftarrow>ms. n_numElements (the (N' m))) = (\<Sum>m\<leftarrow>ms. n_numElements (the (N m)))"
    if "set ms \<subseteq> set (xs1 @ xs2 @ ysf @ zs @ yst)" for ms
    by (rule arg_cong[where f = sum_list], rule map_cong[OF refl]) (use same that in blast)
  have dis: "m \<notin> set xs2" if "m \<in> set xs1 \<union> set ysf \<union> set zs \<union> set yst" for m using that d by auto
  show "list_ok B src ?lf' N' xs1 ysf"
  proof (rule list_okI)
    show "links N' 0 (xs1 @ ysf) 0" by (rule transferred_links(1)[OF tr ne F(2) T(2) d])
    have "map (\<lambda>n. n_index (the (N n))) xs1 = [0..<length xs1]" using F(6) upt_add_eq_append[of 0 "length xs1" "length xs2"] by simp
    moreover have "map (\<lambda>n. n_index (the (N' n))) xs1 = map (\<lambda>n. n_index (the (N n))) xs1"
      by (rule map_cong[OF refl]) (use idx(2) in blast)
    ultimately show "map (\<lambda>n. n_index (the (N' n))) xs1 = [0..<length xs1]" by simp
    show "node_ok B src (tl_elementSize ?lf') m (the (N' m))" if m: "m \<in> set xs1 \<union> set ysf" for m
      using F(3)[of m] same[of m] tlF[OF m] dis[of m] m by auto
    show "n_active (the (N' m))" if "m \<in> set xs1" for m using that F(4)[of m] same[of m] by auto
    show "\<not> n_active (the (N' m)) \<and> n_numElements (the (N' m)) = 0" if "m \<in> set ysf" for m
      using that F(5)[of m] same[of m] by auto
    show "tl_numElements ?lf' = (\<Sum>m\<leftarrow>xs1. n_numElements (the (N' m)))" using sums[of xs1] by simp
    show "distinct (xs1 @ ysf)" using d by auto
    show "n_index (the (N' (hd ysf))) = 0" if "xs1 = []" "ysf \<noteq> []" using that idx(3) by simp
  qed simp_all
  show "list_ok B dst ?lt' N' (zs @ xs2) yst"
  proof (rule list_okI)
    show "links N' 0 ((zs @ xs2) @ yst) 0" by (rule transferred_links(2)[OF tr ne F(2) T(2) d])
    have "map (\<lambda>n. n_index (the (N' n))) zs = map (\<lambda>n. n_index (the (N n))) zs"
      by (rule map_cong[OF refl]) (use idx(2) in blast)
    then have "map (\<lambda>n. n_index (the (N' n))) zs = [0..<length zs]" using T(6) by simp
    moreover have "map (\<lambda>n. n_index (the (N' n))) xs2 = [length zs..<length zs + length xs2]"
      by (rule nth_equalityI) (use idx(1) in simp_all)
    ultimately show "map (\<lambda>n. n_index (the (N' n))) (zs @ xs2) = [0..<length (zs @ xs2)]"
      using upt_add_eq_append[of 0 "length zs" "length xs2"] by simp
    show "node_ok B dst (tl_elementSize ?lt') m (the (N' m))" if m: "m \<in> set (zs @ xs2) \<union> set yst" for m
    proof (cases "m \<in> set xs2")
      case True
      then show ?thesis using F(3)[of m] same[of m] es by simp
    next
      case False
      then show ?thesis using T(3)[of m] same[of m] tlT[of m] m by auto
    qed
    show "n_active (the (N' m))" if "m \<in> set (zs @ xs2)" for m using that F(4)[of m] T(4)[of m] same[of m] by auto
    show "\<not> n_active (the (N' m)) \<and> n_numElements (the (N' m)) = 0" if "m \<in> set yst" for m
      using that T(5)[of m] same[of m] by auto
    show "tl_numElements ?lt' = (\<Sum>m\<leftarrow>zs @ xs2. n_numElements (the (N' m)))" by (subst sums) auto
    show "distinct ((zs @ xs2) @ yst)" using d by auto
  qed (use ne in \<open>simp_all add: firstOr_hd\<close>)
qed

lemma transferred_liveOf:
  assumes "transferred dst xs1 xs2 ysf zs yst N N'"
  shows "map_option liveOf (N' m) = map_option liveOf (N m)"
proof (cases "N m")
  case None
  have "N' m = map_option (movedNode dst xs1 xs2 ysf zs yst m (n_index (the (N' m)))) (N m)"
    using assms unfolding transferred_def by (elim conjE) (erule spec)
  then show ?thesis using None by simp
next
  case (Some nd)
  obtain i where "N' m = Some (movedNode dst xs1 xs2 ysf zs yst m i nd)" by (rule transferredD[OF assms Some])
  then show ?thesis using Some by (simp add: movedNode_sel)
qed

lemma transferNNodes_ok:
  assumes f: "tl_inv s src (xs1 @ xs2) ysf" and t: "tl_inv s dst zs yst" and ne: "src \<noteq> dst" "xs2 \<noteq> []"
    and es: "map_option tl_elementSize (tlists s src) = map_option tl_elementSize (tlists s dst)"
  obtains s' where "transferNNodes (length xs2) src dst s = Inr s'"
    "tl_inv s' src xs1 ysf" "tl_inv s' dst (zs @ xs2) yst"
    "betweenLists src dst (set (xs1 @ xs2 @ ysf @ zs @ yst)) s s'"
proof -
  obtain s' lf lt where run: "transferNNodes (length xs2) src dst s = Inr s'"
    and tr: "transferred dst xs1 xs2 ysf zs yst (nodeAt s) (nodeAt s')"
    and rest: "cells s' = cells s" "pumaPageSize s' = pumaPageSize s" "PUMA_NODEPAGES s' = PUMA_NODEPAGES s"
    and at: "tlists s src = Some lf" "tlists s dst = Some lt"
    and at': "tlists s' = (tlists s)
      (src \<mapsto> lf\<lparr>tl_head := firstOr (xs1 @ ysf) 0, tl_tail := if xs1 = [] then firstOr ysf 0 else last xs1,
          tl_numElements := \<Sum>m\<leftarrow>xs1. n_numElements (the (nodeAt s m)), tl_numNodes := length xs1\<rparr>,
       dst \<mapsto> lt\<lparr>tl_head := firstOr (zs @ xs2) 0, tl_tail := last xs2,
          tl_numElements := \<Sum>m\<leftarrow>zs @ xs2. n_numElements (the (nodeAt s m)), tl_numNodes := length (zs @ xs2)\<rparr>)"
    using transferNNodes_run[OF f t ne] by (elim exE conjE) (rule that)
  have B: "nodeBytes s' = nodeBytes s" "cfg_ok (nodeBytes s)"
    using rest f by (auto simp: nodeBytes_def tl_inv_def)
  have ok: "list_ok (nodeBytes s) src lf (nodeAt s) (xs1 @ xs2) ysf" "list_ok (nodeBytes s) dst lt (nodeAt s) zs yst"
    using f t at by (auto simp: tl_inv_def)
  have d: "distinct (xs1 @ xs2 @ ysf @ zs @ yst)"
    using list_ok_distinct[OF ok(1)] list_ok_distinct[OF ok(2)] lists_disjoint[OF ok ne(1)] by auto
  have es': "tl_elementSize lf = tl_elementSize lt" using es at by simp
  note L = transferred_list_ok[OF tr ne(2) ok d es']
  show thesis
  proof (rule that[OF run])
    show "tl_inv s' src xs1 ysf" unfolding tl_inv_def B(1) using B(2) L(1) ne(1) by (simp add: at')
    show "tl_inv s' dst (zs @ xs2) yst" unfolding tl_inv_def B(1) using B(2) L(2) by (simp add: at')
    have "nodeAt s' a = nodeAt s a" if "a \<notin> set (xs1 @ xs2 @ ysf @ zs @ yst)" for a
      using tr that unfolding transferred_def by blast
    moreover have "map_option desc (tlists s' u) = map_option desc (tlists s u)" for u
      using at by (simp add: at' desc_upd)
    ultimately show "betweenLists src dst (set (xs1 @ xs2 @ ysf @ zs @ yst)) s s'"
      unfolding betweenLists_def using rest transferred_liveOf[OF tr] by (simp add: at')
  qed
qed

lemma betweenLists_liveAddrs: "betweenLists src dst A s s' \<Longrightarrow> set ns \<subseteq> {a. nodeAt s a \<noteq> None} \<Longrightarrow> liveAddrs (nodeAt s') ns = liveAddrs (nodeAt s) ns"
proof (rule liveAddrs_cong)
  fix n
  assume h: "betweenLists src dst A s s'" "set ns \<subseteq> {a. nodeAt s a \<noteq> None}" "n \<in> set ns"
  then obtain nd where "nodeAt s n = Some nd" by auto
  moreover have "map_option liveOf (nodeAt s' n) = map_option liveOf (nodeAt s n)" using h(1) unfolding betweenLists_def by blast
  ultimately show "liveOf (the (nodeAt s' n)) = liveOf (the (nodeAt s n))" by (cases "nodeAt s' n") simp_all
qed

section \<open>Counting the active nodes\<close>

lemma countNodesLoop_ok:
  assumes "links N p (xs @ ys) 0" "N = nodeAt s" "0 \<notin> set (xs @ ys)" "length xs < fuel" "c + length xs < 2 ^ 64"
    and "\<And>m. m \<in> set xs \<Longrightarrow> n_active (the (N m))" "\<And>m. m \<in> set ys \<Longrightarrow> \<not> n_active (the (N m))"
  shows "countNodesLoop fuel (firstOr (xs @ ys) 0) c s = Inr (c + length xs)"
  using assms
proof (induction xs arbitrary: p fuel c)
  case Nil
  then obtain fuel' where "fuel = Suc fuel'" by (cases fuel) auto
  then show ?case
  proof (cases ys)
    case (Cons y ys')
    then obtain nd where "nodeAt s y = Some nd" using Nil.prems(1,2) by auto
    then show ?thesis using Nil.prems(2) Nil.prems(7)[of y] Cons \<open>fuel = Suc fuel'\<close> by (simp add: deref_simps)
  qed simp
next
  case (Cons x xs)
  then obtain fuel' where fuel: "fuel = Suc fuel'" by (cases fuel) auto
  from Cons.prems obtain nd where nd: "nodeAt s x = Some nd" "n_next nd = firstOr (xs @ ys) 0" and l: "links N x (xs @ ys) 0" by auto
  have "n_active nd" "x \<noteq> 0" using Cons.prems(6)[of x] Cons.prems nd(1) by auto
  then have "countNodesLoop fuel (firstOr ((x # xs) @ ys) 0) c s = countNodesLoop fuel' (firstOr (xs @ ys) 0) (Suc c) s"
    using nd Cons.prems(5) by (simp add: fuel deref_simps sz_add_exact)
  also have "\<dots> = Inr (Suc c + length xs)"
    by (rule Cons.IH[OF l Cons.prems(2)]) (use Cons.prems fuel in auto)
  finally show ?case by simp
qed

theorem countNodes_ok:
  assumes "tl_inv s t xs ys"
  shows "countNodes t s = Inr (length xs)" "map_option tl_numNodes (tlists s t) = Some (length xs)"
proof -
  from assms obtain l where B: "cfg_ok (nodeBytes s)" and l: "tlists s t = Some l"
    and ok: "list_ok (nodeBytes s) t l (nodeAt s) xs ys" by (rule tl_invE)
  note D = list_okD[OF ok]
  have "countNodesLoop (Suc (fcard (fmdom (nodes s)))) (firstOr (xs @ ys) 0) 0 s = Inr (0 + length xs)"
  proof (rule countNodesLoop_ok[OF D(2) refl])
    show "0 \<notin> set (xs @ ys)" using list_ok_nz[OF ok, of 0] by auto
  qed (use D(4,5) list_ok_length[OF ok] list_ok_bounds(1)[OF ok B] in auto)
  then show "countNodes t s = Inr (length xs)" using l D(8) by (simp add: countNodes_def deref_simps del: countNodesLoop.simps)
  show "map_option tl_numNodes (tlists s t) = Some (length xs)" using l D(10) by simp
qed

end
