(* ===== verification/PumaDomain.thy ===== *)
theory PumaDomain
  imports PumaAlloc
begin

text \<open>
  NUMA domains and where the list of a thread lies: \<open>src/internal/pumadomain.c\<close>,
  \<open>numalloc_on_node\<close> of \<open>src/internal/numa.c\<close> and \<open>_getListForCurrentThread\<close> of
  \<open>src/internal/pumathreadlist.c\<close>. The machine (libnuma, \<open>sysconf\<close>, the CPU a worker is bound
  to) is a parameter.
\<close>

section \<open>The platform\<close>

text \<open>
  \<open>NNUMA\<close> is the build option; \<open>numa_node_of_cpu\<close> returns -1 for a CPU that there is not;
  \<open>numa_node_to_cpus P d\<close> is the CPU mask after libnuma was asked to fill it in for node \<open>d\<close>,
  \<open>cpumaskSize\<close> the size of that mask, \<open>cpuNum P tid\<close> what \<open>pumaGetCPUNum\<close> returns in worker \<open>tid\<close>.
\<close>

record platform =
  NNUMA :: bool
  numa_node_of_cpu :: "nat \<Rightarrow> int"
  numa_node_to_cpus :: "int \<Rightarrow> nat \<Rightarrow> bool"
  cpumaskSize :: nat
  numa_bitmask_weight :: "nat \<Rightarrow> (nat \<Rightarrow> bool) \<Rightarrow> nat"
  numa_num_configured_nodes :: nat
  NPROCESSORS_ONLN :: nat
  PAGESIZE :: nat
  cpuNum :: "nat \<Rightarrow> nat"

text \<open>
  What the libnuma manual page says of these functions: the weight of a mask is its number of set
  bits, and the mask of the node of a CPU has the CPUs of that node. It does not say that every CPU
  of a mask exists, nor that the number of a node is below the number of nodes.
\<close>

definition platform_ok :: "platform \<Rightarrow> bool" where
  "platform_ok P \<longleftrightarrow>
     (\<forall>n f. numa_bitmask_weight P n f = card {i. i < n \<and> f i})
   \<and> (\<forall>c<cpumaskSize P. 0 \<le> numa_node_of_cpu P c \<longrightarrow>
        (\<forall>c'<cpumaskSize P. numa_node_to_cpus P (numa_node_of_cpu P c) c' \<longleftrightarrow> numa_node_of_cpu P c' = numa_node_of_cpu P c))"

section \<open>Operations\<close>

definition getCurrentNumaDomain :: "platform \<Rightarrow> nat \<Rightarrow> int" where
  "getCurrentNumaDomain P tid = (if NNUMA P then 0 else numa_node_of_cpu P (cpuNum P tid))"

text \<open>The mask is cut off at the worker's CPU before its bits are counted.\<close>

definition getCurrentCPUIndexInDomain :: "platform \<Rightarrow> nat \<Rightarrow> nat" where
  "getCurrentCPUIndexInDomain P tid =
     (if NNUMA P then tid
      else let cpu = cpuNum P tid; node = numa_node_of_cpu P cpu
           in numa_bitmask_weight P cpu (numa_node_to_cpus P node))"

definition getNumDomains :: "platform \<Rightarrow> nat" where
  "getNumDomains P = (if NNUMA P then 1 else numa_num_configured_nodes P)"

definition getNumCPUs :: "platform \<Rightarrow> nat" where
  "getNumCPUs P = NPROCESSORS_ONLN P"

definition getNumCPUsInDomain :: "platform \<Rightarrow> int \<Rightarrow> nat" where
  "getNumCPUsInDomain P domain =
     (if NNUMA P then getNumCPUs P
      else numa_bitmask_weight P (cpumaskSize P) (numa_node_to_cpus P domain))"

record pumaDomain =
  numListsInDomain :: nat
  listsInDomain :: addr

text \<open>\<open>sizeof(struct pumaThreadList)\<close> on LP64; the address of entry \<open>i\<close> of a domain's array.\<close>

definition sizeof_pumaThreadList :: nat where
  "sizeof_pumaThreadList = 144"

definition listSlot :: "pumaDomain \<Rightarrow> nat \<Rightarrow> addr" where
  "listSlot d i = sz_add (listsInDomain d) (sz_mul i sizeof_pumaThreadList)"

text \<open>A list of zero bytes.\<close>

definition zeroList :: pumaThreadList where
  "zeroList = \<lparr>tl_head = 0, tl_tail = 0, tl_numElements = 0, tl_numNodes = 0, tl_active = False,
     tl_numaDomain = 0, tl_elementSize = 0, tl_tid = 0\<rparr>"

text \<open>
  \<open>numalloc_on_node\<close> is \<open>posix_memalign\<close> followed by \<open>mbind\<close>: a parameter that gives the address
  for a domain, the memory and a size, or none. The result of a failed allocation is used.
\<close>

type_synonym 'e numalloc = "nat \<Rightarrow> 'e mem \<Rightarrow> nat \<Rightarrow> addr option"

fun zeroLists :: "pumaDomain \<Rightarrow> nat \<Rightarrow> 'e mem \<Rightarrow> 'e mem" where
  "zeroLists d 0 s = s"
| "zeroLists d (Suc i) s = putList (listSlot d i) zeroList (zeroLists d i s)"

definition initDomain :: "'e numalloc \<Rightarrow> platform \<Rightarrow> nat \<Rightarrow> 'e mem \<Rightarrow> c_fault + (pumaDomain \<times> 'e mem)" where
  "initDomain na P domainNumber s =
     (let domNumCores = getNumCPUsInDomain P (int domainNumber);
          domListSize = getSmallestContainingPages s (sz_mul domNumCores sizeof_pumaThreadList)
      in case na domainNumber s domListSize of
           None \<Rightarrow> Inl OutOfMemory
         | Some a \<Rightarrow> let d = \<lparr>numListsInDomain = domNumCores, listsInDomain = a\<rparr>
                     in Inr (d, zeroLists d domNumCores s))"

fun dropLists :: "pumaDomain \<Rightarrow> nat \<Rightarrow> 'e mem \<Rightarrow> 'e mem" where
  "dropLists d 0 s = s"
| "dropLists d (Suc i) s = (let s1 = dropLists d i s in s1\<lparr>tlists := (tlists s1)(listSlot d i := None)\<rparr>)"

definition destroyDomain :: "pumaDomain \<Rightarrow> 'e mem \<Rightarrow> 'e mem" where
  "destroyDomain d s = dropLists d (numListsInDomain d) s"

section \<open>Rounding up to whole pages\<close>

theorem getSmallestContainingPages_exact:
  assumes P: "pumaPageSize s = 2 ^ k" "k < 64" and sz: "sz + 2 ^ k < 2 ^ 64"
  shows "getSmallestContainingPages s sz = (if sz mod 2 ^ k = 0 then sz else (sz div 2 ^ k + 1) * 2 ^ k)"
proof -
  have al: "unat ((of_nat sz :: 64 word) AND NOT (of_nat (pumaPageSize s) - 1)) = sz - sz mod 2 ^ k"
    using align_down[OF P(2), of sz] sz P(1) by simp
  have m: "sz - sz mod 2 ^ k = sz div 2 ^ k * 2 ^ k" by (simp add: minus_mod_eq_div_mult)
  show ?thesis
  proof (cases "sz mod 2 ^ k = 0")
    case True
    have "sz < 2 ^ 64" using sz by linarith
    then show ?thesis unfolding getSmallestContainingPages_def Let_def al True by (simp add: sz_add_exact sz_mul_exact)
  next
    case False
    have "sz mod 2 ^ k \<le> sz" by simp
    then have "sz - sz mod 2 ^ k < sz" using False by linarith
    then have n: "(sz - sz mod 2 ^ k \<noteq> sz) = True" by simp
    have "sz - sz mod 2 ^ k + 2 ^ k < 2 ^ 64" "(2 :: nat) ^ k < 2 ^ 64" using sz by linarith+
    then have "sz_add (sz - sz mod 2 ^ k) (sz_mul (c_bool True) (pumaPageSize s)) = sz - sz mod 2 ^ k + 2 ^ k"
      unfolding P(1) by (simp add: sz_add_exact sz_mul_exact)
    then show ?thesis unfolding getSmallestContainingPages_def Let_def al n using False unfolding m by simp
  qed
qed

section \<open>Every worker has a list of its own\<close>

lemma card_below: "card {i. i < (n :: nat) \<and> f i} = card {i\<in>{..<n}. f i}"
  by (rule arg_cong[where f = card]) auto

text \<open>The index of a CPU among those of its node: below their number, different for different CPUs.\<close>

lemma index_in_domain:
  assumes ok: "platform_ok P" "\<not> NNUMA P" and c: "cpuNum P tid < cpumaskSize P" "0 \<le> getCurrentNumaDomain P tid"
  shows "getCurrentCPUIndexInDomain P tid < getNumCPUsInDomain P (getCurrentNumaDomain P tid)"
proof -
  let ?c = "cpuNum P tid"
  let ?f = "numa_node_to_cpus P (numa_node_of_cpu P ?c)"
  have "?f ?c" using ok c by (auto simp: platform_ok_def getCurrentNumaDomain_def)
  then have "{i. i < ?c \<and> ?f i} \<subset> {i. i < cpumaskSize P \<and> ?f i}" using c by auto
  then have "card {i. i < ?c \<and> ?f i} < card {i. i < cpumaskSize P \<and> ?f i}" by (rule psubset_card_mono[rotated]) simp
  then show ?thesis
    using ok by (simp add: getCurrentCPUIndexInDomain_def getNumCPUsInDomain_def getCurrentNumaDomain_def platform_ok_def Let_def)
qed

lemma index_differs:
  assumes ok: "platform_ok P" "\<not> NNUMA P" and c: "cpuNum P i < cpuNum P j" "cpuNum P j < cpumaskSize P"
    and same: "getCurrentNumaDomain P i = getCurrentNumaDomain P j" "0 \<le> getCurrentNumaDomain P i"
  shows "getCurrentCPUIndexInDomain P i < getCurrentCPUIndexInDomain P j"
proof -
  let ?i = "cpuNum P i" and ?j = "cpuNum P j"
  let ?f = "numa_node_to_cpus P (numa_node_of_cpu P ?i)"
  have n: "numa_node_of_cpu P ?j = numa_node_of_cpu P ?i" using same ok by (simp add: getCurrentNumaDomain_def)
  have "?f ?i" using ok c same(2) by (auto simp: platform_ok_def getCurrentNumaDomain_def)
  then have "{k. k < ?i \<and> ?f k} \<subset> {k. k < ?j \<and> ?f k}" using c by auto
  then have "card {k. k < ?i \<and> ?f k} < card {k. k < ?j \<and> ?f k}" by (rule psubset_card_mono[rotated]) simp
  then show ?thesis
    using ok n by (simp add: getCurrentCPUIndexInDomain_def platform_ok_def Let_def)
qed

theorem own_slot:
  assumes ok: "platform_ok P" "\<not> NNUMA P" and c: "cpuNum P i \<noteq> cpuNum P j" "cpuNum P i < cpumaskSize P" "cpuNum P j < cpumaskSize P"
    and dom: "0 \<le> getCurrentNumaDomain P i"
  shows "(getCurrentNumaDomain P i, getCurrentCPUIndexInDomain P i) \<noteq> (getCurrentNumaDomain P j, getCurrentCPUIndexInDomain P j)"
proof
  assume "(getCurrentNumaDomain P i, getCurrentCPUIndexInDomain P i) = (getCurrentNumaDomain P j, getCurrentCPUIndexInDomain P j)"
  then have e: "getCurrentNumaDomain P i = getCurrentNumaDomain P j" "getCurrentCPUIndexInDomain P i = getCurrentCPUIndexInDomain P j" by simp_all
  show False
    using c(1) index_differs[OF ok _ c(3) e(1) dom] index_differs[OF ok _ c(2) e(1)[symmetric] dom[unfolded e(1)]] e(2)
    by (cases "cpuNum P i < cpuNum P j") auto
qed

text \<open>
  Enough lists for \<open>n\<close> workers, one each. With NUMA support, for workers bound to different CPUs, this
  is a question of the nodes only: the arrays of lists are indexed by node numbers, and there are as
  many as there are nodes. Without, it holds exactly when there are no more workers than online CPUs.
\<close>

definition slots_ok :: "platform \<Rightarrow> nat \<Rightarrow> bool" where
  "slots_ok P n \<longleftrightarrow>
     (\<forall>i<n. 0 \<le> getCurrentNumaDomain P i \<and> getCurrentNumaDomain P i < int (getNumDomains P)
        \<and> getCurrentCPUIndexInDomain P i < getNumCPUsInDomain P (getCurrentNumaDomain P i))
   \<and> (\<forall>i<n. \<forall>j<n. i \<noteq> j \<longrightarrow>
        (getCurrentNumaDomain P i, getCurrentCPUIndexInDomain P i) \<noteq> (getCurrentNumaDomain P j, getCurrentCPUIndexInDomain P j))"

theorem slots_ok_NUMA:
  assumes ok: "platform_ok P" "\<not> NNUMA P" and c: "\<And>i. i < n \<Longrightarrow> cpuNum P i < cpumaskSize P" and inj: "inj_on (cpuNum P) {..<n}"
  shows "slots_ok P n \<longleftrightarrow> (\<lambda>i. numa_node_of_cpu P (cpuNum P i)) ` {..<n} \<subseteq> {0..<int (numa_num_configured_nodes P)}"
proof
  have d: "getCurrentNumaDomain P i = numa_node_of_cpu P (cpuNum P i)" "getNumDomains P = numa_num_configured_nodes P" for i
    using ok(2) by (simp_all add: getCurrentNumaDomain_def getNumDomains_def)
  show "slots_ok P n \<Longrightarrow> (\<lambda>i. numa_node_of_cpu P (cpuNum P i)) ` {..<n} \<subseteq> {0..<int (numa_num_configured_nodes P)}"
    by (auto simp: slots_ok_def d)
  assume s: "(\<lambda>i. numa_node_of_cpu P (cpuNum P i)) ` {..<n} \<subseteq> {0..<int (numa_num_configured_nodes P)}"
  then have dom: "0 \<le> getCurrentNumaDomain P i" "getCurrentNumaDomain P i < int (getNumDomains P)" if "i < n" for i
    using that by (auto simp: d)
  show "slots_ok P n"
    unfolding slots_ok_def
  proof (intro conjI allI impI)
    show "getCurrentCPUIndexInDomain P i < getNumCPUsInDomain P (getCurrentNumaDomain P i)" if "i < n" for i
      by (rule index_in_domain[OF ok c[OF that] dom(1)[OF that]])
    show "(getCurrentNumaDomain P i, getCurrentCPUIndexInDomain P i) \<noteq> (getCurrentNumaDomain P j, getCurrentCPUIndexInDomain P j)"
      if h: "i < n" "j < n" "i \<noteq> j" for i j
    proof (rule own_slot[OF ok _ c[OF h(1)] c[OF h(2)] dom(1)[OF h(1)]])
      show "cpuNum P i \<noteq> cpuNum P j" using inj h by (auto simp: inj_on_def)
    qed
  qed (use dom in auto)
qed

theorem slots_ok_NNUMA:
  assumes "NNUMA P"
  shows "slots_ok P n \<longleftrightarrow> n \<le> NPROCESSORS_ONLN P"
proof -
  have s: "getCurrentNumaDomain P i = 0" "getCurrentCPUIndexInDomain P i = i" "getNumCPUsInDomain P d = NPROCESSORS_ONLN P"
    "getNumDomains P = 1" for i d
    using assms by (simp_all add: getCurrentNumaDomain_def getCurrentCPUIndexInDomain_def getNumCPUsInDomain_def
      getNumCPUs_def getNumDomains_def)
  show ?thesis unfolding slots_ok_def s by (cases n) (auto simp: less_Suc_eq_le intro: le_trans)
qed

section \<open>The lists of a domain\<close>

lemma zeroLists_simps [simp]:
  "nodes (zeroLists d n s) = nodes s" "cells (zeroLists d n s) = cells s"
  "pumaPageSize (zeroLists d n s) = pumaPageSize s" "PUMA_NODEPAGES (zeroLists d n s) = PUMA_NODEPAGES s"
  by (induction n) (simp_all add: putList_def)

lemma zeroLists_lookup: "tlists (zeroLists d n s) u = (if \<exists>i<n. u = listSlot d i then Some zeroList else tlists s u)"
  by (induction n) (auto simp: putList_def less_Suc_eq)

lemma dropLists_lookup: "tlists (dropLists d n s) u = (if \<exists>i<n. u = listSlot d i then None else tlists s u)"
  by (induction n) (auto simp: Let_def less_Suc_eq)

text \<open>\<open>posix_memalign\<close> gives memory that no list occupies.\<close>

definition numalloc_spec :: "'e numalloc \<Rightarrow> bool" where
  "numalloc_spec na \<longleftrightarrow> (\<forall>dn s sz a. na dn s sz = Some a \<longrightarrow>
     0 < a \<and> a + sz \<le> 2 ^ 64 \<and> (\<forall>u. tlists s u \<noteq> None \<longrightarrow> u + sizeof_pumaThreadList \<le> a \<or> a + sz \<le> u))"

lemma listSlot_exact:
  assumes "listsInDomain d + numListsInDomain d * sizeof_pumaThreadList \<le> 2 ^ 64" "i < numListsInDomain d"
  shows "listSlot d i = listsInDomain d + i * sizeof_pumaThreadList"
    and "listSlot d i + sizeof_pumaThreadList \<le> listsInDomain d + numListsInDomain d * sizeof_pumaThreadList"
proof -
  have "Suc i * sizeof_pumaThreadList \<le> numListsInDomain d * sizeof_pumaThreadList"
    using assms(2) by (intro mult_le_mono1) simp
  then have b: "listsInDomain d + i * sizeof_pumaThreadList + sizeof_pumaThreadList
      \<le> listsInDomain d + numListsInDomain d * sizeof_pumaThreadList" by simp
  moreover have "sizeof_pumaThreadList = 144" by (simp add: sizeof_pumaThreadList_def)
  ultimately have "listsInDomain d + i * sizeof_pumaThreadList < 2 ^ 64" using assms(1) by linarith
  then show "listSlot d i = listsInDomain d + i * sizeof_pumaThreadList"
    by (simp add: listSlot_def sz_mul_exact sz_add_exact)
  then show "listSlot d i + sizeof_pumaThreadList \<le> listsInDomain d + numListsInDomain d * sizeof_pumaThreadList"
    using b by simp
qed

text \<open>The array of a domain lies in one piece of memory of its own.\<close>

lemma initDomain_ok:
  assumes na: "numalloc_spec na" and pg: "pumaPageSize s = 2 ^ k" "k < 64"
    and sz: "getNumCPUsInDomain P (int dn) * sizeof_pumaThreadList + 2 ^ k < 2 ^ 64"
    and run: "initDomain na P dn s = Inr (d, s')"
  shows "numListsInDomain d = getNumCPUsInDomain P (int dn)" "s' = zeroLists d (numListsInDomain d) s"
    and "0 < listsInDomain d" "listsInDomain d + numListsInDomain d * sizeof_pumaThreadList \<le> 2 ^ 64"
    and "\<And>u. tlists s u \<noteq> None \<Longrightarrow> u + sizeof_pumaThreadList \<le> listsInDomain d
      \<or> listsInDomain d + numListsInDomain d * sizeof_pumaThreadList \<le> u"
proof -
  let ?n = "getNumCPUsInDomain P (int dn)"
  let ?b = "?n * sizeof_pumaThreadList"
  have e: "sz_mul ?n sizeof_pumaThreadList = ?b" using sz by (simp add: sz_mul_exact)
  define bytes where "bytes = getSmallestContainingPages s ?b"
  obtain a where a: "na dn s bytes = Some a" "d = \<lparr>numListsInDomain = ?n, listsInDomain = a\<rparr>" "s' = zeroLists d ?n s"
    using run by (auto simp: initDomain_def e bytes_def Let_def split: option.splits)
  have "?b \<le> bytes"
  proof (cases "?b mod 2 ^ k = 0")
    case False
    have "?b div 2 ^ k * 2 ^ k + ?b mod 2 ^ k = ?b" by (rule div_mult_mod_eq)
    moreover have "?b mod 2 ^ k < 2 ^ k" by simp
    ultimately have "?b \<le> (?b div 2 ^ k + 1) * 2 ^ k" by (simp only: add_mult_distrib mult_1)
    then show ?thesis using False unfolding bytes_def getSmallestContainingPages_exact[OF pg sz] by simp
  qed (simp add: bytes_def getSmallestContainingPages_exact[OF pg sz])
  moreover have "0 < a \<and> a + bytes \<le> 2 ^ 64 \<and> (\<forall>u. tlists s u \<noteq> None \<longrightarrow> u + sizeof_pumaThreadList \<le> a \<or> a + bytes \<le> u)"
    using na a(1) unfolding numalloc_spec_def by blast
  ultimately show "numListsInDomain d = ?n" "s' = zeroLists d (numListsInDomain d) s"
    "0 < listsInDomain d" "listsInDomain d + numListsInDomain d * sizeof_pumaThreadList \<le> 2 ^ 64"
    "\<And>u. tlists s u \<noteq> None \<Longrightarrow> u + sizeof_pumaThreadList \<le> listsInDomain d
      \<or> listsInDomain d + numListsInDomain d * sizeof_pumaThreadList \<le> u"
    using a(2,3) by (auto, linarith?)
qed

end
