(* ===== verification/PumaSet.thy ===== *)
theory PumaSet
  imports PumaDomain
begin

text \<open>
  Sets of elements spread over the lists of the workers: \<open>src/pumaset.c\<close> and
  \<open>_getListForCurrentThread\<close> of \<open>src/internal/pumathreadlist.c\<close>. Jobs on the thread pool are
  run for the workers one after the other, in any order.
\<close>

section \<open>Jobs\<close>

text \<open>A job \<open>f\<close> run once for each worker, in the order given; a fault ends the run.\<close>

fun forEach :: "('a \<Rightarrow> 's \<Rightarrow> c_fault + 's) \<Rightarrow> 'a list \<Rightarrow> 's \<Rightarrow> c_fault + 's" where
  "forEach f [] s = Inr s"
| "forEach f (x # xs) s = bindE (f x s) (forEach f xs)"

lemma forEach_append [simp]: "forEach f (xs @ ys) s = bindE (forEach f xs s) (forEach f ys)"
  by (induction xs arbitrary: s) (auto simp: bindE_def split: sum.split)

lemma forEach_rule:
  assumes "I [] s" and step: "\<And>ds x es s. xs = ds @ x # es \<Longrightarrow> I ds s \<Longrightarrow> \<exists>s'. f x s = Inr s' \<and> I (ds @ [x]) s'"
  shows "\<exists>s'. forEach f xs s = Inr s' \<and> I xs s'"
proof -
  have "\<exists>s'. forEach f us s = Inr s' \<and> I us s'" if "\<exists>vs. xs = us @ vs" for us
    using that
  proof (induction us rule: rev_induct)
    case Nil
    then show ?case using assms(1) by simp
  next
    case (snoc u us)
    then obtain vs where xs: "xs = us @ u # vs" by auto
    then obtain s1 where "forEach f us s = Inr s1" "I us s1" using snoc.IH by auto
    then obtain s2 where "f u s1 = Inr s2" "I (us @ [u]) s2" using step[OF xs] by blast
    then show ?case using \<open>forEach f us s = Inr s1\<close> by (simp add: bindE_def)
  qed
  then show ?thesis by simp
qed

section \<open>The state of a set\<close>

text \<open>The public and private members of \<open>struct pumaSet\<close>; its thread pool is not part of it.\<close>

record ('b, 'd) pumaSet =
  ps_elementSize :: nat
  domains :: "pumaDomain list"
  numDomains :: nat
  numCores :: nat
  numThreads :: nat
  tidToThreadList :: "addr list"
  autoBalance :: bool
  splitter :: "('b \<Rightarrow> nat \<Rightarrow> 'd option \<Rightarrow> nat) option"
  splitterExtraData :: "'d option"

section \<open>Operations\<close>

definition getListForCurrentThread :: "platform \<Rightarrow> ('b, 'd) pumaSet \<Rightarrow> nat \<Rightarrow> c_fault + addr" where
  "getListForCurrentThread P ps tid =
     (let domainNumber = getCurrentNumaDomain P tid
      in if 0 \<le> domainNumber \<and> domainNumber < int (length (domains ps))
         then Inr (listSlot (domains ps ! nat domainNumber) (getCurrentCPUIndexInDomain P tid))
         else Inl (OutOfBounds (nat (domainNumber mod 2 ^ 64))))"

definition setupThreadListsWorker ::
  "platform \<Rightarrow> nat \<Rightarrow> ('b, 'd) pumaSet \<times> 'e mem \<Rightarrow> c_fault + ('b, 'd) pumaSet \<times> 'e mem" where
  "setupThreadListsWorker P tid = (\<lambda>(ps, s).
     bindE (getListForCurrentThread P ps tid) (\<lambda>t.
     bindE (updList t (\<lambda>l. l\<lparr>tl_active := True, tl_numaDomain := getCurrentNumaDomain P tid, tl_tid := tid\<rparr>) s) (\<lambda>s1.
     if tid < length (tidToThreadList ps)
     then bindE (updList t (\<lambda>l. l\<lparr>tl_elementSize := ps_elementSize ps\<rparr>) s1) (\<lambda>s2.
          Inr (ps\<lparr>tidToThreadList := (tidToThreadList ps)[tid := t]\<rparr>, s2))
     else Inl (OutOfBounds tid))))"

definition pumaSetBalancer ::
  "('b, 'd) pumaSet \<Rightarrow> bool \<Rightarrow> ('b \<Rightarrow> nat \<Rightarrow> 'd option \<Rightarrow> nat) option \<Rightarrow> 'd option \<Rightarrow> ('b, 'd) pumaSet" where
  "pumaSetBalancer ps auto sp ed = ps\<lparr>autoBalance := auto, splitter := sp, splitterExtraData := ed\<rparr>"

text \<open>
  The domains in turn; \<open>createPumaSet\<close> on a thread pool whose workers run in \<open>order\<close>. The code
  leaves the splitter and its data uninitialised; they are \<open>None\<close> here.
\<close>

definition initDomains :: "'e numalloc \<Rightarrow> platform \<Rightarrow> 'e mem \<Rightarrow> c_fault + (pumaDomain list \<times> 'e mem)" where
  "initDomains na P s =
     forEach (\<lambda>i (ds, s). bindE (initDomain na P i s) (\<lambda>(d, s'). Inr (ds @ [d], s'))) [0..<getNumDomains P] ([], s)"

definition createPumaSet ::
  "'e numalloc \<Rightarrow> platform \<Rightarrow> nat list \<Rightarrow> nat \<Rightarrow> nat \<Rightarrow> 'e mem \<Rightarrow> c_fault + ('b, 'd) pumaSet \<times> 'e mem" where
  "createPumaSet na P order elementSize nThreads s =
     (let s1 = (if pumaPageSize s = 0 then s\<lparr>pumaPageSize := PAGESIZE P\<rparr> else s)
      in bindE (initDomains na P s1) (\<lambda>(ds, s2).
         forEach (setupThreadListsWorker P) order
           (\<lparr>ps_elementSize = elementSize, domains = ds, numDomains = getNumDomains P, numCores = getNumCPUs P,
             numThreads = nThreads, tidToThreadList = replicate nThreads 0, autoBalance = True,
             splitter = None, splitterExtraData = None\<rparr>, s2)))"

text \<open>The code asks the pool for the number of sums; here it is that of the set, which its pool was created for.\<close>

definition getNumElementsWorker ::
  "platform \<Rightarrow> ('b, 'd) pumaSet \<Rightarrow> 'e mem \<Rightarrow> nat \<Rightarrow> nat list \<Rightarrow> c_fault + nat list" where
  "getNumElementsWorker P ps s tid sums =
     bindE (getListForCurrentThread P ps tid) (\<lambda>t.
     bindE (derefList s t) (\<lambda>l.
     if tid < length sums then Inr (sums[tid := sz_add (sums ! tid) (tl_numElements l)]) else Inl (OutOfBounds tid)))"

definition getNumElements :: "platform \<Rightarrow> nat list \<Rightarrow> ('b, 'd) pumaSet \<Rightarrow> 'e mem \<Rightarrow> c_fault + nat" where
  "getNumElements P order ps s =
     bindE (forEach (getNumElementsWorker P ps s) order (replicate (numThreads ps) 0)) (\<lambda>sums.
     Inr (foldl sz_add 0 sums))"

text \<open>\<open>_destroyThreadListWorker\<close>: every node from the head on is freed; a unit of fuel is one node.\<close>

fun destroyNodes :: "nat \<Rightarrow> addr \<Rightarrow> 'e mem \<Rightarrow> c_fault + 'e mem" where
  "destroyNodes 0 currentNode s = Inl OutOfFuel"
| "destroyNodes (Suc fuel) currentNode s =
     (if currentNode = 0 then Inr s
      else bindE (derefNode s currentNode) (\<lambda>nd. destroyNodes fuel (n_next nd) (dropNode currentNode s)))"

definition destroyThreadListWorker :: "platform \<Rightarrow> ('b, 'd) pumaSet \<Rightarrow> nat \<Rightarrow> 'e mem \<Rightarrow> c_fault + 'e mem" where
  "destroyThreadListWorker P ps tid s =
     bindE (getListForCurrentThread P ps tid) (\<lambda>t.
     bindE (derefList s t) (\<lambda>l. destroyNodes (Suc (fcard (fmdom (nodes s)))) (tl_head l) s))"

definition destroyPumaSet :: "platform \<Rightarrow> nat list \<Rightarrow> ('b, 'd) pumaSet \<Rightarrow> 'e mem \<Rightarrow> c_fault + 'e mem" where
  "destroyPumaSet P order ps s =
     bindE (forEach (destroyThreadListWorker P ps) order s) (\<lambda>s1.
     Inr (foldl (\<lambda>s i. destroyDomain (domains ps ! i) s) s1 [0..<numDomains ps]))"

section \<open>The invariant of a set\<close>

text \<open>\<open>L\<close> gives the nodes of the list of each worker, the active and the inactive ones.\<close>

type_synonym layout = "nat \<Rightarrow> addr list \<times> addr list"

definition slotsOf :: "pumaDomain \<Rightarrow> addr list" where
  "slotsOf d = map (listSlot d) [0..<numListsInDomain d]"

definition allSlots :: "('b, 'd) pumaSet \<Rightarrow> addr list" where
  "allSlots ps = concat (map slotsOf (domains ps))"

definition set_inv :: "platform \<Rightarrow> ('b, 'd) pumaSet \<Rightarrow> layout \<Rightarrow> 'e mem \<Rightarrow> bool" where
  "set_inv P ps L s \<longleftrightarrow>
     length (tidToThreadList ps) = numThreads ps \<and> distinct (tidToThreadList ps)
   \<and> length (domains ps) = numDomains ps \<and> distinct (allSlots ps) \<and> set (tidToThreadList ps) \<subseteq> set (allSlots ps)
   \<and> (\<forall>a\<in>set (allSlots ps). \<exists>l. tlists s a = Some l \<and> (tl_active l \<longleftrightarrow> a \<in> set (tidToThreadList ps)))
   \<and> (\<forall>tid<numThreads ps. getListForCurrentThread P ps tid = Inr (tidToThreadList ps ! tid)
        \<and> tl_inv s (tidToThreadList ps ! tid) (fst (L tid)) (snd (L tid))
        \<and> map_option desc (tlists s (tidToThreadList ps ! tid))
            = Some (ps_elementSize ps, True, getCurrentNumaDomain P tid, tid))"

abbreviation nodesOf :: "layout \<Rightarrow> nat \<Rightarrow> addr set" where
  "nodesOf L tid \<equiv> set (fst (L tid)) \<union> set (snd (L tid))"

definition setContents :: "('b, 'd) pumaSet \<Rightarrow> layout \<Rightarrow> 'e mem \<Rightarrow> 'e multiset" where
  "setContents ps L s = (\<Sum>tid<numThreads ps. contents (nodeAt s) (cells s) (fst (L tid)))"

lemma set_invD:
  assumes "set_inv P ps L s"
  shows "length (tidToThreadList ps) = numThreads ps" "distinct (tidToThreadList ps)"
    "length (domains ps) = numDomains ps" "distinct (allSlots ps)" "set (tidToThreadList ps) \<subseteq> set (allSlots ps)"
    "\<And>a. a \<in> set (allSlots ps) \<Longrightarrow> \<exists>l. tlists s a = Some l \<and> (tl_active l \<longleftrightarrow> a \<in> set (tidToThreadList ps))"
    "\<And>tid. tid < numThreads ps \<Longrightarrow> getListForCurrentThread P ps tid = Inr (tidToThreadList ps ! tid)"
    "\<And>tid. tid < numThreads ps \<Longrightarrow> tl_inv s (tidToThreadList ps ! tid) (fst (L tid)) (snd (L tid))"
    "\<And>tid. tid < numThreads ps \<Longrightarrow> map_option desc (tlists s (tidToThreadList ps ! tid))
       = Some (ps_elementSize ps, True, getCurrentNumaDomain P tid, tid)"
  using assms unfolding set_inv_def by blast+

lemma tid_differs:
  assumes "set_inv P ps L s" "i < numThreads ps" "j < numThreads ps"
  shows "tidToThreadList ps ! i = tidToThreadList ps ! j \<longleftrightarrow> i = j"
  using set_invD(1,2)[OF assms(1)] assms(2,3) by (simp add: nth_eq_iff_index_eq)

lemma set_nodes_disjoint:
  assumes inv: "set_inv P ps L s" and ij: "i < numThreads ps" "j < numThreads ps" "i \<noteq> j"
  shows "nodesOf L i \<inter> nodesOf L j = {}"
proof -
  obtain li where "list_ok (nodeBytes s) (tidToThreadList ps ! i) li (nodeAt s) (fst (L i)) (snd (L i))"
    using set_invD(8)[OF inv ij(1)] by (rule tl_invE)
  moreover obtain lj where "list_ok (nodeBytes s) (tidToThreadList ps ! j) lj (nodeAt s) (fst (L j)) (snd (L j))"
    using set_invD(8)[OF inv ij(2)] by (rule tl_invE)
  ultimately show ?thesis
    using lists_disjoint[of _ "tidToThreadList ps ! i" _ _ _ _ "tidToThreadList ps ! j"] tid_differs[OF inv ij(1,2)] ij(3) by simp
qed

lemma tl_inv_allocated: "tl_inv s t xs ys \<Longrightarrow> n \<in> set xs \<union> set ys \<Longrightarrow> nodeAt s n \<noteq> None"
  by (elim tl_invE) (metis list_ok_node option.distinct(1))

text \<open>A step on one list keeps the contents and the invariants of the others.\<close>

lemma framed_contents:
  assumes fr: "framed t A s s'" and inv: "tl_inv s u xs ys" and d: "A \<inter> (set xs \<union> set ys) = {}"
  shows "contents (nodeAt s') (cells s') xs = contents (nodeAt s) (cells s) xs"
proof (rule contents_cong)
  show "liveOf (the (nodeAt s' m)) = liveOf (the (nodeAt s m))" if "m \<in> set xs" for m
    using fr d that by (auto simp: framed_def)
  obtain l where ok: "list_ok (nodeBytes s) u l (nodeAt s) xs ys" using inv by (rule tl_invE)
  show "cells s' a = cells s a" if "m \<in> set xs" "a \<in> liveOf (the (nodeAt s m))" for m a
    using fr d list_ok_live_block[OF ok that] that(1) by (auto simp: framed_def)
qed

locale list_step =
  fixes stp :: "'r \<Rightarrow> addr \<Rightarrow> 'e mem \<Rightarrow> 'e mem \<Rightarrow> addr list \<Rightarrow> addr list \<Rightarrow> addr list \<Rightarrow> addr list \<Rightarrow> bool"
  assumes keeps: "stp r t s s' xs ys xs' ys' \<Longrightarrow> tl_inv s' t xs' ys'"
    and frame: "stp r t s s' xs ys xs' ys' \<Longrightarrow> framed t (set xs \<union> set ys \<union> {a. nodeAt s a = None}) s s'"
begin

lemma others_apart:
  assumes inv: "set_inv P ps L s" and tid: "tid < numThreads ps" "j < numThreads ps" "j \<noteq> tid"
  shows "(nodesOf L tid \<union> {a. nodeAt s a = None}) \<inter> nodesOf L j = {}"
  using set_nodes_disjoint[OF inv tid(1,2)] tid(3) tl_inv_allocated[OF set_invD(8)[OF inv tid(2)]] by blast

lemma set_kept:
  assumes inv: "set_inv P ps L s" and tid: "tid < numThreads ps"
    and st: "stp r (tidToThreadList ps ! tid) s s' (fst (L tid)) (snd (L tid)) xs' ys'"
  shows "set_inv P ps (L(tid := (xs', ys'))) s'"
proof -
  let ?t = "tidToThreadList ps ! tid"
  note D = set_invD[OF inv] and fr = frame[OF st]
  have desc: "map_option desc (tlists s' a) = map_option desc (tlists s a)" for a
    using fr by (cases "a = ?t") (auto simp: framed_def)
  have act: "\<exists>l. tlists s' a = Some l \<and> (tl_active l \<longleftrightarrow> a \<in> set (tidToThreadList ps))" if a: "a \<in> set (allSlots ps)" for a
  proof -
    obtain l where "tlists s a = Some l" "tl_active l \<longleftrightarrow> a \<in> set (tidToThreadList ps)" using D(6)[OF a] by blast
    then show ?thesis using desc[of a] by (cases "tlists s' a") (auto simp: desc_def)
  qed
  have lst: "tl_inv s' (tidToThreadList ps ! j) (fst ((L(tid := (xs', ys'))) j)) (snd ((L(tid := (xs', ys'))) j))"
    if j: "j < numThreads ps" for j
  proof (cases "j = tid")
    case True
    then show ?thesis using keeps[OF st] by simp
  next
    case False
    have "tl_inv s' (tidToThreadList ps ! j) (fst (L j)) (snd (L j))"
    proof (rule framed_tl_inv[OF fr D(8)[OF j]])
      show "tidToThreadList ps ! j \<noteq> ?t" using tid_differs[OF inv j tid] False by simp
      show "(nodesOf L tid \<union> {a. nodeAt s a = None}) \<inter> nodesOf L j = {}" by (rule others_apart[OF inv tid j False])
    qed
    then show ?thesis using False by simp
  qed
  show ?thesis unfolding set_inv_def using D(1-5,7,9) act lst by (simp add: desc)
qed

lemma others_contents:
  assumes inv: "set_inv P ps L s" and tid: "tid < numThreads ps" "j < numThreads ps" "j \<noteq> tid"
    and st: "stp r (tidToThreadList ps ! tid) s s' (fst (L tid)) (snd (L tid)) xs' ys'"
  shows "contents (nodeAt s') (cells s') (fst (L j)) = contents (nodeAt s) (cells s) (fst (L j))"
  by (rule framed_contents[OF frame[OF st] set_invD(8)[OF inv tid(2)] others_apart[OF inv tid]])

lemma setContents_step:
  assumes inv: "set_inv P ps L s" and tid: "tid < numThreads ps"
    and st: "stp r (tidToThreadList ps ! tid) s s' (fst (L tid)) (snd (L tid)) xs' ys'"
  shows "setContents ps (L(tid := (xs', ys'))) s' + contents (nodeAt s) (cells s) (fst (L tid))
    = setContents ps L s + contents (nodeAt s') (cells s') xs'"
proof -
  let ?T = "{..<numThreads ps}" and ?c = "\<lambda>j. contents (nodeAt s) (cells s) (fst (L j))"
  have m: "finite ?T" "tid \<in> ?T" using tid by simp_all
  have "(\<Sum>j\<in>?T - {tid}. contents (nodeAt s') (cells s') (fst ((L(tid := (xs', ys'))) j))) = (\<Sum>j\<in>?T - {tid}. ?c j)"
    by (rule sum.cong) (use others_contents[OF inv tid _ _ st] in auto)
  then show ?thesis
    unfolding setContents_def sum.remove[OF m] by (simp add: add_ac)
qed

end

section \<open>Creating a set\<close>

lemma forEach_rule_err:
  assumes "I [] s" and step: "\<And>ds x es s. xs = ds @ x # es \<Longrightarrow> I ds s \<Longrightarrow>
      (\<exists>s'. f x s = Inr s' \<and> I (ds @ [x]) s') \<or> (\<exists>e. f x s = Inl e \<and> Q e)"
  shows "(\<exists>s'. forEach f xs s = Inr s' \<and> I xs s') \<or> (\<exists>e. forEach f xs s = Inl e \<and> Q e)"
proof -
  have "(\<exists>s'. forEach f us s = Inr s' \<and> I us s') \<or> (\<exists>e. forEach f us s = Inl e \<and> Q e)" if "\<exists>vs. xs = us @ vs" for us
    using that
  proof (induction us rule: rev_induct)
    case Nil
    then show ?case using assms(1) by simp
  next
    case (snoc u us)
    then obtain vs where xs: "xs = us @ u # vs" by auto
    from snoc.IH xs consider (ok) s1 where "forEach f us s = Inr s1" "I us s1" | (err) e where "forEach f us s = Inl e" "Q e" by auto
    then show ?case
    proof cases
      case ok
      then show ?thesis using step[OF xs ok(2)] by (auto simp: bindE_def)
    qed simp
  qed
  then show ?thesis by simp
qed

text \<open>No two lists of the domains share memory.\<close>

definition slotPairs :: "pumaDomain list \<Rightarrow> (nat \<times> nat) set" where
  "slotPairs ds = {(d, k). d < length ds \<and> k < numListsInDomain (ds ! d)}"

definition slotAt :: "pumaDomain list \<Rightarrow> nat \<times> nat \<Rightarrow> addr" where
  "slotAt ds = (\<lambda>(d, k). listSlot (ds ! d) k)"

lemma distinct_pairs: "distinct (concat (map (\<lambda>d. map (Pair d) [0..<f d]) [0..<m]))"
  by (induction m) (auto simp: distinct_map inj_on_def)

lemma slots_pairs:
  "concat (map slotsOf ds) = map (slotAt ds) (concat (map (\<lambda>d. map (Pair d) [0..<numListsInDomain (ds ! d)]) [0..<length ds]))"
proof -
  have "map slotsOf ds = map (\<lambda>d. slotsOf (ds ! d)) [0..<length ds]" by (rule nth_equalityI) simp_all
  then show ?thesis by (simp add: map_concat slotsOf_def slotAt_def comp_def)
qed

lemma slotPairs_set: "set (concat (map (\<lambda>d. map (Pair d) [0..<numListsInDomain (ds ! d)]) [0..<length ds])) = slotPairs ds"
  by (auto simp: slotPairs_def)

lemma slots_distinct: "inj_on (slotAt ds) (slotPairs ds) \<Longrightarrow> distinct (concat (map slotsOf ds))"
  unfolding slots_pairs distinct_map slotPairs_set by (intro conjI distinct_pairs)

lemma slots_set: "set (concat (map slotsOf ds)) = slotAt ds ` slotPairs ds"
  unfolding slots_pairs set_map slotPairs_set ..

lemma slotPairs_snoc: "slotPairs (ds @ [d]) = slotPairs ds \<union> Pair (length ds) ` {..<numListsInDomain d}"
  by (auto simp: slotPairs_def nth_append less_Suc_eq)

lemma slotAt_snoc: "p \<in> slotPairs ds \<Longrightarrow> slotAt (ds @ [d]) p = slotAt ds p" "slotAt (ds @ [d]) (length ds, k) = listSlot d k"
  by (auto simp: slotPairs_def slotAt_def nth_append)

text \<open>After some domains have been set up: their lists are zero, the rest of memory is as before.\<close>

definition domainsUp :: "platform \<Rightarrow> 'e mem \<Rightarrow> pumaDomain list \<Rightarrow> 'e mem \<Rightarrow> bool" where
  "domainsUp P s0 ds s \<longleftrightarrow> (\<forall>d<length ds. numListsInDomain (ds ! d) = getNumCPUsInDomain P (int d))
     \<and> inj_on (slotAt ds) (slotPairs ds)
     \<and> (\<forall>u. tlists s u = (if u \<in> slotAt ds ` slotPairs ds then Some zeroList else tlists s0 u))
     \<and> nodes s = nodes s0 \<and> cells s = cells s0 \<and> pumaPageSize s = pumaPageSize s0 \<and> PUMA_NODEPAGES s = PUMA_NODEPAGES s0"

lemma domainsUp_step:
  assumes na: "numalloc_spec na" and pg: "pumaPageSize s0 = 2 ^ k" "k < 64"
    and sz: "getNumCPUsInDomain P (int (length ds)) * sizeof_pumaThreadList + 2 ^ k < 2 ^ 64"
    and up: "domainsUp P s0 ds s" and run: "initDomain na P (length ds) s = Inr (d, s')"
  shows "domainsUp P s0 (ds @ [d]) s'"
proof -
  have pg': "pumaPageSize s = 2 ^ k" using up pg by (simp add: domainsUp_def)
  note I = initDomain_ok[OF na pg' pg(2) sz run]
  let ?n = "numListsInDomain d"
  have new: "listSlot d i = listsInDomain d + i * sizeof_pumaThreadList"
    "listSlot d i + sizeof_pumaThreadList \<le> listsInDomain d + ?n * sizeof_pumaThreadList" if "i < ?n" for i
    by (rule listSlot_exact[OF I(4) that])+
  have pos: "0 < sizeof_pumaThreadList" by (simp add: sizeof_pumaThreadList_def)
  have apart: "listSlot d i \<noteq> slotAt ds p" if "i < ?n" "p \<in> slotPairs ds" for i p
  proof -
    have "tlists s (slotAt ds p) \<noteq> None" using up that(2) by (simp add: domainsUp_def)
    from I(5)[OF this] show ?thesis using new[OF that(1)] pos by linarith
  qed
  have inj: "inj_on (slotAt (ds @ [d])) (slotPairs (ds @ [d]))"
    unfolding slotPairs_snoc
  proof (rule inj_onI)
    fix p q
    assume p: "p \<in> slotPairs ds \<union> Pair (length ds) ` {..<?n}" and q: "q \<in> slotPairs ds \<union> Pair (length ds) ` {..<?n}"
      and e: "slotAt (ds @ [d]) p = slotAt (ds @ [d]) q"
    have old: "inj_on (slotAt ds) (slotPairs ds)" using up by (simp add: domainsUp_def)
    from p q show "p = q"
    proof (elim UnE imageE)
      assume pq: "p \<in> slotPairs ds" "q \<in> slotPairs ds"
      then show ?thesis using e inj_onD[OF old _ pq] by (simp add: slotAt_snoc)
    next
      fix i assume "p \<in> slotPairs ds" "q = (length ds, i)" "i \<in> {..<?n}"
      then show ?thesis using e apart[of i p] by (simp add: slotAt_snoc)
    next
      fix i assume "q \<in> slotPairs ds" "p = (length ds, i)" "i \<in> {..<?n}"
      then show ?thesis using e apart[of i q] by (simp add: slotAt_snoc)
    next
      fix i j assume ij: "p = (length ds, i)" "i \<in> {..<?n}" "q = (length ds, j)" "j \<in> {..<?n}"
      then show ?thesis using e new(1)[of i] new(1)[of j] pos by (simp add: slotAt_snoc)
    qed
  qed
  have img: "slotAt (ds @ [d]) ` slotPairs (ds @ [d]) = slotAt ds ` slotPairs ds \<union> listSlot d ` {..<?n}"
    unfolding slotPairs_snoc image_Un image_image by (simp add: slotAt_snoc)
  have "tlists s' u = (if u \<in> slotAt (ds @ [d]) ` slotPairs (ds @ [d]) then Some zeroList else tlists s0 u)" for u
    using up unfolding img I(2) zeroLists_lookup by (auto simp: domainsUp_def)
  then show ?thesis
    using up inj I(1) by (auto simp: domainsUp_def I(2) nth_append less_Suc_eq)
qed

lemma initDomains_ok:
  assumes na: "numalloc_spec na" and pg: "pumaPageSize s = 2 ^ k" "k < 64"
    and sz: "\<And>d. d < getNumDomains P \<Longrightarrow> getNumCPUsInDomain P (int d) * sizeof_pumaThreadList + 2 ^ k < 2 ^ 64"
  shows "(\<exists>ds s'. initDomains na P s = Inr (ds, s') \<and> length ds = getNumDomains P \<and> domainsUp P s ds s')
    \<or> initDomains na P s = Inl OutOfMemory \<and> (\<exists>d s1 sz. na d s1 sz = None)"
proof -
  let ?I = "\<lambda>xs (ds, s'). length ds = length xs \<and> domainsUp P s ds s'"
  let ?f = "\<lambda>i (ds, s). bindE (initDomain na P i s) (\<lambda>(d, s'). Inr (ds @ [d], s'))"
  have "(\<exists>s'. forEach ?f [0..<getNumDomains P] ([], s) = Inr s' \<and> ?I [0..<getNumDomains P] s')
    \<or> (\<exists>e. forEach ?f [0..<getNumDomains P] ([], s) = Inl e \<and> e = OutOfMemory \<and> (\<exists>d s1 sz. na d s1 sz = None))"
  proof (rule forEach_rule_err)
    show "?I [] ([], s)" by (simp add: domainsUp_def slotPairs_def)
    fix us x es st
    assume xs: "[0..<getNumDomains P] = us @ x # es" and I: "?I us st"
    obtain ds s1 where st: "st = (ds, s1)" by fastforce
    have "length us < length [0..<getNumDomains P]" unfolding xs by simp
    moreover have "x = [0..<getNumDomains P] ! length us" unfolding xs by simp
    ultimately have x: "x = length us" "x < getNumDomains P" by simp_all
    have up: "domainsUp P s ds s1" "length ds = x" using I st x(1) by simp_all
    show "(\<exists>s'. ?f x st = Inr s' \<and> ?I (us @ [x]) s') \<or> (\<exists>e. ?f x st = Inl e \<and> e = OutOfMemory \<and> (\<exists>d s1 sz. na d s1 sz = None))"
    proof (cases "initDomain na P x s1")
      case (Inl e)
      then show ?thesis using st by (auto simp: initDomain_def Let_def split: option.splits)
    next
      case (Inr r)
      obtain d s2 where r: "r = (d, s2)" by fastforce
      have "domainsUp P s (ds @ [d]) s2"
        by (rule domainsUp_step[OF na pg _ up(1)]) (use sz[OF x(2)] Inr r up(2) in simp_all)
      then show ?thesis using Inr r st up(2) x(1) by simp
    qed
  qed
  then show ?thesis unfolding initDomains_def by auto
qed

text \<open>The lists of the workers of \<open>done\<close> have been set up.\<close>

definition slotFor :: "platform \<Rightarrow> pumaDomain list \<Rightarrow> nat \<Rightarrow> addr" where
  "slotFor P ds tid = slotAt ds (nat (getCurrentNumaDomain P tid), getCurrentCPUIndexInDomain P tid)"

definition readyList :: "platform \<Rightarrow> nat \<Rightarrow> nat \<Rightarrow> pumaThreadList" where
  "readyList P es tid = zeroList\<lparr>tl_active := True, tl_numaDomain := getCurrentNumaDomain P tid, tl_tid := tid,
     tl_elementSize := es\<rparr>"

definition workersUp :: "platform \<Rightarrow> ('b, 'd) pumaSet \<Rightarrow> 'e mem \<Rightarrow> nat set \<Rightarrow> ('b, 'd) pumaSet \<times> 'e mem \<Rightarrow> bool" where
  "workersUp P ps0 s0 T = (\<lambda>(ps, s).
     ps = ps0\<lparr>tidToThreadList := map (\<lambda>i. if i \<in> T then slotFor P (domains ps0) i else 0) [0..<numThreads ps0]\<rparr>
   \<and> (\<forall>i\<in>T. tlists s (slotFor P (domains ps0) i) = Some (readyList P (ps_elementSize ps0) i))
   \<and> (\<forall>u. u \<notin> slotFor P (domains ps0) ` T \<longrightarrow> tlists s u = tlists s0 u)
   \<and> nodes s = nodes s0 \<and> cells s = cells s0 \<and> pumaPageSize s = pumaPageSize s0 \<and> PUMA_NODEPAGES s = PUMA_NODEPAGES s0)"

lemma slotFor_pair:
  assumes "slots_ok P n" "length ds = getNumDomains P" "\<And>d. d < length ds \<Longrightarrow> numListsInDomain (ds ! d) = getNumCPUsInDomain P (int d)"
    and "tid < n"
  shows "(nat (getCurrentNumaDomain P tid), getCurrentCPUIndexInDomain P tid) \<in> slotPairs ds"
  using assms by (simp add: slots_ok_def slotPairs_def nat_less_iff)

lemma slotFor_inj:
  assumes ok: "slots_ok P n" "length ds = getNumDomains P" "\<And>d. d < length ds \<Longrightarrow> numListsInDomain (ds ! d) = getNumCPUsInDomain P (int d)"
    and inj: "inj_on (slotAt ds) (slotPairs ds)"
  shows "inj_on (slotFor P ds) {..<n}"
proof (rule inj_onI)
  fix i j assume ij: "i \<in> {..<n}" "j \<in> {..<n}" "slotFor P ds i = slotFor P ds j"
  have "(nat (getCurrentNumaDomain P i), getCurrentCPUIndexInDomain P i) = (nat (getCurrentNumaDomain P j), getCurrentCPUIndexInDomain P j)"
    by (rule inj_onD[OF inj ij(3)[unfolded slotFor_def]]) (use slotFor_pair[OF ok] ij in auto)
  moreover have "0 \<le> getCurrentNumaDomain P i" "0 \<le> getCurrentNumaDomain P j" using ok(1) ij by (auto simp: slots_ok_def)
  ultimately have "(getCurrentNumaDomain P i, getCurrentCPUIndexInDomain P i) = (getCurrentNumaDomain P j, getCurrentCPUIndexInDomain P j)"
    by (simp add: eq_nat_nat_iff)
  then show "i = j" using ok(1) ij unfolding slots_ok_def by blast
qed

lemma worker_step:
  assumes up: "workersUp P ps0 s0 T (ps, s)" and tid: "tid < numThreads ps0" "tid \<notin> T"
    and dom: "0 \<le> getCurrentNumaDomain P tid" "getCurrentNumaDomain P tid < int (length (domains ps0))"
    and new: "slotFor P (domains ps0) tid \<notin> slotFor P (domains ps0) ` T"
    and z: "tlists s0 (slotFor P (domains ps0) tid) = Some zeroList"
  shows "\<exists>r. setupThreadListsWorker P tid (ps, s) = Inr r \<and> workersUp P ps0 s0 (insert tid T) r"
proof -
  let ?t = "slotFor P (domains ps0) tid"
  have U: "ps = ps0\<lparr>tidToThreadList := map (\<lambda>i. if i \<in> T then slotFor P (domains ps0) i else 0) [0..<numThreads ps0]\<rparr>"
    "\<And>i. i \<in> T \<Longrightarrow> tlists s (slotFor P (domains ps0) i) = Some (readyList P (ps_elementSize ps0) i)"
    "\<And>u. u \<notin> slotFor P (domains ps0) ` T \<Longrightarrow> tlists s u = tlists s0 u"
    "nodes s = nodes s0" "cells s = cells s0" "pumaPageSize s = pumaPageSize s0" "PUMA_NODEPAGES s = PUMA_NODEPAGES s0"
    using up by (simp_all add: workersUp_def)
  have g: "getListForCurrentThread P ps tid = Inr ?t"
    using dom by (simp add: getListForCurrentThread_def U(1) slotFor_def slotAt_def Let_def)
  have zt: "tlists s ?t = Some zeroList" using U(3)[OF new] z by simp
  let ?l1 = "zeroList\<lparr>tl_active := True, tl_numaDomain := getCurrentNumaDomain P tid, tl_tid := tid\<rparr>"
  let ?s' = "putList ?t (readyList P (ps_elementSize ps0) tid) (putList ?t ?l1 s)"
  let ?ps' = "ps\<lparr>tidToThreadList := (tidToThreadList ps)[tid := ?t]\<rparr>"
  have len: "tid < length (tidToThreadList ps)" using tid(1) by (simp add: U(1))
  have es: "ps_elementSize ps = ps_elementSize ps0" by (simp add: U(1))
  have run: "setupThreadListsWorker P tid (ps, s) = Inr (?ps', ?s')"
    using zt len es by (simp add: setupThreadListsWorker_def g mem_simps readyList_def)
  have tids: "(map (\<lambda>i. if i \<in> T then slotFor P (domains ps0) i else 0) [0..<numThreads ps0])[tid := ?t]
      = map (\<lambda>i. if i \<in> insert tid T then slotFor P (domains ps0) i else 0) [0..<numThreads ps0]"
    by (rule nth_equalityI) (use tid in \<open>auto simp: nth_list_update\<close>)
  have sl: "slotFor P (domains ps0) i \<noteq> ?t" if "i \<in> T" for i using new that by (metis imageI)
  have "workersUp P ps0 s0 (insert tid T) (?ps', ?s')"
    unfolding workersUp_def prod.case
  proof (intro conjI ballI allI impI)
    show "?ps' = ps0\<lparr>tidToThreadList := map (\<lambda>i. if i \<in> insert tid T then slotFor P (domains ps0) i else 0) [0..<numThreads ps0]\<rparr>"
      unfolding tids[symmetric] by (simp add: U(1))
    show "tlists ?s' (slotFor P (domains ps0) i) = Some (readyList P (ps_elementSize ps0) i)" if "i \<in> insert tid T" for i
      using that U(2)[of i] sl[of i] by (auto simp: mem_simps)
    show "tlists ?s' u = tlists s0 u" if "u \<notin> slotFor P (domains ps0) ` insert tid T" for u
      using that U(3)[of u] by (auto simp: mem_simps)
  qed (simp_all add: U(4-7) mem_simps putList_def)
  then show ?thesis using run by blast
qed

text \<open>
  A set that could be created is well formed and empty, whatever the order of the workers; the
  only fault is an allocation that gives nothing.
\<close>

theorem createPumaSet_ok:
  assumes na: "numalloc_spec na" and pg: "(if pumaPageSize s = 0 then PAGESIZE P else pumaPageSize s) = 2 ^ k" "k < 64"
    and sz: "\<And>d. d < getNumDomains P \<Longrightarrow> getNumCPUsInDomain P (int d) * sizeof_pumaThreadList + 2 ^ k < 2 ^ 64"
    and cfg: "cfg_ok (sz_mul (2 ^ k) (PUMA_NODEPAGES s))" and ok: "slots_ok P n"
    and order: "distinct order" "set order = {..<n}"
  shows "(\<exists>(ps :: ('b, 'd) pumaSet) s'. createPumaSet na P order es n s = Inr (ps, s') \<and> set_inv P ps (\<lambda>_. ([], [])) s'
        \<and> numThreads ps = n \<and> ps_elementSize ps = es \<and> autoBalance ps \<and> nodes s' = nodes s \<and> cells s' = cells s)
    \<or> (createPumaSet na P order es n s :: c_fault + ('b, 'd) pumaSet \<times> 'e mem) = Inl OutOfMemory \<and> (\<exists>d s1 sz. na d s1 sz = None)"
proof -
  define s1 where "s1 = (if pumaPageSize s = 0 then s\<lparr>pumaPageSize := PAGESIZE P\<rparr> else s)"
  have s1: "pumaPageSize s1 = 2 ^ k" "PUMA_NODEPAGES s1 = PUMA_NODEPAGES s" "nodes s1 = nodes s" "cells s1 = cells s"
    using pg(1) by (auto simp: s1_def split: if_splits)
  show ?thesis
  proof (cases "initDomains na P s1")
    case (Inl e)
    then show ?thesis using initDomains_ok[OF na s1(1) pg(2) sz] by (auto simp: createPumaSet_def s1_def[symmetric] Let_def)
  next
    case (Inr r)
    obtain ds s2 where r: "initDomains na P s1 = Inr (ds, s2)" using Inr by (cases r) auto
    have D: "length ds = getNumDomains P" "domainsUp P s1 ds s2" using initDomains_ok[OF na s1(1) pg(2) sz] r by auto
    have num: "numListsInDomain (ds ! d) = getNumCPUsInDomain P (int d)" if "d < length ds" for d
      using D(2) that by (simp add: domainsUp_def)
    have inj: "inj_on (slotAt ds) (slotPairs ds)"
      and at2: "\<And>u. tlists s2 u = (if u \<in> slotAt ds ` slotPairs ds then Some zeroList else tlists s1 u)"
      and rest2: "nodes s2 = nodes s1" "cells s2 = cells s1" "pumaPageSize s2 = pumaPageSize s1" "PUMA_NODEPAGES s2 = PUMA_NODEPAGES s1"
      using D(2) by (simp_all add: domainsUp_def)
    have sinj: "inj_on (slotFor P ds) {..<n}" by (rule slotFor_inj[OF ok D(1) num inj])
    have sin: "slotFor P ds i \<in> slotAt ds ` slotPairs ds" if "i < n" for i
      unfolding slotFor_def by (rule imageI, rule slotFor_pair[OF ok D(1) num that])
    define ps0 :: "('b, 'd) pumaSet" where "ps0 = \<lparr>ps_elementSize = es, domains = ds, numDomains = getNumDomains P,
      numCores = getNumCPUs P, numThreads = n, tidToThreadList = replicate n 0, autoBalance = True,
      splitter = None, splitterExtraData = None\<rparr>"
    have run: "createPumaSet na P order es n s = forEach (setupThreadListsWorker P) order (ps0, s2)"
      by (simp add: createPumaSet_def s1_def[symmetric] Let_def r ps0_def)
    have "\<exists>r'. forEach (setupThreadListsWorker P) order (ps0, s2) = Inr r' \<and> workersUp P ps0 s2 (set order) r'"
    proof (rule forEach_rule[where I = "\<lambda>us. workersUp P ps0 s2 (set us)"])
      show "workersUp P ps0 s2 (set []) (ps0, s2)" by (simp add: workersUp_def ps0_def map_replicate_const)
      fix us x vs r1
      assume xs: "order = us @ x # vs" and I: "workersUp P ps0 s2 (set us) r1"
      have x: "x < n" "x \<notin> set us" "set us \<subseteq> {..<n}" using order unfolding xs by auto
      obtain ps s3 where r1: "r1 = (ps, s3)" by fastforce
      have "\<exists>r. setupThreadListsWorker P x (ps, s3) = Inr r \<and> workersUp P ps0 s2 (insert x (set us)) r"
      proof (rule worker_step)
        show "workersUp P ps0 s2 (set us) (ps, s3)" using I r1 by simp
        show "0 \<le> getCurrentNumaDomain P x" "getCurrentNumaDomain P x < int (length (domains ps0))"
          using ok x(1) D(1) by (simp_all add: slots_ok_def ps0_def)
        show "slotFor P (domains ps0) x \<notin> slotFor P (domains ps0) ` set us"
          using inj_on_image_mem_iff[OF sinj, of x "set us"] x by (simp add: ps0_def)
        show "tlists s2 (slotFor P (domains ps0) x) = Some zeroList" using sin[OF x(1)] by (simp add: ps0_def at2)
      qed (use x in \<open>simp_all add: ps0_def\<close>)
      then show "\<exists>s'. setupThreadListsWorker P x r1 = Inr s' \<and> workersUp P ps0 s2 (set (us @ [x])) s'" using r1 by simp
    qed
    then obtain ps s' where fin: "forEach (setupThreadListsWorker P) order (ps0, s2) = Inr (ps, s')"
      "workersUp P ps0 s2 {..<n} (ps, s')" unfolding order(2) by auto
    have W: "tidToThreadList ps = map (slotFor P ds) [0..<n]" "numThreads ps = n" "domains ps = ds" "numDomains ps = getNumDomains P"
      "ps_elementSize ps = es" "autoBalance ps"
      "\<And>i. i < n \<Longrightarrow> tlists s' (slotFor P ds i) = Some (readyList P es i)"
      "\<And>u. u \<notin> slotFor P ds ` {..<n} \<Longrightarrow> tlists s' u = tlists s2 u"
      "nodes s' = nodes s2" "cells s' = cells s2" "pumaPageSize s' = pumaPageSize s2" "PUMA_NODEPAGES s' = PUMA_NODEPAGES s2"
      using fin(2) by (auto simp: workersUp_def ps0_def)
    have B: "cfg_ok (nodeBytes s')" using cfg s1 rest2 W(11,12) by (simp add: nodeBytes_def)
    have "set_inv P ps (\<lambda>_. ([], [])) s'"
      unfolding set_inv_def
    proof (intro conjI ballI allI impI)
      show "distinct (tidToThreadList ps)" using sinj by (simp add: W(1) distinct_map atLeast_upt lessThan_atLeast0)
      show "distinct (allSlots ps)" by (simp add: allSlots_def W(3) slots_distinct[OF inj] del: distinct_concat_iff)
      show "set (tidToThreadList ps) \<subseteq> set (allSlots ps)" using sin unfolding allSlots_def W(1,3) slots_set by auto
      show "\<exists>l. tlists s' a = Some l \<and> (tl_active l \<longleftrightarrow> a \<in> set (tidToThreadList ps))" if "a \<in> set (allSlots ps)" for a
      proof (cases "a \<in> slotFor P ds ` {..<n}")
        case True
        then show ?thesis using W(7) by (auto simp: W(1) readyList_def)
      next
        case False
        then show ?thesis using W(8)[OF False] that unfolding allSlots_def W(1,3) slots_set by (auto simp: at2 zeroList_def)
      qed
      fix tid assume tid: "tid < numThreads ps"
      then have i: "tid < n" "tidToThreadList ps ! tid = slotFor P ds tid" using W(1,2) by simp_all
      show "getListForCurrentThread P ps tid = Inr (tidToThreadList ps ! tid)"
        using ok i D(1) by (simp add: getListForCurrentThread_def W(3) slots_ok_def slotFor_def slotAt_def Let_def)
      show "tl_inv s' (tidToThreadList ps ! tid) (fst ([], [])) (snd ([], []))"
        using B W(7)[OF i(1)] i(2) by (simp add: tl_inv_def list_ok_def readyList_def zeroList_def)
      show "map_option desc (tlists s' (tidToThreadList ps ! tid)) = Some (ps_elementSize ps, True, getCurrentNumaDomain P tid, tid)"
        using W(5) W(7)[OF i(1)] i(2) by (simp add: readyList_def desc_def zeroList_def)
    qed (use W(1-4) D(1) in simp_all)
    then show ?thesis
      using run fin(1) W(2,5,6,9,10) rest2 s1 by (intro disjI1 exI[of _ ps] exI[of _ s']) simp
  qed
qed

section \<open>Counting the elements of a set\<close>

lemma foldl_sz_add: "foldl sz_add a xs mod 2 ^ 64 = (a + sum_list xs) mod 2 ^ 64"
proof (induction xs arbitrary: a)
  case (Cons x xs)
  then show ?case by (simp add: sz_add_def mod_add_left_eq add.assoc)
qed simp

lemma foldl_sz_add_exact: "sum_list xs < 2 ^ 64 \<Longrightarrow> foldl sz_add 0 xs = sum_list xs"
proof (cases xs rule: rev_cases)
  case (snoc ys y)
  assume "sum_list xs < 2 ^ 64"
  moreover have "foldl sz_add 0 xs < 2 ^ 64" by (simp add: snoc sz_add_def)
  ultimately show ?thesis using foldl_sz_add[of 0 xs] by simp
qed simp

lemma tl_inv_size:
  assumes "tl_inv s t xs ys" "tlists s t = Some l"
  shows "size (contents (nodeAt s) (cells s) xs) = tl_numElements l"
    and "tl_numElements l = (\<Sum>n\<leftarrow>xs. n_numElements (the (nodeAt s n)))"
proof -
  have ok: "list_ok (nodeBytes s) t l (nodeAt s) xs ys" using assms by (auto simp: tl_inv_def)
  show "size (contents (nodeAt s) (cells s) xs) = tl_numElements l"
    by (simp add: size_contents list_ok_card_live[OF ok])
  show "tl_numElements l = (\<Sum>n\<leftarrow>xs. n_numElements (the (nodeAt s n)))" by (rule list_okD(11)[OF ok])
qed

lemma set_size_bound:
  assumes inv: "set_inv P ps L s"
  shows "size (setContents ps L s) < 2 ^ 64"
proof (cases "numThreads ps = 0")
  case False
  let ?n = "numThreads ps" and ?all = "concat (map (fst \<circ> L) [0..<numThreads ps])"
  have lst: "tl_inv s (tidToThreadList ps ! i) (fst (L i)) (snd (L i))" if "i < ?n" for i
    by (rule set_invD(8)[OF inv that])
  have B: "cfg_ok (nodeBytes s)" using lst[of 0] False by (auto simp: tl_inv_def)
  have nok: "\<exists>t es. node_ok (nodeBytes s) t es m (the (nodeAt s m))" if "m \<in> set ?all" for m
  proof -
    from that obtain i where i: "i < ?n" "m \<in> set (fst (L i))" by auto
    from lst[OF i(1)] show ?thesis by (rule tl_invE) (use list_okD(3) i(2) in blast)
  qed
  have "distinct (concat (map (fst \<circ> L) [0..<k]))" if "k \<le> ?n" for k
    using that
  proof (induction k)
    case (Suc k)
    obtain l where "list_ok (nodeBytes s) (tidToThreadList ps ! k) l (nodeAt s) (fst (L k)) (snd (L k))"
      using lst[of k] Suc.prems by (auto simp: tl_inv_def)
    then have "distinct (fst (L k))" using list_ok_distinct by fastforce
    moreover have "set (fst (L i)) \<inter> set (fst (L k)) = {}" if "i < k" for i
      using set_nodes_disjoint[OF inv, of i k] that Suc.prems by auto
    ultimately have "distinct (concat (map (fst \<circ> L) [0..<k]) @ fst (L k))" using Suc by fastforce
    then show ?case by (simp add: comp_def)
  qed simp
  from nodes_bounds(2)[OF B this[OF le_refl] nok]
  have "(\<Sum>m\<leftarrow>?all. n_numElements (the (nodeAt s m))) < 2 ^ 64" by simp
  moreover have "(\<Sum>m\<leftarrow>concat (map (fst \<circ> L) [0..<k]). n_numElements (the (nodeAt s m)))
      = size (\<Sum>i<k. contents (nodeAt s) (cells s) (fst (L i)))" if "k \<le> ?n" for k
    using that
  proof (induction k)
    case (Suc k)
    obtain l where "tlists s (tidToThreadList ps ! k) = Some l" using lst[of k] Suc.prems by (auto simp: tl_inv_def)
    then show ?case using Suc tl_inv_size[OF lst[of k]] by simp
  qed simp
  ultimately show ?thesis unfolding setContents_def by simp
qed (simp add: setContents_def)

theorem getNumElements_ok:
  assumes inv: "set_inv P ps L s" and order: "distinct order" "set order = {..<numThreads ps}"
  shows "getNumElements P order ps s = Inr (size (setContents ps L s))"
proof -
  let ?n = "numThreads ps" and ?c = "\<lambda>i. size (contents (nodeAt s) (cells s) (fst (L i)))"
  let ?sums = "\<lambda>T. map (\<lambda>i. if i \<in> T then ?c i else 0) [0..<?n]"
  have le: "(\<Sum>i<?n. ?c i) < 2 ^ 64" using set_size_bound[OF inv] by (simp add: setContents_def size_multiset_sum)
  have "\<exists>r. forEach (getNumElementsWorker P ps s) order (replicate ?n 0) = Inr r \<and> r = ?sums (set order)"
  proof (rule forEach_rule[where I = "\<lambda>us r. r = ?sums (set us)"])
    show "replicate ?n 0 = ?sums (set [])" by (simp add: map_replicate_const)
    fix us x vs r assume xs: "order = us @ x # vs" and r: "r = ?sums (set us)"
    have x: "x < ?n" "x \<notin> set us" using order unfolding xs by auto
    obtain l where l: "tlists s (tidToThreadList ps ! x) = Some l" using set_invD(8)[OF inv x(1)] by (auto simp: tl_inv_def)
    have c: "tl_numElements l = ?c x" by (rule tl_inv_size(1)[OF set_invD(8)[OF inv x(1)] l, symmetric])
    have "?c x \<le> (\<Sum>i<?n. ?c i)" using x(1) by (intro member_le_sum) auto
    then have "sz_add 0 (?c x) = ?c x" using le by (simp add: sz_add_def)
    moreover have "(?sums (set us))[x := ?c x] = ?sums (set (us @ [x]))"
      by (rule nth_equalityI) (use x in \<open>auto simp: nth_list_update\<close>)
    ultimately show "\<exists>r'. getNumElementsWorker P ps s x r = Inr r' \<and> r' = ?sums (set (us @ [x]))"
      using x l c r by (simp add: getNumElementsWorker_def set_invD(7)[OF inv x(1)] deref_simps)
  qed
  moreover have "?sums (set order) = map ?c [0..<?n]" unfolding order(2) by (rule map_cong) auto
  moreover have "sum_list (map ?c [0..<?n]) = (\<Sum>i<?n. ?c i)"
    by (simp add: sum_list_distinct_conv_sum_set atLeast_upt lessThan_atLeast0)
  ultimately show ?thesis
    using le by (simp add: getNumElements_def foldl_sz_add_exact setContents_def size_multiset_sum)
qed

section \<open>Destroying a set\<close>

lemma destroyNodes_ok:
  "links (nodeAt s) p ns 0 \<Longrightarrow> distinct ns \<Longrightarrow> 0 \<notin> set ns \<Longrightarrow> length ns < fuel
   \<Longrightarrow> \<exists>s'. destroyNodes fuel (firstOr ns 0) s = Inr s' \<and> tlists s' = tlists s \<and> cells s' = cells s
     \<and> pumaPageSize s' = pumaPageSize s \<and> (\<forall>m. nodeAt s' m = (if m \<in> set ns then None else nodeAt s m))"
proof (induction ns arbitrary: s p fuel)
  case Nil
  then show ?case by (cases fuel) simp_all
next
  case (Cons n ns)
  obtain fuel' where fuel: "fuel = Suc fuel'" using Cons.prems(4) by (cases fuel) auto
  obtain nd where nd: "nodeAt s n = Some nd" "n_next nd = firstOr ns 0" and lk: "links (nodeAt s) n ns 0" using Cons.prems(1) by auto
  have "links (nodeAt (dropNode n s)) n ns 0"
    by (subst links_frame[of ns _ "nodeAt s"]) (use Cons.prems(2) lk in \<open>auto simp: mem_simps\<close>)
  from Cons.IH[OF this] Cons.prems fuel obtain s' where s': "destroyNodes fuel' (firstOr ns 0) (dropNode n s) = Inr s'"
    "tlists s' = tlists s" "cells s' = cells s" "pumaPageSize s' = pumaPageSize s"
    "\<forall>m. nodeAt s' m = (if m \<in> set ns then None else nodeAt (dropNode n s) m)" by (auto simp: mem_simps)
  then show ?case using nd Cons.prems(3) by (auto simp: fuel mem_simps)
qed

lemma dropLists_simps [simp]:
  "nodes (dropLists d n s) = nodes s" "cells (dropLists d n s) = cells s"
  by (induction n) (simp_all add: Let_def)

text \<open>Every node of every worker and every list of every domain is given back, and nothing else.\<close>

theorem destroyPumaSet_ok:
  assumes inv: "set_inv P ps L s" and order: "distinct order" "set order = {..<numThreads ps}"
  shows "\<exists>s'. destroyPumaSet P order ps s = Inr s' \<and> cells s' = cells s
    \<and> (\<forall>m. nodeAt s' m = (if m \<in> (\<Union>tid<numThreads ps. nodesOf L tid) then None else nodeAt s m))
    \<and> (\<forall>a. tlists s' a = (if a \<in> set (allSlots ps) then None else tlists s a))"
proof -
  let ?gone = "\<lambda>T m. m \<in> (\<Union>tid\<in>T. nodesOf L tid)"
  let ?I = "\<lambda>us s1. tlists s1 = tlists s \<and> cells s1 = cells s \<and> (\<forall>m. nodeAt s1 m = (if ?gone (set us) m then None else nodeAt s m))"
  have "\<exists>s1. forEach (destroyThreadListWorker P ps) order s = Inr s1 \<and> ?I order s1"
  proof (rule forEach_rule)
    show "?I [] s" by simp
    fix us x vs s1 assume xs: "order = us @ x # vs" and I: "?I us s1"
    have x: "x < numThreads ps" "x \<notin> set us" "set us \<subseteq> {..<numThreads ps}" using order unfolding xs by auto
    let ?ns = "fst (L x) @ snd (L x)"
    obtain l where l: "tlists s (tidToThreadList ps ! x) = Some l"
      and ok: "list_ok (nodeBytes s) (tidToThreadList ps ! x) l (nodeAt s) (fst (L x)) (snd (L x))"
      using set_invD(8)[OF inv x(1)] by (rule tl_invE)
    have same: "nodeAt s1 m = nodeAt s m" if "m \<in> set ?ns" for m
    proof -
      have "\<not> ?gone (set us) m" using set_nodes_disjoint[OF inv _ x(1)] x that by fastforce
      then show ?thesis using I by simp
    qed
    have ok1: "list_ok (nodeBytes s) (tidToThreadList ps ! x) l (nodeAt s1) (fst (L x)) (snd (L x))"
      by (subst list_ok_frame[of _ _ _ "nodeAt s"]) (use same ok in auto)
    note D = list_okD[OF ok1]
    have "length ?ns < Suc (fcard (fmdom (nodes s1)))" using list_ok_length[OF ok1] by simp
    moreover have "0 \<notin> set ?ns" using list_ok_nz[OF ok, of 0] by auto
    ultimately obtain s2 where s2: "destroyNodes (Suc (fcard (fmdom (nodes s1)))) (firstOr ?ns 0) s1 = Inr s2"
      "tlists s2 = tlists s1" "cells s2 = cells s1" "\<forall>m. nodeAt s2 m = (if m \<in> set ?ns then None else nodeAt s1 m)"
      using destroyNodes_ok[OF D(2,1)] by blast
    have "destroyThreadListWorker P ps x s1 = Inr s2"
      using I l s2(1) D(8) by (simp add: destroyThreadListWorker_def set_invD(7)[OF inv x(1)] deref_simps del: destroyNodes.simps)
    moreover have "?I (us @ [x]) s2" using I s2(2-4) by auto
    ultimately show "\<exists>s'. destroyThreadListWorker P ps x s1 = Inr s' \<and> ?I (us @ [x]) s'" by blast
  qed
  then obtain s1 where s1: "forEach (destroyThreadListWorker P ps) order s = Inr s1" "?I order s1" by blast
  let ?fin = "\<lambda>k. foldl (\<lambda>s i. destroyDomain (domains ps ! i) s) s1 [0..<k]"
  have fin: "nodes (?fin k) = nodes s1 \<and> cells (?fin k) = cells s1
      \<and> (\<forall>a. tlists (?fin k) a = (if a \<in> set (concat (map slotsOf (take k (domains ps)))) then None else tlists s1 a))"
    if "k \<le> length (domains ps)" for k
    using that
  proof (induction k)
    case (Suc k)
    then show ?case by (auto simp: destroyDomain_def dropLists_lookup take_Suc_conv_app_nth slotsOf_def)
  qed simp
  have "numDomains ps = length (domains ps)" using set_invD(3)[OF inv] by simp
  then show ?thesis
    using s1 fin[of "length (domains ps)"] by (auto simp: destroyPumaSet_def allSlots_def order(2))
qed

end
