(* ===== verification/Autobalance.thy ===== *)
theory Autobalance
  imports Balance PumaSet
begin

text \<open>
  Balancing the nodes of a set over its workers before a kernel runs: \<open>_autobalanceThreadLoad\<close>
  and \<open>_balanceThreadLoad\<close> of \<open>src/internal/pumabalance.c\<close>. Run times are measured, so the
  number of nodes that a list should have, \<open>(size_t)(tl->relativeSpeed * avgNodes)\<close>, is a
  parameter: a function of the list and of the average. \<open>Speeds\<close> has its computation.
\<close>

section \<open>Operations\<close>

type_synonym speeds = "addr \<Rightarrow> nat \<Rightarrow> nat"

text \<open>The first loop: the number of nodes in the active lists, and of active lists.\<close>

fun nodeTotals :: "'e mem \<Rightarrow> addr list \<Rightarrow> nat \<times> nat \<Rightarrow> c_fault + nat \<times> nat" where
  "nodeTotals s [] (avgNodes, numLists) = Inr (avgNodes, numLists)"
| "nodeTotals s (t # ts) (avgNodes, numLists) =
     bindE (derefList s t) (\<lambda>l.
     nodeTotals s ts (sz_add avgNodes (sz_mul (tl_numNodes l) (c_bool (tl_active l))),
       sz_add numLists (c_bool (tl_active l))))"

text \<open>One list of a domain: onto the stack of those with nodes to give, or to take, or neither.\<close>

definition classifyList ::
  "speeds \<Rightarrow> nat \<Rightarrow> nat \<Rightarrow> 'e mem \<Rightarrow> addr \<Rightarrow> nat \<times> addr list \<times> addr list \<Rightarrow> c_fault + nat \<times> addr list \<times> addr list" where
  "classifyList speed avgNodes numLists s t = (\<lambda>(rem, posStack, negStack).
     bindE (derefList s t) (\<lambda>l.
     if \<not> tl_active l then Inr (rem, posStack, negStack)
     else let tlAvgNodes = speed t avgNodes;
              rem' = sz_sub rem (c_bool (0 < rem \<and> tl_numNodes l = sz_add tlAvgNodes 1))
          in if sz_add tlAvgNodes (c_bool (0 < rem')) < tl_numNodes l
             then if length posStack < numLists then Inr (rem', t # posStack, negStack) else Inl (OutOfBounds numLists)
             else if tl_numNodes l < tlAvgNodes
             then if length negStack < numLists then Inr (rem', posStack, t # negStack) else Inl (OutOfBounds numLists)
             else Inr (rem', posStack, negStack)))"

text \<open>The inner loop, while both stacks have an entry; a unit of fuel is one transfer.\<close>

fun pairTransfers ::
  "nat \<Rightarrow> speeds \<Rightarrow> nat \<Rightarrow> nat \<times> addr list \<times> addr list \<Rightarrow> 'e mem \<Rightarrow> c_fault + (nat \<times> addr list \<times> addr list) \<times> 'e mem" where
  "pairTransfers fuel speed avgNodes (rem, p # posStack, n # negStack) s =
     (case fuel of 0 \<Rightarrow> Inl OutOfFuel
      | Suc fuel' \<Rightarrow>
        let posAvgNodes = speed p avgNodes; negAvgNodes = speed n avgNodes;
            posTarget = sz_add posAvgNodes (c_bool (0 < rem))
        in bindE (derefList s n) (\<lambda>ln.
           bindE (derefList s p) (\<lambda>lp.
           let nToTransfer = size_min (sz_sub negAvgNodes (tl_numNodes ln)) (sz_sub (tl_numNodes lp) posTarget)
           in bindE (transferNNodes nToTransfer p n s) (\<lambda>s1.
              bindE (derefList s1 p) (\<lambda>lp'.
              bindE (derefList s1 n) (\<lambda>ln'.
              let posIsTarget = (tl_numNodes lp' = posTarget);
                  rem' = sz_sub rem (c_bool (0 < rem \<and> posIsTarget));
                  negIsTarget = (tl_numNodes ln' = negAvgNodes)
              in pairTransfers fuel' speed avgNodes
                   (rem', if posIsTarget then posStack else p # posStack, if negIsTarget then negStack else n # negStack) s1))))))"
| "pairTransfers fuel speed avgNodes (rem, [], negStack) s = Inr ((rem, [], negStack), s)"
| "pairTransfers fuel speed avgNodes (rem, posStack, []) s = Inr ((rem, posStack, []), s)"

definition balanceDomain ::
  "speeds \<Rightarrow> nat \<Rightarrow> nat \<Rightarrow> pumaDomain \<Rightarrow> (nat \<times> addr list \<times> addr list) \<times> 'e mem
   \<Rightarrow> c_fault + (nat \<times> addr list \<times> addr list) \<times> 'e mem" where
  "balanceDomain speed avgNodes numLists d = (\<lambda>(st, s).
     bindE (forEach (classifyList speed avgNodes numLists s) (slotsOf d) st) (\<lambda>(rem, posStack, negStack).
     pairTransfers (length posStack + length negStack) speed avgNodes (rem, posStack, negStack) s))"

definition autobalanceThreadLoad :: "speeds \<Rightarrow> ('b, 'd) pumaSet \<Rightarrow> 'e mem \<Rightarrow> c_fault + 'e mem" where
  "autobalanceThreadLoad speed ps s =
     bindE (nodeTotals s (take (numThreads ps) (tidToThreadList ps)) (0, 0)) (\<lambda>(allNodes, numLists).
     if numLists = 0 then Inl DivByZero
     else bindE (forEach (balanceDomain speed (allNodes div numLists) numLists) (take (numDomains ps) (domains ps))
                   ((allNodes mod numLists, [], []), s)) (\<lambda>(st, s'). Inr s'))"

definition balanceThreadLoad :: "speeds \<Rightarrow> ('b, 'd) pumaSet \<Rightarrow> 'e mem \<Rightarrow> c_fault + 'e mem" where
  "balanceThreadLoad speed ps s = (if autoBalance ps then autobalanceThreadLoad speed ps s else Inr s)"

section \<open>A transfer between two workers of a set\<close>

definition nodeCount :: "layout \<Rightarrow> nat \<Rightarrow> nat" where
  "nodeCount L i = length (fst (L i))"

lemma set_numNodes:
  assumes "set_inv P ps L s" "i < numThreads ps"
  obtains l where "tlists s (tidToThreadList ps ! i) = Some l" "tl_numNodes l = nodeCount L i" "tl_active l"
    "tl_elementSize l = ps_elementSize ps"
proof -
  obtain l where l: "tlists s (tidToThreadList ps ! i) = Some l" "list_ok (nodeBytes s) (tidToThreadList ps ! i) l (nodeAt s) (fst (L i)) (snd (L i))"
    using set_invD(8)[OF assms] by (rule tl_invE)
  moreover have "desc l = (ps_elementSize ps, True, getCurrentNumaDomain P i, i)" using set_invD(9)[OF assms] l(1) by simp
  ultimately show thesis using that list_okD(10)[OF l(2)] by (simp add: desc_def nodeCount_def)
qed

lemma set_transfer:
  assumes inv: "set_inv P ps L s" and ij: "i < numThreads ps" "j < numThreads ps" "i \<noteq> j"
    and k: "0 < k" "k \<le> nodeCount L i"
  shows "\<exists>s' L'. transferNNodes k (tidToThreadList ps ! i) (tidToThreadList ps ! j) s = Inr s' \<and> set_inv P ps L' s'
    \<and> setContents ps L' s' = setContents ps L s \<and> cells s' = cells s
    \<and> nodeCount L' i = nodeCount L i - k \<and> nodeCount L' j = nodeCount L j + k
    \<and> (\<forall>m. m \<noteq> i \<longrightarrow> m \<noteq> j \<longrightarrow> L' m = L m)"
proof -
  let ?ti = "tidToThreadList ps ! i" and ?tj = "tidToThreadList ps ! j"
  define xs1 xs2 where "xs1 = take (nodeCount L i - k) (fst (L i))" and "xs2 = drop (nodeCount L i - k) (fst (L i))"
  define ysf zs yst where "ysf = snd (L i)" and "zs = fst (L j)" and "yst = snd (L j)"
  note X = xs1_def xs2_def ysf_def zs_def yst_def
  have split: "fst (L i) = xs1 @ xs2" by (simp add: X)
  have len: "length xs2 = k" "xs2 \<noteq> []" "length xs1 = nodeCount L i - k" using k by (auto simp: X nodeCount_def)
  note D = set_invD[OF inv]
  have fi: "tl_inv s ?ti (xs1 @ xs2) ysf" and fj: "tl_inv s ?tj zs yst"
    using D(8)[OF ij(1)] D(8)[OF ij(2)] unfolding split ysf_def zs_def yst_def by blast+
  have tne: "?ti \<noteq> ?tj" using tid_differs[OF inv ij(1,2)] ij(3) by simp
  obtain li where li: "tlists s ?ti = Some li" "tl_elementSize li = ps_elementSize ps" using set_numNodes[OF inv ij(1)] by blast
  obtain lj where lj: "tlists s ?tj = Some lj" "tl_elementSize lj = ps_elementSize ps" using set_numNodes[OF inv ij(2)] by blast
  have es: "map_option tl_elementSize (tlists s ?ti) = map_option tl_elementSize (tlists s ?tj)" using li lj by simp
  obtain s' where run: "transferNNodes (length xs2) ?ti ?tj s = Inr s'" "tl_inv s' ?ti xs1 ysf" "tl_inv s' ?tj (zs @ xs2) yst"
    and bt: "betweenLists ?ti ?tj (set (xs1 @ xs2 @ ysf @ zs @ yst)) s s'"
    by (rule transferNNodes_ok[OF fi fj tne len(2) es])
  have bt': "nodeBytes s' = nodeBytes s" "cells s' = cells s" "\<And>u. u \<noteq> ?ti \<Longrightarrow> u \<noteq> ?tj \<Longrightarrow> tlists s' u = tlists s u"
    "\<And>u. map_option desc (tlists s' u) = map_option desc (tlists s u)"
    "\<And>a. a \<notin> set (xs1 @ xs2 @ ysf @ zs @ yst) \<Longrightarrow> nodeAt s' a = nodeAt s a"
    using bt unfolding betweenLists_def nodeBytes_def by auto
  let ?L = "L(i := (xs1, ysf), j := (zs @ xs2, yst))"
  have nodes_ij: "set (xs1 @ xs2 @ ysf @ zs @ yst) = nodesOf L i \<union> nodesOf L j"
    unfolding split ysf_def zs_def yst_def by auto
  have other: "tl_inv s' (tidToThreadList ps ! m) (fst (L m)) (snd (L m))" if m: "m < numThreads ps" "m \<noteq> i" "m \<noteq> j" for m
  proof -
    obtain l where l: "cfg_ok (nodeBytes s)" "tlists s (tidToThreadList ps ! m) = Some l"
      "list_ok (nodeBytes s) (tidToThreadList ps ! m) l (nodeAt s) (fst (L m)) (snd (L m))"
      using D(8)[OF m(1)] by (rule tl_invE)
    have "nodeAt s' a = nodeAt s a" if "a \<in> nodesOf L m" for a
      by (rule bt'(5), unfold nodes_ij)
        (use that set_nodes_disjoint[OF inv m(1) ij(1) m(2)] set_nodes_disjoint[OF inv m(1) ij(2) m(3)] in blast)
    then have "list_ok (nodeBytes s) (tidToThreadList ps ! m) l (nodeAt s') (fst (L m)) (snd (L m))"
      by (subst list_ok_frame[of _ _ _ "nodeAt s"]) (use l(3) in auto)
    moreover have "tlists s' (tidToThreadList ps ! m) = Some l"
      using bt'(3) l(2) tid_differs[OF inv m(1) ij(1)] tid_differs[OF inv m(1) ij(2)] m(2,3) by simp
    ultimately show ?thesis using l(1) bt'(1) by (simp add: tl_inv_def)
  qed
  have act: "\<exists>l. tlists s' a = Some l \<and> (tl_active l \<longleftrightarrow> a \<in> set (tidToThreadList ps))" if a: "a \<in> set (allSlots ps)" for a
  proof -
    obtain l where "tlists s a = Some l" "tl_active l \<longleftrightarrow> a \<in> set (tidToThreadList ps)" using D(6)[OF a] by blast
    then show ?thesis using bt'(4)[of a] by (cases "tlists s' a") (auto simp: desc_def)
  qed
  have sinv: "set_inv P ps ?L s'"
    unfolding set_inv_def using D(1-5,7,9) act run(2,3) other ij(3) bt'(4) by simp
  have live: "contents (nodeAt s') (cells s') ns = contents (nodeAt s) (cells s) ns" if "set ns \<subseteq> {a. nodeAt s a \<noteq> None}" for ns
    using betweenLists_liveAddrs[OF bt that] bt'(2) by (simp add: contents_def)
  have alloc: "nodesOf L m \<subseteq> {a. nodeAt s a \<noteq> None}" if "m < numThreads ps" for m
    using tl_inv_allocated[OF D(8)[OF that]] by blast
  let ?c = "\<lambda>ns. contents (nodeAt s) (cells s) ns"
  have ci: "?c (fst (L i)) = ?c xs1 + ?c xs2"
    using fi contents_append unfolding split by (auto simp: tl_inv_def)
  have sub: "set xs1 \<subseteq> nodesOf L i" "set xs2 \<subseteq> nodesOf L i" "set zs \<subseteq> nodesOf L j"
    unfolding split zs_def by auto
  have l3: "contents (nodeAt s') (cells s') xs1 = ?c xs1" "contents (nodeAt s') (cells s') xs2 = ?c xs2" "contents (nodeAt s') (cells s') zs = ?c zs"
    using live[of xs1] live[of xs2] live[of zs] sub alloc[OF ij(1)] alloc[OF ij(2)] by blast+
  have cj: "contents (nodeAt s') (cells s') (zs @ xs2) = ?c zs + ?c xs2"
    by (rule tl_invE[OF run(3)]) (simp only: contents_append l3)
  have "setContents ps ?L s' = setContents ps L s"
  proof -
    let ?T = "{..<numThreads ps}"
    have m: "finite ?T" "i \<in> ?T" "finite (?T - {i})" "j \<in> ?T - {i}" using ij by auto
    have "(\<Sum>m\<in>?T - {i} - {j}. contents (nodeAt s') (cells s') (fst (?L m))) = (\<Sum>m\<in>?T - {i} - {j}. ?c (fst (L m)))"
    proof (rule sum.cong[OF refl])
      fix m assume "m \<in> ?T - {i} - {j}"
      then show "contents (nodeAt s') (cells s') (fst (?L m)) = ?c (fst (L m))" using live[of "fst (L m)"] alloc[of m] by auto
    qed
    then show ?thesis
      unfolding setContents_def sum.remove[OF m(1,2)] sum.remove[OF m(3,4)]
      using l3(1) cj ci ij(3) by (simp add: zs_def add_ac)
  qed
  then have "transferNNodes k ?ti ?tj s = Inr s' \<and> set_inv P ps ?L s' \<and> setContents ps ?L s' = setContents ps L s \<and> cells s' = cells s
    \<and> nodeCount ?L i = nodeCount L i - k \<and> nodeCount ?L j = nodeCount L j + k \<and> (\<forall>m. m \<noteq> i \<longrightarrow> m \<noteq> j \<longrightarrow> ?L m = L m)"
    using run(1) sinv bt'(2) len ij(3) by (simp add: nodeCount_def X)
  then show ?thesis by blast
qed

section \<open>The stacks\<close>

text \<open>
  Between two steps every list on the first stack has more nodes than its target, also when the
  remainder is used up, every list on the second has fewer, and no list is on both. A list of \<open>X\<close>,
  those looked at, that is on neither has as many nodes as its target or one more.
\<close>

definition onTarget :: "nat \<Rightarrow> nat \<Rightarrow> bool" where
  "onTarget target n \<longleftrightarrow> target \<le> n \<and> n \<le> Suc target"

definition stacksOk :: "speeds \<Rightarrow> nat \<Rightarrow> ('b, 'd) pumaSet \<Rightarrow> layout \<Rightarrow> addr set \<Rightarrow> nat \<times> addr list \<times> addr list \<Rightarrow> bool" where
  "stacksOk speed avg ps L X = (\<lambda>(rem, pos, neg). rem < 2 ^ 64 \<and> distinct (pos @ neg)
     \<and> set (pos @ neg) \<subseteq> set (tidToThreadList ps)
     \<and> (\<forall>i<numThreads ps. tidToThreadList ps ! i \<in> set pos \<longrightarrow>
          speed (tidToThreadList ps ! i) avg + of_bool (0 < rem) < nodeCount L i)
     \<and> (\<forall>i<numThreads ps. tidToThreadList ps ! i \<in> set neg \<longrightarrow> nodeCount L i < speed (tidToThreadList ps ! i) avg)
     \<and> (\<forall>i<numThreads ps. tidToThreadList ps ! i \<in> X \<longrightarrow> tidToThreadList ps ! i \<notin> set (pos @ neg) \<longrightarrow>
          onTarget (speed (tidToThreadList ps ! i) avg) (nodeCount L i)))"

lemma sz_sub_bool: "rem < 2 ^ 64 \<Longrightarrow> sz_sub rem (c_bool (0 < rem \<and> b)) = rem - of_bool (0 < rem \<and> b)"
  by (auto simp: sz_sub_exact)

lemma nodeCount_less: "set_inv P ps L s \<Longrightarrow> i < numThreads ps \<Longrightarrow> nodeCount L i < 2 ^ 64"
  using set_invD(8)[of P ps L s i] list_ok_bounds(1) by (fastforce simp: tl_inv_def nodeCount_def)

text \<open>What a step of the balancing keeps: the set and its elements.\<close>

definition rebalanced :: "platform \<Rightarrow> ('b, 'd) pumaSet \<Rightarrow> layout \<Rightarrow> 'e mem \<Rightarrow> layout \<Rightarrow> 'e mem \<Rightarrow> bool" where
  "rebalanced P ps L s L' s' \<longleftrightarrow> set_inv P ps L' s' \<and> setContents ps L' s' = setContents ps L s \<and> cells s' = cells s"

lemma rebalanced_trans: "rebalanced P ps L s L' s' \<Longrightarrow> rebalanced P ps L' s' L'' s'' \<Longrightarrow> rebalanced P ps L s L'' s''"
  by (simp add: rebalanced_def)

lemma transfer_amount:
  assumes "cj < na" "pt < ci" "ci < 2 ^ 64" "na < 2 ^ 64"
  shows "size_min (sz_sub na cj) (sz_sub ci pt) = min (na - cj) (ci - pt)"
proof -
  have "sz_sub na cj = na - cj" "sz_sub ci pt = ci - pt" using assms by (simp_all add: sz_sub_exact)
  moreover have "na - cj < 2 ^ 64" "ci - pt < 2 ^ 64" using assms by linarith+
  ultimately show ?thesis by (simp add: size_min_min)
qed

lemma pairTransfers_ok:
  assumes sp: "\<And>a. speed a avg + 1 < 2 ^ 64"
  shows "set_inv P ps L s \<Longrightarrow> stacksOk speed avg ps L X (rem, pos, neg) \<Longrightarrow> length pos + length neg \<le> fuel \<Longrightarrow>
    \<exists>rem' pos' neg' s' L'. pairTransfers fuel speed avg (rem, pos, neg) s = Inr ((rem', pos', neg'), s')
      \<and> rebalanced P ps L s L' s' \<and> stacksOk speed avg ps L' X (rem', pos', neg') \<and> set (pos' @ neg') \<subseteq> set (pos @ neg)
      \<and> (pos' = [] \<or> neg' = [])"
proof (induction fuel arbitrary: rem pos neg s L)
  case 0
  then show ?case by (auto simp: rebalanced_def)
next
  case (Suc fuel)
  show ?case
  proof (cases "pos = [] \<or> neg = []")
    case True
    then have "pairTransfers (Suc fuel) speed avg (rem, pos, neg) s = Inr ((rem, pos, neg), s)" by (cases pos; cases neg) auto
    moreover have "rebalanced P ps L s L s" using Suc.prems(1) by (simp add: rebalanced_def)
    ultimately show ?thesis using Suc.prems(2) True by blast
  next
    case False
    then obtain p pos1 n neg1 where st: "pos = p # pos1" "neg = n # neg1" by (auto simp: neq_Nil_conv)
    note inv = Suc.prems(1) and S = Suc.prems(2)[unfolded stacksOk_def st prod.case]
    have "p \<in> set (tidToThreadList ps)" "n \<in> set (tidToThreadList ps)" "p \<noteq> n" using S by auto
    then obtain i j where ij: "i < numThreads ps" "p = tidToThreadList ps ! i" "j < numThreads ps" "n = tidToThreadList ps ! j" "i \<noteq> j"
      using set_invD(1)[OF inv] by (metis in_set_conv_nth)
    obtain lp where lp: "tlists s p = Some lp" "tl_numNodes lp = nodeCount L i" using set_numNodes[OF inv ij(1)] ij(2) by blast
    obtain ln where ln: "tlists s n = Some ln" "tl_numNodes ln = nodeCount L j" using set_numNodes[OF inv ij(3)] ij(4) by blast
    let ?pt = "speed p avg + of_bool (0 < rem)"
    have pt: "sz_add (speed p avg) (c_bool (0 < rem)) = ?pt" using sp[of p] by (simp add: sz_add_exact)
    have gt: "?pt < nodeCount L i" and lt: "nodeCount L j < speed n avg" using S ij by auto
    define k where "k = min (speed n avg - nodeCount L j) (nodeCount L i - ?pt)"
    have k: "size_min (sz_sub (speed n avg) (tl_numNodes ln)) (sz_sub (tl_numNodes lp) ?pt) = k"
      using transfer_amount[OF lt gt nodeCount_less[OF inv ij(1)]] sp[of n] by (simp add: k_def lp ln)
    have kb: "0 < k" "k \<le> nodeCount L i" using gt lt by (auto simp: k_def)
    obtain s1 L1 where tr: "transferNNodes k p n s = Inr s1" "set_inv P ps L1 s1" "setContents ps L1 s1 = setContents ps L s" "cells s1 = cells s"
      "nodeCount L1 i = nodeCount L i - k" "nodeCount L1 j = nodeCount L j + k" "\<And>m. m \<noteq> i \<Longrightarrow> m \<noteq> j \<Longrightarrow> L1 m = L m"
      using set_transfer[OF inv ij(1,3,5) kb] unfolding ij(2,4) by blast
    obtain lp' where lp': "tlists s1 p = Some lp'" "tl_numNodes lp' = nodeCount L1 i" using set_numNodes[OF tr(2) ij(1)] ij(2) by blast
    obtain ln' where ln': "tlists s1 n = Some ln'" "tl_numNodes ln' = nodeCount L1 j" using set_numNodes[OF tr(2) ij(3)] ij(4) by blast
    let ?pit = "nodeCount L1 i = ?pt" and ?nit = "nodeCount L1 j = speed n avg"
    let ?rem = "rem - of_bool (0 < rem \<and> ?pit)"
    let ?pos = "if ?pit then pos1 else p # pos1" and ?neg = "if ?nit then neg1 else n # neg1"
    have remE: "sz_sub rem (c_bool (0 < rem \<and> ?pit)) = ?rem" using S by (intro sz_sub_bool) simp
    have run: "pairTransfers (Suc fuel) speed avg (rem, pos, neg) s = pairTransfers fuel speed avg (?rem, ?pos, ?neg) s1"
      unfolding st pairTransfers.simps(1) nat.case Let_def
      by (simp only: deref_simps(3)[OF ln(1)] deref_simps(3)[OF lp(1)] bindE_simps(2) pt k tr(1)
        deref_simps(3)[OF lp'(1)] deref_simps(3)[OF ln'(1)] lp'(2) ln'(2) remE)
    have one: "?pit \<or> ?nit" using tr(5,6) gt lt by (auto simp: k_def min_def)
    have st1: "stacksOk speed avg ps L1 X (?rem, ?pos, ?neg)"
      unfolding stacksOk_def prod.case
    proof (intro conjI allI impI)
      fix m assume m: "m < numThreads ps" "tidToThreadList ps ! m \<in> set ?pos"
      show "speed (tidToThreadList ps ! m) avg + of_bool (0 < ?rem) < nodeCount L1 m"
      proof (cases "m = i")
        case True
        then have "\<not> ?pit" using m(2) S ij(2) by (auto split: if_splits)
        moreover have "?pt \<le> nodeCount L1 i" using tr(5) gt by (auto simp: k_def min_def)
        ultimately show ?thesis using True ij(2) by auto
      next
        case False
        then have ne: "tidToThreadList ps ! m \<noteq> p" using tid_differs[OF inv m(1) ij(1)] ij(2) by simp
        then have mp: "tidToThreadList ps ! m \<in> set pos1" using m(2) by (auto split: if_splits)
        then have "m \<noteq> j" using S ij(4) by auto
        then have "nodeCount L1 m = nodeCount L m" using tr(7) False by (simp add: nodeCount_def)
        moreover have "speed (tidToThreadList ps ! m) avg + of_bool (0 < rem) < nodeCount L m" using S mp m(1) by simp
        ultimately show ?thesis by (auto simp: of_bool_def split: if_splits)
      qed
    next
      fix m assume m: "m < numThreads ps" "tidToThreadList ps ! m \<in> set ?neg"
      show "nodeCount L1 m < speed (tidToThreadList ps ! m) avg"
      proof (cases "m = j")
        case True
        then have "\<not> ?nit" using m(2) S ij(4) by (auto split: if_splits)
        moreover have "nodeCount L1 j \<le> speed n avg" using tr(6) lt by (auto simp: k_def min_def)
        ultimately show ?thesis using True ij(4) by auto
      next
        case False
        then have ne: "tidToThreadList ps ! m \<noteq> n" using tid_differs[OF inv m(1) ij(3)] ij(4) by simp
        then have mn: "tidToThreadList ps ! m \<in> set neg1" using m(2) by (auto split: if_splits)
        then have "m \<noteq> i" using S ij(2) by auto
        then have "nodeCount L1 m = nodeCount L m" using tr(7) False by (simp add: nodeCount_def)
        then show ?thesis using S mn m(1) by simp
      qed
    next
      fix m assume m: "m < numThreads ps" "tidToThreadList ps ! m \<in> X" "tidToThreadList ps ! m \<notin> set (?pos @ ?neg)"
      show "onTarget (speed (tidToThreadList ps ! m) avg) (nodeCount L1 m)"
      proof (cases "m = i \<or> m = j")
        case True
        then show ?thesis
        proof
          assume "m = i"
          then have "nodeCount L1 m = ?pt" using m(3) ij(2) by (auto split: if_splits)
          then show ?thesis using \<open>m = i\<close> ij(2) by (simp add: onTarget_def)
        next
          assume "m = j"
          then have "nodeCount L1 m = speed n avg" using m(3) ij(4) by (auto split: if_splits)
          then show ?thesis using \<open>m = j\<close> ij(4) by (simp add: onTarget_def)
        qed
      next
        case False
        then have "tidToThreadList ps ! m \<noteq> p" "tidToThreadList ps ! m \<noteq> n"
          using tid_differs[OF inv m(1) ij(1)] tid_differs[OF inv m(1) ij(3)] ij(2,4) by auto
        then have "tidToThreadList ps ! m \<notin> set ((p # pos1) @ n # neg1)" using m(3) by (auto split: if_splits)
        moreover have "nodeCount L1 m = nodeCount L m" using tr(7) False by (simp add: nodeCount_def)
        ultimately show ?thesis using S m(1,2) by simp
      qed
    qed (use S in auto)
    have "length ?pos + length ?neg \<le> fuel" using Suc.prems(3) one by (auto simp: st)
    from Suc.IH[OF tr(2) st1 this] obtain rem' pos' neg' s' L' where IH:
      "pairTransfers fuel speed avg (?rem, ?pos, ?neg) s1 = Inr ((rem', pos', neg'), s')"
      "rebalanced P ps L1 s1 L' s'" "stacksOk speed avg ps L' X (rem', pos', neg')" "set (pos' @ neg') \<subseteq> set (?pos @ ?neg)" "pos' = [] \<or> neg' = []" by blast
    have "rebalanced P ps L s L' s'" using IH(2) tr(3,4) by (simp add: rebalanced_def)
    moreover have "set (pos' @ neg') \<subseteq> set (pos @ neg)" using IH(4) by (auto simp: st split: if_splits)
    ultimately show ?thesis using run IH(1,3,5) by auto
  qed
qed

text \<open>A list that has not been looked at finds room on its stack.\<close>

lemma stack_room:
  assumes inv: "set_inv P ps L s" and st: "distinct ts" "set ts \<subseteq> set (tidToThreadList ps)"
    and t: "t \<in> set (tidToThreadList ps)" "t \<notin> set ts"
  shows "length ts < numThreads ps"
proof -
  have "card (insert t (set ts)) \<le> card (set (tidToThreadList ps))" using st t by (intro card_mono) auto
  then show ?thesis using st(1) t(2) set_invD(1,2)[OF inv] by (simp add: distinct_card)
qed

lemma classifyList_ok:
  assumes sp: "\<And>a. speed a avg + 1 < 2 ^ 64" and inv: "set_inv P ps L s"
    and st: "stacksOk speed avg ps L X (rem, pos, neg)" and t: "t \<in> set (allSlots ps)" "t \<notin> set (pos @ neg)"
  shows "\<exists>rem' pos' neg'. classifyList speed avg (numThreads ps) s t (rem, pos, neg) = Inr (rem', pos', neg')
    \<and> stacksOk speed avg ps L (insert t X) (rem', pos', neg') \<and> set (pos' @ neg') \<subseteq> insert t (set (pos @ neg))"
proof -
  obtain l where l: "tlists s t = Some l" "tl_active l \<longleftrightarrow> t \<in> set (tidToThreadList ps)" using set_invD(6)[OF inv t(1)] by blast
  show ?thesis
  proof (cases "tl_active l")
    case False
    then have "t \<notin> set (tidToThreadList ps)" using l(2) by simp
    then have "tidToThreadList ps ! m \<noteq> t" if "m < numThreads ps" for m using that set_invD(1)[OF inv] by (metis nth_mem)
    then have "stacksOk speed avg ps L (insert t X) (rem, pos, neg)" using st by (simp add: stacksOk_def)
    then show ?thesis using l(1) False by (auto simp: classifyList_def deref_simps)
  next
    case True
    then have tm: "t \<in> set (tidToThreadList ps)" using l(2) by simp
    then obtain i where i: "i < numThreads ps" "t = tidToThreadList ps ! i" using set_invD(1)[OF inv] by (metis in_set_conv_nth)
    have num: "tl_numNodes l = nodeCount L i" using set_numNodes[OF inv i(1)] i(2) l(1) by (metis option.sel)
    note S = st[unfolded stacksOk_def prod.case]
    let ?b = "0 < rem \<and> nodeCount L i = speed t avg + 1"
    let ?rem = "rem - of_bool ?b"
    have e: "sz_add (speed t avg) 1 = speed t avg + 1" "sz_add (speed t avg) (c_bool (0 < ?rem)) = speed t avg + of_bool (0 < ?rem)"
      using sp[of t] by (simp_all add: sz_add_exact)
    have remE: "sz_sub rem (c_bool ?b) = ?rem" using S by (intro sz_sub_bool) simp
    have room: "length pos < numThreads ps" "length neg < numThreads ps"
      using stack_room[OF inv, of pos t] stack_room[OF inv, of neg t] S t(2) tm by auto
    have keep: "stacksOk speed avg ps L X (?rem, pos, neg)"
      using S unfolding stacksOk_def prod.case by (auto simp: of_bool_def split: if_splits)
    have only: "tidToThreadList ps ! m = t \<longleftrightarrow> m = i" if "m < numThreads ps" for m
      using tid_differs[OF inv that i(1)] i(2) by simp
    have K: "?rem < 2 ^ 64" "distinct (pos @ neg)" "set (pos @ neg) \<subseteq> set (tidToThreadList ps)"
      "\<And>m. m < numThreads ps \<Longrightarrow> tidToThreadList ps ! m \<in> set pos \<Longrightarrow> speed (tidToThreadList ps ! m) avg + of_bool (0 < ?rem) < nodeCount L m"
      "\<And>m. m < numThreads ps \<Longrightarrow> tidToThreadList ps ! m \<in> set neg \<Longrightarrow> nodeCount L m < speed (tidToThreadList ps ! m) avg"
      "\<And>m. m < numThreads ps \<Longrightarrow> tidToThreadList ps ! m \<in> X \<Longrightarrow> tidToThreadList ps ! m \<notin> set (pos @ neg)
        \<Longrightarrow> onTarget (speed (tidToThreadList ps ! m) avg) (nodeCount L m)"
      using keep unfolding stacksOk_def prod.case by blast+
    have old: "onTarget (speed (tidToThreadList ps ! m) avg) (nodeCount L m)"
      if "m < numThreads ps" "tidToThreadList ps ! m \<in> insert t X" "tidToThreadList ps ! m \<noteq> t" "tidToThreadList ps ! m \<notin> set (pos @ neg)" for m
      using K(6)[OF that(1)] that(2-4) by blast
    have run: "classifyList speed avg (numThreads ps) s t (rem, pos, neg) =
      (if speed t avg + of_bool (0 < ?rem) < nodeCount L i then Inr (?rem, t # pos, neg)
       else if nodeCount L i < speed t avg then Inr (?rem, pos, t # neg) else Inr (?rem, pos, neg))"
      unfolding classifyList_def prod.case Let_def
      by (simp only: deref_simps(3)[OF l(1)] bindE_simps(2) True num e remE room not_True_eq_False if_True if_False)
    show ?thesis
    proof (cases "speed t avg + of_bool (0 < ?rem) < nodeCount L i")
      case gt: True
      have "stacksOk speed avg ps L (insert t X) (?rem, t # pos, neg)"
        unfolding stacksOk_def prod.case
      proof (intro conjI allI impI)
        show "speed (tidToThreadList ps ! m) avg + of_bool (0 < ?rem) < nodeCount L m"
          if m: "m < numThreads ps" "tidToThreadList ps ! m \<in> set (t # pos)" for m
          by (cases "m = i") (use m K(4)[OF m(1)] gt i(2) only[OF m(1)] in auto)
        show "onTarget (speed (tidToThreadList ps ! m) avg) (nodeCount L m)"
          if m: "m < numThreads ps" "tidToThreadList ps ! m \<in> insert t X" "tidToThreadList ps ! m \<notin> set ((t # pos) @ neg)" for m
          using old[OF m(1,2)] m(3) by simp
      qed (use K(1-3,5) t(2) tm in auto)
      then show ?thesis using run gt by auto
    next
      case ngt: False
      show ?thesis
      proof (cases "nodeCount L i < speed t avg")
        case lt: True
        have "stacksOk speed avg ps L (insert t X) (?rem, pos, t # neg)"
          unfolding stacksOk_def prod.case
        proof (intro conjI allI impI)
          show "nodeCount L m < speed (tidToThreadList ps ! m) avg"
            if m: "m < numThreads ps" "tidToThreadList ps ! m \<in> set (t # neg)" for m
            by (cases "m = i") (use m K(5)[OF m(1)] lt i(2) only[OF m(1)] in auto)
          show "onTarget (speed (tidToThreadList ps ! m) avg) (nodeCount L m)"
            if m: "m < numThreads ps" "tidToThreadList ps ! m \<in> insert t X" "tidToThreadList ps ! m \<notin> set (pos @ t # neg)" for m
            using old[OF m(1,2)] m(3) by simp
        qed (use K(1-4) t(2) tm in auto)
        then show ?thesis using run ngt lt by auto
      next
        case False
        have "onTarget (speed t avg) (nodeCount L i)" using ngt False by (auto simp: onTarget_def of_bool_def split: if_splits)
        then have "stacksOk speed avg ps L (insert t X) (?rem, pos, neg)"
          unfolding stacksOk_def prod.case using K(1-5) old only i(2) by metis
        then show ?thesis using run ngt False by auto
      qed
    qed
  qed
qed

lemma balanceDomain_ok:
  assumes sp: "\<And>a. speed a avg + 1 < 2 ^ 64" and inv: "set_inv P ps L s"
    and st: "stacksOk speed avg ps L X (rem, pos, neg)" and d: "d \<in> set (domains ps)" "set (pos @ neg) \<inter> set (slotsOf d) = {}" "distinct (slotsOf d)"
  shows "\<exists>rem' pos' neg' s' L'. balanceDomain speed avg (numThreads ps) d ((rem, pos, neg), s) = Inr ((rem', pos', neg'), s')
    \<and> rebalanced P ps L s L' s' \<and> stacksOk speed avg ps L' (X \<union> set (slotsOf d)) (rem', pos', neg')
    \<and> set (pos' @ neg') \<subseteq> set (pos @ neg) \<union> set (slotsOf d) \<and> (pos' = [] \<or> neg' = [])"
proof -
  let ?I = "\<lambda>us (rem', pos', neg'). stacksOk speed avg ps L (X \<union> set us) (rem', pos', neg') \<and> set (pos' @ neg') \<subseteq> set (pos @ neg) \<union> set us"
  have "\<exists>r. forEach (classifyList speed avg (numThreads ps) s) (slotsOf d) (rem, pos, neg) = Inr r \<and> ?I (slotsOf d) r"
  proof (rule forEach_rule)
    show "?I [] (rem, pos, neg)" using st by simp
    fix us x vs r assume xs: "slotsOf d = us @ x # vs" and I: "?I us r"
    obtain rem1 pos1 neg1 where r: "r = (rem1, pos1, neg1)" by (cases r) auto
    have "x \<in> set (slotsOf d)" "x \<notin> set us" using d(3) unfolding xs by auto
    then have x: "x \<in> set (allSlots ps)" "x \<notin> set (pos1 @ neg1)" using d I r by (auto simp: allSlots_def)
    have I1: "stacksOk speed avg ps L (X \<union> set us) (rem1, pos1, neg1)" using I r by simp
    from classifyList_ok[where speed = speed and avg = avg, OF sp inv I1 x] I r show "\<exists>r'. classifyList speed avg (numThreads ps) s x r = Inr r' \<and> ?I (us @ [x]) r'"
      by fastforce
  qed
  then obtain rem1 pos1 neg1 where c: "forEach (classifyList speed avg (numThreads ps) s) (slotsOf d) (rem, pos, neg) = Inr (rem1, pos1, neg1)"
    "stacksOk speed avg ps L (X \<union> set (slotsOf d)) (rem1, pos1, neg1)" "set (pos1 @ neg1) \<subseteq> set (pos @ neg) \<union> set (slotsOf d)" by auto
  from pairTransfers_ok[OF sp inv c(2) le_refl] c(3) show ?thesis
    by (fastforce simp: balanceDomain_def c(1))
qed

text \<open>The totals: every list of a worker is active. The sum of the nodes wraps.\<close>

definition avgOf :: "('b, 'd) pumaSet \<Rightarrow> layout \<Rightarrow> nat" where
  "avgOf ps L = (\<Sum>i<numThreads ps. nodeCount L i) mod 2 ^ 64 div numThreads ps"

lemma nodeTotals_ok:
  assumes inv: "set_inv P ps L s" and n: "numThreads ps < 2 ^ 64"
  shows "nodeTotals s (take (numThreads ps) (tidToThreadList ps)) (0, 0)
    = Inr ((\<Sum>i<numThreads ps. nodeCount L i) mod 2 ^ 64, numThreads ps)"
proof -
  let ?num = "\<lambda>t. tl_numNodes (the (tlists s t))" and ?ts = "tidToThreadList ps"
  have len: "length ?ts = numThreads ps" by (rule set_invD(1)[OF inv])
  have lists: "nodeTotals s ts (a, n) = Inr ((a + sum_list (map ?num ts)) mod 2 ^ 64, n + length ts)"
    if "n + length ts < 2 ^ 64" "set ts \<subseteq> set ?ts" "a < 2 ^ 64" for ts a n
    using that
  proof (induction ts arbitrary: a n)
    case (Cons t ts)
    then obtain i where i: "i < numThreads ps" "t = ?ts ! i" using len by (metis in_set_conv_nth list.set_intros(1) subsetD)
    obtain l where l: "tlists s t = Some l" "tl_active l" "tl_numNodes l = nodeCount L i"
      using set_numNodes[OF inv i(1)] i(2) by metis
    have "sz_add n 1 = Suc n" using Cons.prems(1) by (simp add: sz_add_exact)
    moreover have "sz_mul (tl_numNodes l) 1 = tl_numNodes l"
      using nodeCount_less[OF inv i(1)] l(3) by (simp add: sz_mul_def)
    moreover have "sz_add a (tl_numNodes l) < 2 ^ 64" by (simp add: sz_add_def)
    ultimately show ?case
      using Cons.IH[of "Suc n" "sz_add a (tl_numNodes l)"] Cons.prems l(1,2)
      by (simp add: deref_simps sz_add_def mod_add_left_eq add.assoc)
  qed simp
  have "sum_list (map ?num ?ts) = (\<Sum>i<numThreads ps. ?num (?ts ! i))"
    by (simp add: sum_list_sum_nth len atLeast0LessThan)
  also have "\<dots> = (\<Sum>i<numThreads ps. nodeCount L i)"
  proof (rule sum.cong[OF refl])
    fix i assume "i \<in> {..<numThreads ps}"
    then obtain l where "tlists s (?ts ! i) = Some l" "tl_numNodes l = nodeCount L i" using set_numNodes[OF inv, of i] by auto
    then show "?num (?ts ! i) = nodeCount L i" by simp
  qed
  finally show ?thesis using lists[of 0 ?ts 0] len n by simp
qed

text \<open>What the balancing reaches: no list has more than one node above its target, or none is below.\<close>

definition balanced :: "speeds \<Rightarrow> nat \<Rightarrow> ('b, 'd) pumaSet \<Rightarrow> layout \<Rightarrow> bool" where
  "balanced speed avg ps L \<longleftrightarrow>
     (\<forall>i<numThreads ps. nodeCount L i \<le> Suc (speed (tidToThreadList ps ! i) avg))
   \<or> (\<forall>i<numThreads ps. speed (tidToThreadList ps ! i) avg \<le> nodeCount L i)"

lemma stacksOk_balanced:
  assumes "stacksOk speed avg ps L X (rem, pos, neg)" "pos = [] \<or> neg = []"
    and "\<And>i. i < numThreads ps \<Longrightarrow> tidToThreadList ps ! i \<in> X"
  shows "balanced speed avg ps L"
proof -
  note S = assms(1)[unfolded stacksOk_def prod.case]
  have off: "onTarget (speed (tidToThreadList ps ! i) avg) (nodeCount L i)"
    if "i < numThreads ps" "tidToThreadList ps ! i \<notin> set pos" "tidToThreadList ps ! i \<notin> set neg" for i
    using S assms(3)[OF that(1)] that by simp
  have less: "nodeCount L i < speed (tidToThreadList ps ! i) avg" if "i < numThreads ps" "tidToThreadList ps ! i \<in> set neg" for i
    using S that by simp
  have more: "speed (tidToThreadList ps ! i) avg < nodeCount L i" if "i < numThreads ps" "tidToThreadList ps ! i \<in> set pos" for i
    using S that by fastforce
  from assms(2) show ?thesis
  proof
    assume "pos = []"
    then have "nodeCount L i \<le> Suc (speed (tidToThreadList ps ! i) avg)" if "i < numThreads ps" for i
      using off[OF that] less[OF that] by (cases "tidToThreadList ps ! i \<in> set neg") (auto simp: onTarget_def)
    then show ?thesis by (simp add: balanced_def)
  next
    assume "neg = []"
    then have "speed (tidToThreadList ps ! i) avg \<le> nodeCount L i" if "i < numThreads ps" for i
      using off[OF that] more[OF that] by (cases "tidToThreadList ps ! i \<in> set pos") (auto simp: onTarget_def)
    then show ?thesis by (simp add: balanced_def)
  qed
qed

text \<open>
  Balancing ends without a fault, whatever targets the run times give: the set stays well formed,
  its elements are the same and stay where they are.
\<close>

theorem autobalanceThreadLoad_ok:
  assumes inv: "set_inv P ps L s" and n: "0 < numThreads ps" "numThreads ps < 2 ^ 64"
    and sp: "\<And>a k. speed a k + 1 < 2 ^ 64"
  shows "\<exists>s' L'. autobalanceThreadLoad speed ps s = Inr s' \<and> rebalanced P ps L s L' s' \<and> balanced speed (avgOf ps L) ps L'"
proof -
  let ?a = "(\<Sum>i<numThreads ps. nodeCount L i) mod 2 ^ 64" and ?avg = "avgOf ps L"
  have tot: "nodeTotals s (take (numThreads ps) (tidToThreadList ps)) (0, 0) = Inr (?a, numThreads ps)"
    by (rule nodeTotals_ok[OF inv n(2)])
  let ?I = "\<lambda>us (st, s'). \<exists>L'. rebalanced P ps L s L' s' \<and> stacksOk speed ?avg ps L' (set (concat (map slotsOf us))) st
    \<and> set (fst (snd st) @ snd (snd st)) \<subseteq> set (concat (map slotsOf us)) \<and> (fst (snd st) = [] \<or> snd (snd st) = [])"
  have "\<exists>r. forEach (balanceDomain speed ?avg (numThreads ps)) (domains ps) ((?a mod numThreads ps, [], []), s) = Inr r \<and> ?I (domains ps) r"
  proof (rule forEach_rule)
    have "?a mod numThreads ps < 2 ^ 64" using n by (meson mod_less_divisor less_trans)
    then show "?I [] ((?a mod numThreads ps, [], []), s)" using inv by (auto simp: stacksOk_def rebalanced_def intro!: exI[of _ L])
    fix us d vs r assume xs: "domains ps = us @ d # vs" and I: "?I us r"
    obtain rem pos neg s1 where r: "r = ((rem, pos, neg), s1)" by (metis surj_pair)
    let ?X = "set (concat (map slotsOf us))"
    from I r obtain L1 where L1: "rebalanced P ps L s L1 s1" "stacksOk speed ?avg ps L1 ?X (rem, pos, neg)"
      "set (pos @ neg) \<subseteq> ?X" by auto
    have dist: "distinct (concat (map slotsOf us) @ slotsOf d @ concat (map slotsOf vs))"
      using set_invD(4)[OF inv] by (simp add: allSlots_def xs del: distinct_append)
    have d: "d \<in> set (domains ps)" "set (pos @ neg) \<inter> set (slotsOf d) = {}" "distinct (slotsOf d)"
      using dist L1(3) by (auto simp: xs simp del: set_concat)
    have inv1: "set_inv P ps L1 s1" using L1(1) by (simp add: rebalanced_def)
    obtain rem' pos' neg' s' L' where D: "balanceDomain speed ?avg (numThreads ps) d ((rem, pos, neg), s1) = Inr ((rem', pos', neg'), s')"
      "rebalanced P ps L1 s1 L' s'" "stacksOk speed ?avg ps L' (?X \<union> set (slotsOf d)) (rem', pos', neg')"
      "set (pos' @ neg') \<subseteq> set (pos @ neg) \<union> set (slotsOf d)" "pos' = [] \<or> neg' = []"
      using balanceDomain_ok[where speed = speed and avg = ?avg, OF sp inv1 L1(2) d] by blast
    have "?I (us @ [d]) ((rem', pos', neg'), s')"
    proof -
      have X: "set (concat (map slotsOf (us @ [d]))) = ?X \<union> set (slotsOf d)" by auto
      have "set (pos' @ neg') \<subseteq> ?X \<union> set (slotsOf d)" using D(4) L1(3) by auto
      then show ?thesis unfolding prod.case fst_conv snd_conv X using rebalanced_trans[OF L1(1) D(2)] D(3,5) by blast
    qed
    then show "\<exists>s'. balanceDomain speed ?avg (numThreads ps) d r = Inr s' \<and> ?I (us @ [d]) s'" using r D(1) by blast
  qed
  then obtain st s' L' where fin: "forEach (balanceDomain speed ?avg (numThreads ps)) (domains ps) ((?a mod numThreads ps, [], []), s) = Inr (st, s')"
    "rebalanced P ps L s L' s'" "stacksOk speed ?avg ps L' (set (concat (map slotsOf (domains ps)))) st" "fst (snd st) = [] \<or> snd (snd st) = []"
    by auto
  obtain rem pos neg where st: "st = (rem, pos, neg)" by (metis surj_pair)
  have X: "tidToThreadList ps ! i \<in> set (concat (map slotsOf (domains ps)))" if "i < numThreads ps" for i
    using set_invD(1,5)[OF inv] that by (metis allSlots_def nth_mem subsetD)
  have "balanced speed ?avg ps L'" by (rule stacksOk_balanced[OF fin(3)[unfolded st] _ X]) (use fin(4) st in simp)
  have "take (numDomains ps) (domains ps) = domains ps" using set_invD(3)[OF inv] by simp
  moreover have "?a div numThreads ps = ?avg" by (simp add: avgOf_def)
  ultimately have "autobalanceThreadLoad speed ps s = Inr s'"
    using n(1) fin(1) by (simp add: autobalanceThreadLoad_def tot)
  then show ?thesis using fin(2) \<open>balanced speed ?avg ps L'\<close> by blast
qed

theorem balanceThreadLoad_ok:
  assumes "set_inv P ps L s" "0 < numThreads ps" "numThreads ps < 2 ^ 64" "\<And>a k. speed a k + 1 < 2 ^ 64"
  shows "\<exists>s' L'. balanceThreadLoad speed ps s = Inr s' \<and> rebalanced P ps L s L' s'"
proof (cases "autoBalance ps")
  case True
  obtain s' L' where "autobalanceThreadLoad speed ps s = Inr s'" "rebalanced P ps L s L' s'"
    using autobalanceThreadLoad_ok[where speed = speed, OF assms] by blast
  then show ?thesis using True by (simp add: balanceThreadLoad_def) blast
next
  case False
  then show ?thesis using assms(1) by (auto simp: balanceThreadLoad_def rebalanced_def)
qed

end
