(* ===== verification/SetOps.thy ===== *)
theory SetOps
  imports Autobalance Kernel
begin

text \<open>
  Operations of the workers on a set: the allocators of \<open>src/pumalloc.c\<close> and kernels on the
  worker's own list. Each acts on one list; the locale of \<open>PumaSet\<close> lifts it to the set. A
  sequence of operations refines a bag of elements.
\<close>

section \<open>Operations\<close>

definition pumalloc :: "platform \<Rightarrow> memalign \<Rightarrow> ('b, 'd) pumaSet \<Rightarrow> nat \<Rightarrow> 'e mem \<Rightarrow> c_fault + (addr \<times> 'e mem)" where
  "pumalloc P ma ps tid s = bindE (getListForCurrentThread P ps tid) (\<lambda>t. pumallocOnThreadList ma t s)"

definition pumallocManualBalancing :: "memalign \<Rightarrow> ('b, 'd) pumaSet \<Rightarrow> 'b \<Rightarrow> 'e mem \<Rightarrow> c_fault + (addr \<times> 'e mem)" where
  "pumallocManualBalancing ma ps balData s =
     (case splitter ps of
        None \<Rightarrow> Inl NullDeref
      | Some f \<Rightarrow>
          let tid = f balData (numThreads ps) (splitterExtraData ps)
          in if tid < length (tidToThreadList ps) then pumallocOnThreadList ma (tidToThreadList ps ! tid) s
             else Inl (OutOfBounds tid))"

text \<open>The search of \<open>pumallocAutoBalancing\<close>; 0 is \<open>NULL\<close>.\<close>

definition minStep :: "'e mem \<Rightarrow> addr \<Rightarrow> addr \<Rightarrow> c_fault + addr" where
  "minStep s tmpThreadList minThreadList =
     bindE (derefList s tmpThreadList) (\<lambda>l.
     if tl_active l \<and> minThreadList \<noteq> 0
     then bindE (derefList s minThreadList) (\<lambda>lm.
          Inr (if tl_numElements l < tl_numElements lm then tmpThreadList else minThreadList))
     else Inr minThreadList)"

definition pumallocAutoBalancing :: "memalign \<Rightarrow> ('b, 'd) pumaSet \<Rightarrow> 'e mem \<Rightarrow> c_fault + (addr \<times> 'e mem)" where
  "pumallocAutoBalancing ma ps s =
     bindE (forEach (\<lambda>d. forEach (minStep s) (slotsOf d)) (take (numDomains ps) (domains ps)) 0) (\<lambda>minThreadList.
     pumallocOnThreadList ma minThreadList s)"

definition runKernelOnWorker ::
  "platform \<Rightarrow> ('b, 'd) pumaSet \<Rightarrow> ('e, 'x) kernel \<Rightarrow> nat \<Rightarrow> 'x \<Rightarrow> 'e mem \<Rightarrow> c_fault + ('x \<times> 'e mem)" where
  "runKernelOnWorker P ps kern tid x s = bindE (getListForCurrentThread P ps tid) (\<lambda>t. runKernelThread kern t x s)"

section \<open>The list operations as steps of a set\<close>

lemma freed_frame: "freed t e s s' xs ys ys' \<Longrightarrow> framed t (set xs \<union> set ys \<union> {a. nodeAt s a = None}) s s'"
  unfolding freed_def by (elim conjE) (erule framed_mono, blast)

lemma kernelDone_frame: "kernelDone k t s s' x x' xs ys xs' ys' \<Longrightarrow> framed t (set xs \<union> set ys \<union> {a. nodeAt s a = None}) s s'"
  unfolding kernelDone_def by (elim conjE) (erule framed_mono, blast)

interpretation al: list_step "\<lambda>e t. allocated t e"
  by unfold_locales (unfold allocated_def, blast+)

interpretation fr: list_step "\<lambda>e t s s' xs ys xs' ys'. xs' = xs \<and> freed t e s s' xs ys ys'"
  by unfold_locales (auto simp only: freed_def intro: freed_frame)

interpretation kd: list_step "\<lambda>r t s s' xs ys xs' ys'. kernelDone (fst r) t s s' (fst (snd r)) (snd (snd r)) xs ys xs' ys'"
proof
  show "kernelDone (fst r) t s s' (fst (snd r)) (snd (snd r)) xs ys xs' ys' \<Longrightarrow> tl_inv s' t xs' ys'" for r t s s' xs ys xs' ys'
    unfolding kernelDone_def by blast
qed (rule kernelDone_frame)

section \<open>The operations on a well-formed set\<close>

definition canAlloc :: "('b, 'd) pumaSet \<Rightarrow> 'e mem \<Rightarrow> addr list \<Rightarrow> bool" where
  "canAlloc ps s xs \<longleftrightarrow> elementFits s (ps_elementSize ps) \<and> length xs < 2 ^ 31 \<and> tailSafe (nodeAt s) xs"

theorem pumalloc_ok:
  assumes inv: "set_inv P ps L s" and tid: "tid < numThreads ps" and ma: "memalign_spec ma"
    and can: "canAlloc ps s (fst (L tid))"
  shows "(\<exists>e s' xs' ys'. pumalloc P ma ps tid s = Inr (e, s') \<and> set_inv P ps (L(tid := (xs', ys'))) s'
        \<and> e \<in> liveAddrs (nodeAt s') xs' \<and> length xs' \<le> Suc (length (fst (L tid)))
        \<and> setContents ps (L(tid := (xs', ys'))) s' = add_mset (cells s' e) (setContents ps L s))
    \<or> pumalloc P ma ps tid s = Inl OutOfMemory \<and> snd (L tid) = [] \<and> ma (fmdom (nodes s)) (nodeBytes s) = None"
proof -
  let ?t = "tidToThreadList ps ! tid"
  have run: "pumalloc P ma ps tid s = pumallocOnThreadList ma ?t s"
    by (simp add: pumalloc_def set_invD(7)[OF inv tid])
  obtain l where l: "tlists s ?t = Some l" "tl_elementSize l = ps_elementSize ps" using set_numNodes[OF inv tid] by metis
  have c: "elementFits s (tl_elementSize l)" "length (fst (L tid)) < 2 ^ 31" "tailSafe (nodeAt s) (fst (L tid))"
    using can l(2) by (simp_all add: canAlloc_def)
  from pumallocOnThreadList_ok[OF ma set_invD(8)[OF inv tid] l(1) c]
  show ?thesis
  proof (elim disjE exE conjE)
    fix e s' xs' ys'
    assume a: "pumallocOnThreadList ma ?t s = Inr (e, s')" "allocated ?t e s s' (fst (L tid)) (snd (L tid)) xs' ys'"
      and len: "length xs' \<le> Suc (length (fst (L tid)))"
    have "setContents ps (L(tid := (xs', ys'))) s' + contents (nodeAt s) (cells s) (fst (L tid))
        = setContents ps L s + contents (nodeAt s') (cells s') xs'"
      by (rule al.setContents_step[OF inv tid a(2)])
    moreover have "contents (nodeAt s') (cells s') xs' = add_mset (cells s' e) (contents (nodeAt s) (cells s) (fst (L tid)))"
      "e \<in> liveAddrs (nodeAt s') xs'" using a(2) by (simp_all add: allocated_def)
    ultimately show ?thesis using run a(1) al.set_kept[OF inv tid a(2)] len
      by (intro disjI1 exI[of _ e] exI[of _ s'] exI[of _ xs'] exI[of _ ys']) simp
  qed (simp add: run)
qed

theorem pufree_set_ok:
  assumes inv: "set_inv P ps L s" and tid: "tid < numThreads ps" and e: "e \<in> liveAddrs (nodeAt s) (fst (L tid))"
  shows "\<exists>s' ys'. pufree e s = Inr s' \<and> set_inv P ps (L(tid := (fst (L tid), ys'))) s' \<and> cells s' = cells s
    \<and> setContents ps L s = add_mset (cells s e) (setContents ps (L(tid := (fst (L tid), ys'))) s')"
proof -
  obtain s' ys' where f: "pufree e s = Inr s'" "freed (tidToThreadList ps ! tid) e s s' (fst (L tid)) (snd (L tid)) ys'"
    using pufree_ok[OF set_invD(8)[OF inv tid] e] by blast
  then have h: "fst (L tid) = fst (L tid) \<and> freed (tidToThreadList ps ! tid) e s s' (fst (L tid)) (snd (L tid)) ys'" by simp
  have "setContents ps (L(tid := (fst (L tid), ys'))) s' + contents (nodeAt s) (cells s) (fst (L tid))
      = setContents ps L s + contents (nodeAt s') (cells s') (fst (L tid))"
    by (rule fr.setContents_step[OF inv tid h])
  moreover have "contents (nodeAt s) (cells s) (fst (L tid)) = add_mset (cells s e) (contents (nodeAt s') (cells s') (fst (L tid)))"
    "cells s' = cells s" using f(2) by (simp_all add: freed_def)
  ultimately show ?thesis using f(1) fr.set_kept[OF inv tid h] by auto
qed

theorem runKernelOnWorker_ok:
  assumes inv: "set_inv P ps L s" and tid: "tid < numThreads ps"
  shows "\<exists>x' s' xs' ys' es es'. runKernelOnWorker P ps k tid x s = Inr (x', s') \<and> set_inv P ps (L(tid := (xs', ys'))) s'
    \<and> feed k es x = (es', x') \<and> mset es = contents (nodeAt s) (cells s) (fst (L tid))
    \<and> contents (nodeAt s') (cells s') xs' = mset es'
    \<and> setContents ps (L(tid := (xs', ys'))) s' + mset es = setContents ps L s + mset es'
    \<and> (\<forall>j<numThreads ps. j \<noteq> tid \<longrightarrow> contents (nodeAt s') (cells s') (fst (L j)) = contents (nodeAt s) (cells s) (fst (L j)))"
proof -
  let ?t = "tidToThreadList ps ! tid"
  obtain x' s' xs' ys' where r: "runKernelThread k ?t x s = Inr (x', s')"
    "kernelDone k ?t s s' x x' (fst (L tid)) (snd (L tid)) xs' ys'"
    using runKernelThread_ok[where k = k and x = x, OF set_invD(8)[OF inv tid]] by blast
  let ?r = "(k, x, x')"
  have h: "kernelDone (fst ?r) ?t s s' (fst (snd ?r)) (snd (snd ?r)) (fst (L tid)) (snd (L tid)) xs' ys'" using r(2) by simp
  obtain es es' where f: "feed k es x = (es', x')" "mset es = contents (nodeAt s) (cells s) (fst (L tid))"
    "contents (nodeAt s') (cells s') xs' = mset es'" using r(2) by (auto simp: kernelDone_def)
  have "runKernelOnWorker P ps k tid x s = Inr (x', s')" using r(1) by (simp add: runKernelOnWorker_def set_invD(7)[OF inv tid])
  moreover have "setContents ps (L(tid := (xs', ys'))) s' + mset es = setContents ps L s + mset es'"
    using kd.setContents_step[OF inv tid h] f(2,3) by simp
  ultimately show ?thesis
    using f kd.set_kept[OF inv tid h] kd.others_contents[OF inv tid _ _ h]
    by (intro exI[of _ x'] exI[of _ s'] exI[of _ xs'] exI[of _ ys'] exI[of _ es] exI[of _ es']) blast
qed

text \<open>The allocator that is to choose the smallest list dereferences \<open>NULL\<close>: no list is ever taken as the first.\<close>

theorem pumallocAutoBalancing_null:
  assumes inv: "set_inv P ps L s" and z: "tlists s 0 = None"
  shows "pumallocAutoBalancing ma ps s = Inl NullDeref"
proof -
  have step: "minStep s t 0 = Inr 0" if "t \<in> set (allSlots ps)" for t
    using set_invD(6)[OF inv that] by (auto simp: minStep_def deref_simps)
  have inner: "forEach (minStep s) ts 0 = Inr 0" if "set ts \<subseteq> set (allSlots ps)" for ts
    using that by (induction ts) (auto simp: step)
  have "forEach (\<lambda>d. forEach (minStep s) (slotsOf d)) ds 0 = Inr 0" if "set ds \<subseteq> set (domains ps)" for ds
    using that
  proof (induction ds)
    case (Cons d ds)
    then have "set (slotsOf d) \<subseteq> set (allSlots ps)" by (auto simp: allSlots_def)
    then show ?case using Cons inner by simp
  qed simp
  from this[of "take (numDomains ps) (domains ps)"] show ?thesis
    using z by (simp add: pumallocAutoBalancing_def set_take_subset pumallocOnThreadList_def deref_simps badDeref_def)
qed

end
