(* ===== verification/SetSeq.thy ===== *)
theory SetSeq
  imports SetOps
begin

text \<open>
  Sequences of operations of the workers on a set, and their refinement of a bag: an allocation
  adds the value written to the new element, a release takes one away, a kernel replaces the
  elements of one worker by its results, balancing changes nothing.
\<close>

section \<open>The nodes of a list, read from the heap\<close>

fun activeChain :: "nat \<Rightarrow> addr \<Rightarrow> 'e mem \<Rightarrow> addr list" where
  "activeChain 0 c s = []"
| "activeChain (Suc fuel) c s =
     (if c = 0 then []
      else case nodeAt s c of
          None \<Rightarrow> []
        | Some nd \<Rightarrow> if n_active nd then c # activeChain fuel (n_next nd) s else [])"

definition nodeList :: "addr \<Rightarrow> 'e mem \<Rightarrow> addr list" where
  "nodeList t s = (case tlists s t of None \<Rightarrow> [] | Some l \<Rightarrow> activeChain (Suc (fcard (fmdom (nodes s)))) (tl_head l) s)"

lemma activeChain_links:
  "links (nodeAt s) p (xs @ ys) 0 \<Longrightarrow> (\<And>m. m \<in> set xs \<Longrightarrow> n_active (the (nodeAt s m)))
   \<Longrightarrow> (\<And>m. m \<in> set ys \<Longrightarrow> \<not> n_active (the (nodeAt s m))) \<Longrightarrow> 0 \<notin> set xs \<Longrightarrow> length xs < fuel
   \<Longrightarrow> activeChain fuel (firstOr (xs @ ys) 0) s = xs"
proof (induction xs arbitrary: p fuel)
  case Nil
  then obtain fuel' where "fuel = Suc fuel'" by (cases fuel) auto
  then show ?case using Nil.prems(1,4) Nil.prems(3)[of "hd ys"] by (cases ys) auto
next
  case (Cons x xs)
  then obtain fuel' where fuel: "fuel = Suc fuel'" by (cases fuel) auto
  obtain nd where nd: "nodeAt s x = Some nd" "n_next nd = firstOr (xs @ ys) 0" and lk: "links (nodeAt s) x (xs @ ys) 0"
    using Cons.prems(1) by auto
  have "activeChain fuel' (firstOr (xs @ ys) 0) s = xs" by (rule Cons.IH[OF lk]) (use Cons.prems fuel in auto)
  then show ?case using nd Cons.prems(2)[of x] Cons.prems(4) by (simp add: fuel)
qed

lemma nodeList_ok:
  assumes inv: "tl_inv s t xs ys"
  shows "nodeList t s = xs"
proof -
  obtain l where l: "tlists s t = Some l" and ok: "list_ok (nodeBytes s) t l (nodeAt s) xs ys" using inv by (rule tl_invE)
  note D = list_okD[OF ok]
  have "activeChain (Suc (fcard (fmdom (nodes s)))) (firstOr (xs @ ys) 0) s = xs"
    by (rule activeChain_links[OF D(2)]) (use D(4,5) list_ok_nz[OF ok, of 0] list_ok_length[OF ok] in auto)
  then show ?thesis using l D(8) by (simp add: nodeList_def del: activeChain.simps)
qed

section \<open>Operations and their bag\<close>

datatype ('e, 'x) setOp =
    Alloc nat 'e
  | Free addr
  | Kernel nat "('e, 'x) kernel" 'x
  | Balance speeds

text \<open>What a caller must see to: a live element to free, a worker of the set, a safe tail to allocate.\<close>

definition speedsOk :: "speeds \<Rightarrow> bool" where
  "speedsOk speed \<longleftrightarrow> (\<forall>a k. speed a k + 1 < 2 ^ 64)"

fun opSafe :: "('b, 'd) pumaSet \<Rightarrow> 'e mem \<Rightarrow> ('e, 'x) setOp \<Rightarrow> bool" where
  "opSafe ps s (Alloc tid v) \<longleftrightarrow> tid < numThreads ps \<and> canAlloc ps s (nodeList (tidToThreadList ps ! tid) s)"
| "opSafe ps s (Free e) \<longleftrightarrow> (\<exists>tid<numThreads ps. e \<in> liveAddrs (nodeAt s) (nodeList (tidToThreadList ps ! tid) s))"
| "opSafe ps s (Kernel tid k x) \<longleftrightarrow> tid < numThreads ps"
| "opSafe ps s (Balance speed) \<longleftrightarrow> speedsOk speed"

text \<open>The caller writes the new element after the allocation.\<close>

fun runOp :: "platform \<Rightarrow> memalign \<Rightarrow> ('b, 'd) pumaSet \<Rightarrow> ('e, 'x) setOp \<Rightarrow> 'e mem \<Rightarrow> c_fault + 'e mem" where
  "runOp P ma ps (Alloc tid v) s = bindE (pumalloc P ma ps tid s) (\<lambda>(e, s1). Inr (putCell e v s1))"
| "runOp P ma ps (Free e) s = pufree e s"
| "runOp P ma ps (Kernel tid k x) s = bindE (runKernelOnWorker P ps k tid x s) (\<lambda>(x', s1). Inr s1)"
| "runOp P ma ps (Balance speed) s = balanceThreadLoad speed ps s"

inductive bagStep :: "('e, 'x) setOp \<Rightarrow> 'e multiset \<Rightarrow> 'e multiset \<Rightarrow> bool" where
  bag_alloc: "bagStep (Alloc tid v) M (add_mset v M)"
| bag_free: "bagStep (Free e) (add_mset v M) M"
| bag_kernel: "feed k es x = (es', x') \<Longrightarrow> bagStep (Kernel tid k x) (mset es + R) (mset es' + R)"
| bag_balance: "bagStep (Balance speed) M M"

inductive_cases bag_allocE: "bagStep (Alloc tid v) M M'"
inductive_cases bag_freeE: "bagStep (Free e) M M'"
inductive_cases bag_kernelE: "bagStep (Kernel tid k x) M M'"
inductive_cases bag_balanceE: "bagStep (Balance speed) M M'"

definition represents :: "platform \<Rightarrow> ('b, 'd) pumaSet \<Rightarrow> 'e mem \<Rightarrow> 'e multiset \<Rightarrow> bool" where
  "represents P ps s M \<longleftrightarrow> (\<exists>L. set_inv P ps L s \<and> setContents ps L s = M)"

lemma set_inv_putCell [simp]: "set_inv P ps L (putCell e v s) = set_inv P ps L s"
  by (simp add: set_inv_def mem_simps)

text \<open>Writing one live element replaces it in the bag.\<close>

lemma contents_put:
  assumes "e \<in> liveAddrs N xs"
  shows "contents N (c(e := v)) xs + {#c e#} = contents N c xs + {#v#}"
proof -
  have f: "finite (liveAddrs N xs)" by simp
  have "mset_set (liveAddrs N xs) = add_mset e (mset_set (liveAddrs N xs - {e}))"
    using mset_set.remove[OF f assms] by simp
  moreover have "image_mset (c(e := v)) (mset_set (liveAddrs N xs - {e})) = image_mset c (mset_set (liveAddrs N xs - {e}))"
    by (rule image_mset_cong) auto
  ultimately show ?thesis by (simp add: contents_def)
qed

lemma setContents_put:
  assumes inv: "set_inv P ps L s" and tid: "tid < numThreads ps" and e: "e \<in> liveAddrs (nodeAt s) (fst (L tid))"
  shows "setContents ps L (putCell e v s) + {#cells s e#} = setContents ps L s + {#v#}"
proof -
  let ?T = "{..<numThreads ps}"
  have m: "finite ?T" "tid \<in> ?T" using tid by simp_all
  have "contents (nodeAt s) ((cells s)(e := v)) (fst (L j)) = contents (nodeAt s) (cells s) (fst (L j))" if j: "j \<in> ?T - {tid}" for j
  proof (rule contents_cong[OF refl])
    obtain lj where oj: "list_ok (nodeBytes s) (tidToThreadList ps ! j) lj (nodeAt s) (fst (L j)) (snd (L j))"
      using set_invD(8)[OF inv, of j] j by (auto simp: tl_inv_def)
    obtain lt where ot: "list_ok (nodeBytes s) (tidToThreadList ps ! tid) lt (nodeAt s) (fst (L tid)) (snd (L tid))"
      using set_invD(8)[OF inv tid] by (auto simp: tl_inv_def)
    obtain n where n: "n \<in> set (fst (L tid))" "e \<in> liveOf (the (nodeAt s n))" using e by (auto simp: liveAddrs_def)
    fix m a assume a: "m \<in> set (fst (L j))" "a \<in> liveOf (the (nodeAt s m))"
    have "m \<noteq> n" using set_nodes_disjoint[OF inv tid, of j] j a(1) n(1) by auto
    then have "a \<noteq> e" using list_ok_live_block[OF oj a] list_ok_live_block[OF ot n] by auto
    then show "((cells s)(e := v)) a = cells s a" by simp
  qed
  then have "(\<Sum>j\<in>?T - {tid}. contents (nodeAt s) ((cells s)(e := v)) (fst (L j))) = (\<Sum>j\<in>?T - {tid}. contents (nodeAt s) (cells s) (fst (L j)))"
    by (rule sum.cong[OF refl])
  then show ?thesis
    using contents_put[OF e, of "cells s" v] unfolding setContents_def sum.remove[OF m] by (simp add: mem_simps add_ac)
qed

lemma mset_replace: "A + {#x#} = add_mset x B + {#y#} \<Longrightarrow> A = add_mset y B"
  by simp

section \<open>Refinement\<close>

theorem runOp_refines:
  assumes rep: "represents P ps s M" and safe: "opSafe ps s op" and ma: "memalign_spec ma"
    and n: "0 < numThreads ps" "numThreads ps < 2 ^ 64"
  shows "(\<exists>s' M'. runOp P ma ps op s = Inr s' \<and> bagStep op M M' \<and> represents P ps s' M')
    \<or> (\<exists>tid v. op = Alloc tid v) \<and> runOp P ma ps op s = Inl OutOfMemory"
proof -
  obtain L where inv: "set_inv P ps L s" and M: "M = setContents ps L s" using rep by (auto simp: represents_def)
  have lst: "nodeList (tidToThreadList ps ! tid) s = fst (L tid)" if "tid < numThreads ps" for tid
    by (rule nodeList_ok[OF set_invD(8)[OF inv that]])
  show ?thesis
  proof (cases op)
    case (Alloc tid v)
    then have tid: "tid < numThreads ps" "canAlloc ps s (fst (L tid))" using safe lst by auto
    from pumalloc_ok[OF inv tid(1) ma tid(2)] show ?thesis
    proof (elim disjE exE conjE)
      fix e s' xs' ys'
      assume a: "pumalloc P ma ps tid s = Inr (e, s')" "set_inv P ps (L(tid := (xs', ys'))) s'" "e \<in> liveAddrs (nodeAt s') xs'"
        "setContents ps (L(tid := (xs', ys'))) s' = add_mset (cells s' e) (setContents ps L s)"
      have "e \<in> liveAddrs (nodeAt s') (fst ((L(tid := (xs', ys'))) tid))" using a(3) by simp
      then have "setContents ps (L(tid := (xs', ys'))) (putCell e v s') = add_mset v M"
        unfolding M by (rule mset_replace[OF setContents_put[OF a(2) tid(1), of e v, unfolded a(4)]])
      then have "represents P ps (putCell e v s') (add_mset v M)" using a(2) unfolding represents_def by auto
      moreover have "runOp P ma ps op s = Inr (putCell e v s')" using a(1) by (simp add: Alloc)
      ultimately show ?thesis unfolding Alloc by (intro disjI1 exI conjI) (assumption, rule bag_alloc, assumption)
    qed (simp add: Alloc)
  next
    case (Free e)
    then obtain tid where tid: "tid < numThreads ps" "e \<in> liveAddrs (nodeAt s) (fst (L tid))" using safe lst by auto
    from pufree_set_ok[OF inv tid] obtain s' ys' where f: "pufree e s = Inr s'" "set_inv P ps (L(tid := (fst (L tid), ys'))) s'"
      "M = add_mset (cells s e) (setContents ps (L(tid := (fst (L tid), ys'))) s')" unfolding M by blast
    then have "represents P ps s' (setContents ps (L(tid := (fst (L tid), ys'))) s')" by (auto simp: represents_def)
    then show ?thesis using f(1) Free bag_free unfolding f(3) by (metis runOp.simps(2))
  next
    case (Kernel tid k x)
    then have tid: "tid < numThreads ps" using safe by simp
    from runKernelOnWorker_ok[OF inv tid, of k x] obtain x' s' xs' ys' es es' where r: "runKernelOnWorker P ps k tid x s = Inr (x', s')"
      "set_inv P ps (L(tid := (xs', ys'))) s'" "feed k es x = (es', x')" "mset es = contents (nodeAt s) (cells s) (fst (L tid))"
      "setContents ps (L(tid := (xs', ys'))) s' + mset es = setContents ps L s + mset es'" by blast
    have "mset es \<subseteq># M"
      unfolding M setContents_def r(4) using tid by (metis finite_lessThan lessThan_iff mset_subset_eq_add_left sum.remove)
    then obtain R where R: "M = mset es + R" by (auto simp: subset_mset.le_iff_add)
    then have "setContents ps (L(tid := (xs', ys'))) s' = mset es' + R" using r(5) M by (simp add: add_ac)
    then have "represents P ps s' (mset es' + R)" using r(2) by (auto simp: represents_def)
    moreover have "runOp P ma ps op s = Inr s'" using r(1) by (simp add: Kernel)
    ultimately show ?thesis unfolding Kernel R by (intro disjI1 exI conjI) (assumption, rule bag_kernel[OF r(3)], assumption)
  next
    case (Balance speed)
    then have "\<And>a k. speed a k + 1 < 2 ^ 64" using safe by (simp add: speedsOk_def)
    from balanceThreadLoad_ok[where speed = speed, OF inv n this] obtain s' L' where b: "balanceThreadLoad speed ps s = Inr s'" "rebalanced P ps L s L' s'" by blast
    then have "represents P ps s' M" using M by (auto simp: rebalanced_def represents_def)
    moreover have "runOp P ma ps op s = Inr s'" using b(1) by (simp add: Balance)
    ultimately show ?thesis unfolding Balance by (intro disjI1 exI conjI) (assumption, rule bag_balance, assumption)
  qed
qed

text \<open>Sequences of safe operations, and what holds in every state they reach.\<close>

inductive setSteps ::
  "platform \<Rightarrow> memalign \<Rightarrow> ('b, 'd) pumaSet \<Rightarrow> ('e, 'x) setOp list \<Rightarrow> 'e mem \<Rightarrow> 'e mem \<Rightarrow> bool"
  for P ma ps where
  steps_nil: "setSteps P ma ps [] s s"
| steps_snoc: "setSteps P ma ps ops s s1 \<Longrightarrow> opSafe ps s1 op \<Longrightarrow> runOp P ma ps op s1 = Inr s2
    \<Longrightarrow> setSteps P ma ps (ops @ [op]) s s2"

inductive bagSteps :: "('e, 'x) setOp list \<Rightarrow> 'e multiset \<Rightarrow> 'e multiset \<Rightarrow> bool" where
  bags_nil: "bagSteps [] M M"
| bags_snoc: "bagSteps ops M M1 \<Longrightarrow> bagStep op M1 M2 \<Longrightarrow> bagSteps (ops @ [op]) M M2"

theorem setSteps_refine:
  assumes st: "setSteps P ma ps ops s s'" and ma: "memalign_spec ma" and n: "0 < numThreads ps" "numThreads ps < 2 ^ 64"
    and rep: "represents P ps s M"
  shows "\<exists>M'. bagSteps ops M M' \<and> represents P ps s' M'"
  using st rep
proof (induction rule: setSteps.induct)
  case (steps_nil s)
  then show ?case using bags_nil by blast
next
  case (steps_snoc ops s s1 op s2)
  then obtain M1 where M1: "bagSteps ops M M1" "represents P ps s1 M1" by blast
  from runOp_refines[OF M1(2) steps_snoc.hyps(2) ma n] steps_snoc.hyps(3)
  obtain M2 where "bagStep op M1 M2" "represents P ps s2 M2" by auto
  then show ?case using bags_snoc[OF M1(1)] by blast
qed

definition allocs :: "('e, 'x) setOp list \<Rightarrow> nat" where
  "allocs ops = length (filter (\<lambda>op. case op of Alloc _ _ \<Rightarrow> True | _ \<Rightarrow> False) ops)"

definition frees :: "('e, 'x) setOp list \<Rightarrow> nat" where
  "frees ops = length (filter (\<lambda>op. case op of Free _ \<Rightarrow> True | _ \<Rightarrow> False) ops)"

lemma feed_length: "feed k es x = (es', x') \<Longrightarrow> length es' = length es"
  by (induction es arbitrary: x es') (auto split: prod.splits)

lemma bagSteps_size: "bagSteps ops M M' \<Longrightarrow> size M' + frees ops = size M + allocs ops"
proof (induction rule: bagSteps.induct)
  case (bags_snoc ops M M1 op M2)
  from bags_snoc.hyps(2) show ?case
    by cases (use bags_snoc.IH in \<open>auto simp: allocs_def frees_def feed_length\<close>)
qed (simp add: allocs_def frees_def)

end
