(* ===== verification/ExtraData.thy ===== *)
theory ExtraData
  imports PumaPrelude
begin

text \<open>
  The descriptor of a kernel's extra data: \<open>include/extradata.h\<close> and \<open>src/extradata.c\<close>. The
  functions of a descriptor are the caller's; they may act on a world of their own, of type \<open>'w\<close>.
  A data pointer is \<open>None\<close> for \<open>NULL\<close>, or the value it points to.
\<close>

record ('c, 'y, 'r, 'w) pumaExtraKernelData =
  extraDataConstructor :: "'c option \<Rightarrow> 'w \<Rightarrow> 'y option \<times> 'w"
  constructorData :: "'c option"
  extraDataDestructor :: "'y option \<Rightarrow> 'w \<Rightarrow> 'w"
  extraDataThreadReduce :: "'y option \<Rightarrow> 'w \<Rightarrow> 'y option \<times> 'w"
  extraDataReduce :: "'r option \<Rightarrow> 'y option list \<Rightarrow> nat \<Rightarrow> 'w \<Rightarrow> 'w"
  retValue :: "'r option"

definition emptyExtraDataConstructor :: "'c option \<Rightarrow> 'w \<Rightarrow> 'y option \<times> 'w" where
  "emptyExtraDataConstructor cdata w = (None, w)"

definition emptyExtraDataDestructor :: "'y option \<Rightarrow> 'w \<Rightarrow> 'w" where
  "emptyExtraDataDestructor data w = w"

definition emptyExtraDataReduce :: "'r option \<Rightarrow> 'y option list \<Rightarrow> nat \<Rightarrow> 'w \<Rightarrow> 'w" where
  "emptyExtraDataReduce ret data nThreads w = w"

definition emptyExtraDataPerThreadReduce :: "'y option \<Rightarrow> 'w \<Rightarrow> 'y option \<times> 'w" where
  "emptyExtraDataPerThreadReduce data w = (data, w)"

definition emptyKernelData :: "('c, 'y, 'r, 'w) pumaExtraKernelData" where
  "emptyKernelData = \<lparr>extraDataConstructor = emptyExtraDataConstructor, constructorData = None,
     extraDataDestructor = emptyExtraDataDestructor, extraDataThreadReduce = emptyExtraDataPerThreadReduce,
     extraDataReduce = emptyExtraDataReduce, retValue = None\<rparr>"

text \<open>\<open>initKernelData\<close>: an argument that is \<open>NULL\<close> leaves the entry of \<open>emptyKernelData\<close>.\<close>

definition initKernelData ::
  "('c option \<Rightarrow> 'w \<Rightarrow> 'y option \<times> 'w) option \<Rightarrow> 'c option \<Rightarrow> ('y option \<Rightarrow> 'w \<Rightarrow> 'w) option
   \<Rightarrow> ('y option \<Rightarrow> 'w \<Rightarrow> 'y option \<times> 'w) option \<Rightarrow> ('r option \<Rightarrow> 'y option list \<Rightarrow> nat \<Rightarrow> 'w \<Rightarrow> 'w) option
   \<Rightarrow> 'r option \<Rightarrow> ('c, 'y, 'r, 'w) pumaExtraKernelData" where
  "initKernelData ctor cdata dtor treduce reduce ret =
     (let k0 = emptyKernelData;
          k1 = (case ctor of Some f \<Rightarrow> k0\<lparr>extraDataConstructor := f\<rparr> | None \<Rightarrow> k0);
          k2 = (case cdata of Some d \<Rightarrow> k1\<lparr>constructorData := Some d\<rparr> | None \<Rightarrow> k1);
          k3 = (case dtor of Some f \<Rightarrow> k2\<lparr>extraDataDestructor := f\<rparr> | None \<Rightarrow> k2);
          k4 = (case treduce of Some f \<Rightarrow> k3\<lparr>extraDataThreadReduce := f\<rparr> | None \<Rightarrow> k3);
          k5 = (case reduce of Some f \<Rightarrow> k4\<lparr>extraDataReduce := f\<rparr> | None \<Rightarrow> k4)
      in case ret of Some r \<Rightarrow> k5\<lparr>retValue := Some r\<rparr> | None \<Rightarrow> k5)"

lemma initKernelData_fields:
  "extraDataConstructor (initKernelData ctor cdata dtor treduce reduce ret) = (case ctor of Some f \<Rightarrow> f | None \<Rightarrow> emptyExtraDataConstructor)"
  "constructorData (initKernelData ctor cdata dtor treduce reduce ret) = cdata"
  "extraDataDestructor (initKernelData ctor cdata dtor treduce reduce ret) = (case dtor of Some f \<Rightarrow> f | None \<Rightarrow> emptyExtraDataDestructor)"
  "extraDataThreadReduce (initKernelData ctor cdata dtor treduce reduce ret) = (case treduce of Some f \<Rightarrow> f | None \<Rightarrow> emptyExtraDataPerThreadReduce)"
  "extraDataReduce (initKernelData ctor cdata dtor treduce reduce ret) = (case reduce of Some f \<Rightarrow> f | None \<Rightarrow> emptyExtraDataReduce)"
  "retValue (initKernelData ctor cdata dtor treduce reduce ret) = ret"
  by (auto simp: initKernelData_def emptyKernelData_def Let_def split: option.split)

end
