(* ===== verification/SetKernel.thy ===== *)
theory SetKernel
  imports SetOps ExtraData
begin

text \<open>
  Kernels over a whole set: \<open>runKernelList\<close>, \<open>runKernel\<close> and \<open>runKernelCurrentThread\<close> of
  \<open>src/pumakernel.c\<close>. The workers run one after the other, in any order; each constructs its extra
  data, runs every kernel on its list and reduces its data; then all data are reduced and destroyed.
\<close>

section \<open>Operations\<close>

definition runKernelWorker ::
  "platform \<Rightarrow> ('b, 'd) pumaSet \<Rightarrow> ('c, 'y, 'r, 'w) pumaExtraKernelData \<Rightarrow> ('e, 'y option) kernel list
   \<Rightarrow> nat \<Rightarrow> 'y option list \<times> 'w \<times> 'e mem \<Rightarrow> c_fault + 'y option list \<times> 'w \<times> 'e mem" where
  "runKernelWorker P ps ed kernels tid = (\<lambda>(extraData, w, s).
     let (x, w1) = extraDataConstructor ed (constructorData ed) w
     in if tid < length extraData
        then bindE (forEach (\<lambda>k (x, s). runKernelOnWorker P ps k tid x s) kernels (x, s)) (\<lambda>(x', s').
             let (x'', w2) = extraDataThreadReduce ed x' w1
             in Inr (extraData[tid := x''], w2, s'))
        else Inl (OutOfBounds tid))"

definition cleanupKernelWorker ::
  "('c, 'y, 'r, 'w) pumaExtraKernelData \<Rightarrow> 'y option list \<Rightarrow> nat \<Rightarrow> 'w \<Rightarrow> c_fault + 'w" where
  "cleanupKernelWorker ed extraData tid w =
     (if tid < length extraData then Inr (extraDataDestructor ed (extraData ! tid) w) else Inl (OutOfBounds tid))"

text \<open>\<open>runKernelList\<close>: the workers run in \<open>order\<close>, then clean up in \<open>order'\<close>.\<close>

definition runKernelList ::
  "platform \<Rightarrow> speeds \<Rightarrow> nat list \<Rightarrow> nat list \<Rightarrow> ('b, 'd) pumaSet \<Rightarrow> ('e, 'y option) kernel list
   \<Rightarrow> ('c, 'y, 'r, 'w) pumaExtraKernelData option \<Rightarrow> 'w \<Rightarrow> 'e mem \<Rightarrow> c_fault + 'w \<times> 'e mem" where
  "runKernelList P speed order order' ps kernels extraDataDetails w s =
     bindE (balanceThreadLoad speed ps s) (\<lambda>s1.
     let nThreads = numThreads ps mod 2 ^ 32;
         ed = (case extraDataDetails of None \<Rightarrow> emptyKernelData | Some d \<Rightarrow> d)
     in bindE (forEach (runKernelWorker P ps ed kernels) order (replicate nThreads None, w, s1)) (\<lambda>(extraData, w1, s2).
        bindE (forEach (cleanupKernelWorker ed extraData) order'
                 (extraDataReduce ed (retValue ed) extraData nThreads w1)) (\<lambda>w2.
        Inr (w2, s2))))"

definition runKernel ::
  "platform \<Rightarrow> speeds \<Rightarrow> nat list \<Rightarrow> nat list \<Rightarrow> ('b, 'd) pumaSet \<Rightarrow> ('e, 'y option) kernel
   \<Rightarrow> ('c, 'y, 'r, 'w) pumaExtraKernelData option \<Rightarrow> 'w \<Rightarrow> 'e mem \<Rightarrow> c_fault + 'w \<times> 'e mem" where
  "runKernel P speed order order' ps kern extraDataDetails w s =
     runKernelList P speed order order' ps [kern] extraDataDetails w s"

text \<open>On the current worker only; here the descriptor must not be \<open>NULL\<close>.\<close>

definition runKernelCurrentThread ::
  "platform \<Rightarrow> speeds \<Rightarrow> nat \<Rightarrow> ('b, 'd) pumaSet \<Rightarrow> ('e, 'y option) kernel
   \<Rightarrow> ('c, 'y, 'r, 'w) pumaExtraKernelData option \<Rightarrow> 'w \<Rightarrow> 'e mem \<Rightarrow> c_fault + 'w \<times> 'e mem" where
  "runKernelCurrentThread P speed tid ps kern extraDataDetails w s =
     bindE (balanceThreadLoad speed ps s) (\<lambda>s1.
     case extraDataDetails of
       None \<Rightarrow> Inl NullDeref
     | Some ed \<Rightarrow>
         let (x, w1) = extraDataConstructor ed (constructorData ed) w
         in bindE (runKernelOnWorker P ps kern tid x s1) (\<lambda>(x', s2).
            let (x'', w2) = extraDataThreadReduce ed x' w1
            in Inr (extraDataDestructor ed x'' w2, s2)))"

section \<open>The kernels of one worker\<close>

text \<open>\<open>fedAll ks M x M' x'\<close>: each kernel in turn is applied once to every element of the bag.\<close>

fun fedAll :: "('e, 'x) kernel list \<Rightarrow> 'e multiset \<Rightarrow> 'x \<Rightarrow> 'e multiset \<Rightarrow> 'x \<Rightarrow> bool" where
  "fedAll [] M x M' x' \<longleftrightarrow> M' = M \<and> x' = x"
| "fedAll (k # ks) M x M' x' \<longleftrightarrow> (\<exists>es es' x1. mset es = M \<and> feed k es x = (es', x1) \<and> fedAll ks (mset es') x1 M' x')"

abbreviation bagOf :: "layout \<Rightarrow> 'e mem \<Rightarrow> nat \<Rightarrow> 'e multiset" where
  "bagOf L s i \<equiv> contents (nodeAt s) (cells s) (fst (L i))"

lemma workerKernels_ok:
  "set_inv P ps L s \<Longrightarrow> tid < numThreads ps \<Longrightarrow>
   \<exists>x' s' ns. forEach (\<lambda>k (x, s). runKernelOnWorker P ps k tid x s) ks (x, s) = Inr (x', s')
     \<and> set_inv P ps (L(tid := ns)) s' \<and> fedAll ks (bagOf L s tid) x (bagOf (L(tid := ns)) s' tid) x'
     \<and> (\<forall>j<numThreads ps. j \<noteq> tid \<longrightarrow> bagOf L s' j = bagOf L s j)"
proof (induction ks arbitrary: L s x)
  case Nil
  then show ?case by (intro exI[of _ x] exI[of _ s] exI[of _ "L tid"]) simp
next
  case (Cons k ks)
  from runKernelOnWorker_ok[OF Cons.prems, of k x] obtain x1 s1 xs1 ys1 es es1 where
    r: "runKernelOnWorker P ps k tid x s = Inr (x1, s1)" "set_inv P ps (L(tid := (xs1, ys1))) s1" "feed k es x = (es1, x1)"
      "mset es = bagOf L s tid" "contents (nodeAt s1) (cells s1) xs1 = mset es1"
      "\<forall>j<numThreads ps. j \<noteq> tid \<longrightarrow> bagOf L s1 j = bagOf L s j" by blast
  from Cons.IH[OF r(2) Cons.prems(2), of x1] obtain x' s' ns where
    IH: "forEach (\<lambda>k (x, s). runKernelOnWorker P ps k tid x s) ks (x1, s1) = Inr (x', s')"
      "set_inv P ps (L(tid := (xs1, ys1), tid := ns)) s'"
      "fedAll ks (bagOf (L(tid := (xs1, ys1))) s1 tid) x1 (bagOf (L(tid := (xs1, ys1), tid := ns)) s' tid) x'"
      "\<forall>j<numThreads ps. j \<noteq> tid \<longrightarrow> bagOf (L(tid := (xs1, ys1))) s' j = bagOf (L(tid := (xs1, ys1))) s1 j" by blast
  have "fedAll (k # ks) (bagOf L s tid) x (bagOf (L(tid := ns)) s' tid) x'"
    unfolding fedAll.simps
  proof (intro exI conjI)
    show "mset es = bagOf L s tid" "feed k es x = (es1, x1)" by (rule r(4), rule r(3))
    show "fedAll ks (mset es1) x1 (bagOf (L(tid := ns)) s' tid) x'" using IH(3) r(5) by simp
  qed
  moreover have "\<forall>j<numThreads ps. j \<noteq> tid \<longrightarrow> bagOf L s' j = bagOf L s j" using IH(4) r(6) by simp
  moreover have "forEach (\<lambda>k (x, s). runKernelOnWorker P ps k tid x s) (k # ks) (x, s) = Inr (x', s')"
    using r(1) IH(1) by simp
  moreover have "set_inv P ps (L(tid := ns)) s'" using IH(2) by simp
  ultimately show ?case by blast
qed

section \<open>All workers\<close>

text \<open>
  What the run of the workers leaves, from the world \<open>w\<close> on, worker after worker: the constructor gives
  the data, which go through the kernels with the worker's elements, and the reduction of the thread
  gives \<open>ext i\<close>; each call starts in the world that the one before has left.
\<close>

fun workersRan ::
  "('c, 'y, 'r, 'w) pumaExtraKernelData \<Rightarrow> ('e, 'y option) kernel list \<Rightarrow> (nat \<Rightarrow> 'e multiset) \<Rightarrow> (nat \<Rightarrow> 'e multiset)
   \<Rightarrow> (nat \<Rightarrow> 'y option) \<Rightarrow> nat list \<Rightarrow> 'w \<Rightarrow> 'w \<Rightarrow> bool" where
  "workersRan ed ks M M' ext [] w w' \<longleftrightarrow> w' = w"
| "workersRan ed ks M M' ext (i # order) w w' \<longleftrightarrow>
     (\<exists>x w1 x' w2. extraDataConstructor ed (constructorData ed) w = (x, w1) \<and> fedAll ks (M i) x (M' i) x'
        \<and> extraDataThreadReduce ed x' w1 = (ext i, w2) \<and> workersRan ed ks M M' ext order w2 w')"

lemma workersRan_append:
  "workersRan ed ks M M' ext (us @ vs) w w' \<longleftrightarrow> (\<exists>w1. workersRan ed ks M M' ext us w w1 \<and> workersRan ed ks M M' ext vs w1 w')"
proof (induction us arbitrary: w)
  case (Cons i us)
  show ?case unfolding append_Cons workersRan.simps Cons.IH by blast
qed simp

lemma workersRan_cong:
  "\<lbrakk>\<And>i. i \<in> set order \<Longrightarrow> M i = N i; \<And>i. i \<in> set order \<Longrightarrow> M' i = N' i; \<And>i. i \<in> set order \<Longrightarrow> ext i = ext' i\<rbrakk>
   \<Longrightarrow> workersRan ed ks M M' ext order w w' \<longleftrightarrow> workersRan ed ks N N' ext' order w w'"
  by (induction order arbitrary: w) simp_all

lemma workersRan_fed:
  "workersRan ed ks M M' ext order w w' \<Longrightarrow> i \<in> set order \<Longrightarrow> \<exists>x x'. fedAll ks (M i) x (M' i) x'"
  by (induction order arbitrary: w) auto

lemma workers_ok:
  fixes ed :: "('c, 'y, 'r, 'w) pumaExtraKernelData" and w :: 'w
  assumes inv: "set_inv P ps L s" and order: "distinct order" "set order \<subseteq> {..<numThreads ps}" and n: "length ext = numThreads ps"
  shows "\<exists>ext' w' s' L'. forEach (runKernelWorker P ps ed ks) order (ext, w, s) = Inr (ext', w', s')
    \<and> length ext' = numThreads ps \<and> set_inv P ps L' s'
    \<and> workersRan ed ks (bagOf L s) (bagOf L' s') ((!) ext') order w w'"
proof -
  let ?I = "\<lambda>us (ext', w', s'). length ext' = numThreads ps \<and> (\<exists>L'. set_inv P ps L' s'
      \<and> workersRan ed ks (bagOf L s) (bagOf L' s') ((!) ext') us w w'
      \<and> (\<forall>i<numThreads ps. i \<notin> set us \<longrightarrow> bagOf L' s' i = bagOf L s i))"
  have "\<exists>r. forEach (runKernelWorker P ps ed ks) order (ext, w, s) = Inr r \<and> ?I order r"
  proof (rule forEach_rule)
    show "?I [] (ext, w, s)" using inv n by auto
    fix us tid vs r assume xs: "order = us @ tid # vs" and I: "?I us r"
    have tid: "tid < numThreads ps" "tid \<notin> set us" "set us \<subseteq> {..<numThreads ps}" using order unfolding xs by auto
    obtain ext1 w1 s1 where r: "r = (ext1, w1, s1)" by (cases r) auto
    from I r obtain L1 where L1: "length ext1 = numThreads ps" "set_inv P ps L1 s1"
      "workersRan ed ks (bagOf L s) (bagOf L1 s1) ((!) ext1) us w w1"
      "\<And>i. i < numThreads ps \<Longrightarrow> i \<notin> set us \<Longrightarrow> bagOf L1 s1 i = bagOf L s i" by auto
    obtain x w2 where c: "extraDataConstructor ed (constructorData ed) w1 = (x, w2)" by fastforce
    from workerKernels_ok[OF L1(2) tid(1), of ks x] obtain x' s' ns where
      k: "forEach (\<lambda>k (x, s). runKernelOnWorker P ps k tid x s) ks (x, s1) = Inr (x', s')"
        "set_inv P ps (L1(tid := ns)) s'" "fedAll ks (bagOf L1 s1 tid) x (bagOf (L1(tid := ns)) s' tid) x'"
        "\<forall>j<numThreads ps. j \<noteq> tid \<longrightarrow> bagOf L1 s' j = bagOf L1 s1 j" by blast
    obtain d w3 where t: "extraDataThreadReduce ed x' w2 = (d, w3)" by fastforce
    let ?L = "L1(tid := ns)" and ?ext = "ext1[tid := d]"
    have run: "runKernelWorker P ps ed ks tid r = Inr (?ext, w3, s')"
      using tid(1) by (simp add: runKernelWorker_def r c k(1) t L1(1))
    have others: "bagOf ?L s' i = bagOf L1 s1 i" "i \<noteq> tid" if "i \<in> set us \<or> i < numThreads ps \<and> i \<notin> set (us @ [tid])" for i
    proof -
      show "i \<noteq> tid" using that tid(2) by auto
      moreover have "i < numThreads ps" using that tid(3) by auto
      ultimately show "bagOf ?L s' i = bagOf L1 s1 i" using k(4) by auto
    qed
    have "workersRan ed ks (bagOf L s) (bagOf ?L s') ((!) ?ext) us w w1
        \<longleftrightarrow> workersRan ed ks (bagOf L s) (bagOf L1 s1) ((!) ext1) us w w1"
    proof (rule workersRan_cong)
      show "bagOf ?L s' i = bagOf L1 s1 i" "?ext ! i = ext1 ! i" if "i \<in> set us" for i
        using others[of i] that by simp_all
    qed simp
    moreover have "fedAll ks (bagOf L s tid) x (bagOf ?L s' tid) x'" using k(3) L1(4)[OF tid(1,2)] by simp
    ultimately have "workersRan ed ks (bagOf L s) (bagOf ?L s') ((!) ?ext) (us @ [tid]) w w3"
      using L1(1,3) tid(1) c t by (auto simp: workersRan_append)
    moreover have "bagOf ?L s' i = bagOf L s i" if "i < numThreads ps" "i \<notin> set (us @ [tid])" for i
      using others[of i] L1(4)[of i] that by auto
    ultimately have "?I (us @ [tid]) (?ext, w3, s')" unfolding prod.case using L1(1) k(2) by (intro conjI exI[of _ ?L]) auto
    then show "\<exists>r'. runKernelWorker P ps ed ks tid r = Inr r' \<and> ?I (us @ [tid]) r'" using run by blast
  qed
  then show ?thesis by auto
qed

text \<open>The data are then reduced together, in the world that the last worker left, and destroyed in turn.\<close>

lemma cleanups_fold:
  "set order' \<subseteq> {..<length ext} \<Longrightarrow>
   forEach (cleanupKernelWorker ed ext) order' w = Inr (fold (\<lambda>i. extraDataDestructor ed (ext ! i)) order' w)"
  by (induction order' arbitrary: w) (auto simp: cleanupKernelWorker_def)

theorem runKernelList_ok:
  assumes inv: "set_inv P ps L s" and n: "0 < numThreads ps" "numThreads ps < 2 ^ 32" and sp: "\<And>a k. speed a k + 1 < 2 ^ 64"
    and order: "distinct order" "set order = {..<numThreads ps}" and order': "set order' \<subseteq> {..<numThreads ps}"
    and ed: "ed = (case details of None \<Rightarrow> emptyKernelData | Some d \<Rightarrow> d)"
  shows "\<exists>w1 s' s1 L1 L' ext. runKernelList P speed order order' ps ks details w s
        = Inr (fold (\<lambda>i. extraDataDestructor ed (ext ! i)) order' (extraDataReduce ed (retValue ed) ext (numThreads ps) w1), s')
    \<and> balanceThreadLoad speed ps s = Inr s1 \<and> rebalanced P ps L s L1 s1 \<and> set_inv P ps L' s' \<and> length ext = numThreads ps
    \<and> workersRan ed ks (bagOf L1 s1) (bagOf L' s') ((!) ext) order w w1"
proof -
  have n64: "numThreads ps < 2 ^ 64" using n(2) by simp
  obtain s1 L1 where b: "balanceThreadLoad speed ps s = Inr s1" "rebalanced P ps L s L1 s1"
    using balanceThreadLoad_ok[where speed = speed, OF inv n(1) n64 sp] by blast
  have nm: "numThreads ps mod 2 ^ 32 = numThreads ps" using n(2) by simp
  have inv1: "set_inv P ps L1 s1" using b(2) by (simp add: rebalanced_def)
  have sub: "set order \<subseteq> {..<numThreads ps}" using order(2) by simp
  obtain ext w1 s' L' where W: "forEach (runKernelWorker P ps ed ks) order (replicate (numThreads ps) None, w, s1) = Inr (ext, w1, s')"
    "length ext = numThreads ps" "set_inv P ps L' s'" "workersRan ed ks (bagOf L1 s1) (bagOf L' s') ((!) ext) order w w1"
    using workers_ok[OF inv1 order(1) sub length_replicate, of ed ks None w] by blast
  have "runKernelList P speed order order' ps ks details w s
      = Inr (fold (\<lambda>i. extraDataDestructor ed (ext ! i)) order' (extraDataReduce ed (retValue ed) ext (numThreads ps) w1), s')"
    using W(1) cleanups_fold[of order' ext ed] order' W(2) unfolding runKernelList_def Let_def nm b(1) ed[symmetric] by simp
  then show ?thesis using b W(2-4) by blast
qed

section \<open>A kernel on each element alone\<close>

lemma feed_map: "feed (\<lambda>e x. (g e, h e x)) es x = (es', x') \<Longrightarrow> es' = map g es"
  by (induction es arbitrary: x es') (auto split: prod.splits)

lemma sum_image_mset: "finite T \<Longrightarrow> image_mset g (\<Sum>i\<in>T. M i) = (\<Sum>i\<in>T. image_mset g (M i))"
  by (induction T rule: finite_induct) auto

theorem runKernel_map:
  assumes inv: "set_inv P ps L s" and n: "0 < numThreads ps" "numThreads ps < 2 ^ 32" and sp: "\<And>a k. speed a k + 1 < 2 ^ 64"
    and order: "distinct order" "set order = {..<numThreads ps}" and order': "set order' \<subseteq> {..<numThreads ps}"
  shows "\<exists>w' s' L'. runKernel P speed order order' ps (\<lambda>e x. (g e, h e x)) details w s = Inr (w', s')
    \<and> set_inv P ps L' s' \<and> setContents ps L' s' = image_mset g (setContents ps L s)"
proof -
  let ?ed = "case details of None \<Rightarrow> emptyKernelData | Some d \<Rightarrow> d" and ?k = "\<lambda>e x. (g e, h e x)"
  from runKernelList_ok[where speed = speed and ks = "[?k]" and details = details and w = w, OF inv n sp order order' refl]
  obtain w' w1 s' s1 L1 L' ext where r: "runKernelList P speed order order' ps [?k] details w s = Inr (w', s')"
    "rebalanced P ps L s L1 s1" "set_inv P ps L' s'" "workersRan ?ed [?k] (bagOf L1 s1) (bagOf L' s') ((!) ext) order w w1" by blast
  have "bagOf L' s' i = image_mset g (bagOf L1 s1 i)" if i: "i < numThreads ps" for i
  proof -
    obtain x es es' x1 where f: "mset es = bagOf L1 s1 i" "feed ?k es x = (es', x1)" "bagOf L' s' i = mset es'"
      using workersRan_fed[OF r(4), of i] i order(2) unfolding fedAll.simps by auto
    show ?thesis unfolding f(3) f(1)[symmetric] feed_map[OF f(2)] by simp
  qed
  then have "setContents ps L' s' = image_mset g (setContents ps L1 s1)" by (simp add: setContents_def sum_image_mset)
  then show ?thesis using r(1-3) by (auto simp: runKernel_def rebalanced_def)
qed

end
