(* ===== verification/StaticVar.thy ===== *)
theory StaticVar
  imports PumaDomain
begin

text \<open>
  Thread-local static data: \<open>src/pumastaticvar.c\<close>. One thread is modelled: its two keys and the
  chain of its blocks. The page size is that of the memory \<open>m\<close>.
\<close>

section \<open>State and operations\<close>

record pumaStaticNode =
  sn_nextFree :: addr
  sn_used :: nat
  sn_blockSize :: nat
  sn_next :: addr
  sn_prev :: addr

definition sizeof_pumaStaticNode :: nat where
  "sizeof_pumaStaticNode = 40"

record staticState =
  staticNodes :: "addr \<Rightarrow> pumaStaticNode option"
  staticHead :: addr
  staticTail :: addr

text \<open>\<open>numalloc_on_node\<close>: gives the address of a block of that size, or none.\<close>

type_synonym staticAlloc = "staticState \<Rightarrow> nat \<Rightarrow> addr option"

definition derefStatic :: "staticState \<Rightarrow> addr \<Rightarrow> c_fault + pumaStaticNode" where
  "derefStatic st a = (case staticNodes st a of None \<Rightarrow> Inl (badDeref a) | Some n \<Rightarrow> Inr n)"

definition putStatic :: "addr \<Rightarrow> pumaStaticNode \<Rightarrow> staticState \<Rightarrow> staticState" where
  "putStatic a n st = st\<lparr>staticNodes := (staticNodes st)(a := Some n)\<rparr>"

definition appendStaticNode :: "staticAlloc \<Rightarrow> addr \<Rightarrow> nat \<Rightarrow> staticState \<Rightarrow> c_fault + (addr \<times> staticState)" where
  "appendStaticNode na prev nodeSize st =
     (let sz = sz_add nodeSize sizeof_pumaStaticNode
      in case na st sz of
           None \<Rightarrow> Inl OutOfMemory
         | Some ret \<Rightarrow>
             let st1 = putStatic ret \<lparr>sn_nextFree = sz_add ret sizeof_pumaStaticNode, sn_used = 0, sn_blockSize = sz,
                          sn_next = 0, sn_prev = prev\<rparr> st
             in if prev \<noteq> 0
                then bindE (derefStatic st1 prev) (\<lambda>p. Inr (ret, putStatic prev (p\<lparr>sn_next := ret\<rparr>) st1))
                else Inr (ret, st1))"

definition tailHasSpace :: "nat \<Rightarrow> staticState \<Rightarrow> c_fault + bool" where
  "tailHasSpace sz st =
     bindE (derefStatic st (staticTail st)) (\<lambda>tail. Inr (sz \<le> sz_sub (sn_blockSize tail) (sn_used tail)))"

text \<open>The head of the chain is made on the first call; \<open>rnd\<close> is \<open>_getSmallestContainingPages\<close>.\<close>

definition pumallocStaticLocal :: "staticAlloc \<Rightarrow> 'e mem \<Rightarrow> nat \<Rightarrow> staticState \<Rightarrow> c_fault + (addr \<times> staticState)" where
  "pumallocStaticLocal na m sz st =
     bindE (if staticHead st = 0
            then bindE (appendStaticNode na 0 (getSmallestContainingPages m sz) st) (\<lambda>(newHead, st1).
                 Inr (st1\<lparr>staticHead := newHead, staticTail := newHead\<rparr>))
            else Inr st) (\<lambda>st1.
     bindE (tailHasSpace sz st1) (\<lambda>fits.
     bindE (if fits then Inr (staticTail st1, st1)
            else appendStaticNode na (staticTail st1) (getSmallestContainingPages m sz) st1) (\<lambda>(tail, st2).
     bindE (derefStatic st2 tail) (\<lambda>n.
     Inr (sn_nextFree n, putStatic tail (n\<lparr>sn_nextFree := sz_add (sn_nextFree n) sz, sn_used := sz_add (sn_used n) sz\<rparr>) st2)))))"

fun deleteStaticNodes :: "nat \<Rightarrow> addr \<Rightarrow> staticState \<Rightarrow> c_fault + staticState" where
  "deleteStaticNodes 0 head st = Inl OutOfFuel"
| "deleteStaticNodes (Suc fuel) head st =
     (if head = 0 then Inr st
      else bindE (derefStatic st head) (\<lambda>n. deleteStaticNodes fuel (sn_next n) (st\<lparr>staticNodes := (staticNodes st)(head := None)\<rparr>)))"

definition pumaDeleteStaticData :: "nat \<Rightarrow> staticState \<Rightarrow> c_fault + staticState" where
  "pumaDeleteStaticData fuel st =
     bindE (deleteStaticNodes fuel (staticHead st) st) (\<lambda>st1. Inr (st1\<lparr>staticHead := 0, staticTail := 0\<rparr>))"

section \<open>What an allocation keeps\<close>

text \<open>
  In every block the next free byte is behind the header and the used bytes. The used bytes are
  compared with the size of the whole block, header included. Both keys name the first block; it
  links the block appended last.
\<close>

definition block_ok :: "addr \<Rightarrow> pumaStaticNode \<Rightarrow> bool" where
  "block_ok a n \<longleftrightarrow> 0 < a \<and> a + sn_blockSize n < 2 ^ 63 \<and> sn_used n \<le> sn_blockSize n
     \<and> sn_nextFree n = a + sizeof_pumaStaticNode + sn_used n"

definition chain_ok :: "staticState \<Rightarrow> bool" where
  "chain_ok st \<longleftrightarrow> staticTail st = staticHead st \<and> (staticHead st \<noteq> 0 \<longrightarrow>
     (\<exists>h. staticNodes st (staticHead st) = Some h \<and> (sn_next h \<noteq> 0 \<longrightarrow> sn_next h \<noteq> staticHead st
        \<and> (\<exists>x. staticNodes st (sn_next h) = Some x \<and> sn_next x = 0))))"

definition static_inv :: "staticState \<Rightarrow> bool" where
  "static_inv st \<longleftrightarrow> (\<forall>a n. staticNodes st a = Some n \<longrightarrow> block_ok a n) \<and> chain_ok st"

text \<open>A block of the allocator is new, not at \<open>NULL\<close>, and in the user's half of the address space.\<close>

definition static_alloc_spec :: "staticAlloc \<Rightarrow> bool" where
  "static_alloc_spec na \<longleftrightarrow> (\<forall>st sz a. na st sz = Some a \<longrightarrow> 0 < a \<and> a + sz < 2 ^ 63 \<and> staticNodes st a = None)"

definition emptyStatic :: staticState where
  "emptyStatic = \<lparr>staticNodes = Map.empty, staticHead = 0, staticTail = 0\<rparr>"

lemma emptyStatic_inv: "static_inv emptyStatic"
  by (simp add: static_inv_def chain_ok_def emptyStatic_def)

lemma putStatic_simps [simp]:
  "staticNodes (putStatic a n st) b = (if b = a then Some n else staticNodes st b)"
  "staticHead (putStatic a n st) = staticHead st" "staticTail (putStatic a n st) = staticTail st"
  by (simp_all add: putStatic_def)

lemma static_inv_block: "static_inv st \<Longrightarrow> staticNodes st a = Some n \<Longrightarrow> block_ok a n"
  by (simp add: static_inv_def)

definition freshBlock :: "addr \<Rightarrow> addr \<Rightarrow> nat \<Rightarrow> pumaStaticNode" where
  "freshBlock a prev sz = \<lparr>sn_nextFree = a + sizeof_pumaStaticNode, sn_used = 0,
     sn_blockSize = sz + sizeof_pumaStaticNode, sn_next = 0, sn_prev = prev\<rparr>"

lemma freshBlock_ok: "0 < a \<Longrightarrow> a + (sz + sizeof_pumaStaticNode) < 2 ^ 63 \<Longrightarrow> block_ok a (freshBlock a prev sz)"
  by (simp add: block_ok_def freshBlock_def)

lemma appendStaticNode_eq:
  assumes sz: "sz + sizeof_pumaStaticNode < 2 ^ 64" and na: "static_alloc_spec na"
    and prev: "prev = 0 \<or> staticNodes st prev = Some p"
  shows "appendStaticNode na prev sz st =
    (case na st (sz + sizeof_pumaStaticNode) of
       None \<Rightarrow> Inl OutOfMemory
     | Some a \<Rightarrow> Inr (a, let st1 = putStatic a (freshBlock a prev sz) st
                         in if prev = 0 then st1 else putStatic prev (p\<lparr>sn_next := a\<rparr>) st1))"
proof (cases "na st (sz + sizeof_pumaStaticNode)")
  case None
  then show ?thesis using sz by (simp add: appendStaticNode_def sz_add_exact)
next
  case (Some a)
  then have a: "0 < a" "a + (sz + sizeof_pumaStaticNode) < 2 ^ 63" "staticNodes st a = None"
    using na by (auto simp: static_alloc_spec_def)
  have "sz_add a sizeof_pumaStaticNode = a + sizeof_pumaStaticNode" using a(2) by (intro sz_add_exact) simp
  then show ?thesis
    using Some sz prev a(3) by (auto simp: appendStaticNode_def sz_add_exact Let_def freshBlock_def derefStatic_def bindE_def)
qed

text \<open>The piece that a block gives: behind the bytes it gave before.\<close>

definition usedIn :: "staticState \<Rightarrow> addr \<Rightarrow> nat" where
  "usedIn st a = (case staticNodes st a of None \<Rightarrow> 0 | Some n \<Rightarrow> sn_used n)"

definition gavePiece :: "addr \<Rightarrow> nat \<Rightarrow> staticState \<Rightarrow> staticState \<Rightarrow> addr \<Rightarrow> bool" where
  "gavePiece a sz st st' ret \<longleftrightarrow> static_inv st' \<and> staticHead st' \<noteq> 0 \<and> ret = a + sizeof_pumaStaticNode + usedIn st a
     \<and> (\<forall>b. usedIn st' b = (if b = a then usedIn st a + sz else usedIn st b))
     \<and> (\<exists>n. staticNodes st' a = Some n) \<and> (\<forall>b. staticNodes st b \<noteq> None \<longrightarrow> staticNodes st' b \<noteq> None)"

text \<open>The last part of the function, on a block with room.\<close>

lemma take_piece:
  assumes inv: "static_inv st" and head: "staticHead st \<noteq> 0" and n: "staticNodes st a = Some n" "sn_used n + sz \<le> sn_blockSize n"
  shows "sz_add (sn_nextFree n) sz = sn_nextFree n + sz" "sz_add (sn_used n) sz = sn_used n + sz"
    and "gavePiece a sz st (putStatic a (n\<lparr>sn_nextFree := sn_nextFree n + sz, sn_used := sn_used n + sz\<rparr>) st) (sn_nextFree n)"
proof -
  have ok: "block_ok a n" by (rule static_inv_block[OF inv n(1)])
  then show "sz_add (sn_nextFree n) sz = sn_nextFree n + sz" "sz_add (sn_used n) sz = sn_used n + sz"
    using n(2) by (auto simp: block_ok_def sizeof_pumaStaticNode_def intro!: sz_add_exact)
  have b: "block_ok a (n\<lparr>sn_nextFree := sn_nextFree n + sz, sn_used := sn_used n + sz\<rparr>)"
    using ok n(2) by (simp add: block_ok_def)
  have "chain_ok (putStatic a (n\<lparr>sn_nextFree := sn_nextFree n + sz, sn_used := sn_used n + sz\<rparr>) st)"
    using inv n(1) head unfolding static_inv_def chain_ok_def by auto
  then have "static_inv (putStatic a (n\<lparr>sn_nextFree := sn_nextFree n + sz, sn_used := sn_used n + sz\<rparr>) st)"
    using b inv unfolding static_inv_def by simp
  then show "gavePiece a sz st (putStatic a (n\<lparr>sn_nextFree := sn_nextFree n + sz, sn_used := sn_used n + sz\<rparr>) st) (sn_nextFree n)"
    using n(1) head ok unfolding gavePiece_def by (simp add: usedIn_def block_ok_def)
qed

text \<open>The first block, and a block appended behind it.\<close>

definition roundedUp :: "nat \<Rightarrow> nat \<Rightarrow> nat" where
  "roundedUp k sz = (if sz mod 2 ^ k = 0 then sz else (sz div 2 ^ k + 1) * 2 ^ k)"

lemma roundedUp_bounds: "sz \<le> roundedUp k sz" "roundedUp k sz \<le> sz + 2 ^ k"
proof -
  have "sz mod 2 ^ k < 2 ^ k" by simp
  moreover have "sz div 2 ^ k * 2 ^ k + sz mod 2 ^ k = sz" by (rule div_mult_mod_eq)
  ultimately have "sz \<le> sz div 2 ^ k * 2 ^ k + 2 ^ k" "sz div 2 ^ k * 2 ^ k + 2 ^ k \<le> sz + 2 ^ k" by linarith+
  then show "sz \<le> roundedUp k sz" "roundedUp k sz \<le> sz + 2 ^ k" unfolding roundedUp_def by simp_all
qed

definition startChain :: "addr \<Rightarrow> nat \<Rightarrow> staticState \<Rightarrow> staticState" where
  "startChain a sz st = (putStatic a (freshBlock a 0 sz) st)\<lparr>staticHead := a, staticTail := a\<rparr>"

definition growChain :: "addr \<Rightarrow> nat \<Rightarrow> staticState \<Rightarrow> staticState" where
  "growChain a sz st = putStatic (staticHead st) ((the (staticNodes st (staticHead st)))\<lparr>sn_next := a\<rparr>)
     (putStatic a (freshBlock a (staticHead st) sz) st)"

lemma first_block:
  assumes inv: "static_inv st" "staticHead st = 0" and a: "na st (sz + sizeof_pumaStaticNode) = Some a" "static_alloc_spec na"
  shows "static_inv (startChain a sz st)" "usedIn (startChain a sz st) b = usedIn st b"
    and "staticNodes (startChain a sz st) a = Some (freshBlock a 0 sz)" "staticHead (startChain a sz st) = a" "0 < a"
    and "staticNodes st b \<noteq> None \<Longrightarrow> staticNodes (startChain a sz st) b \<noteq> None"
proof -
  have A: "0 < a" "a + (sz + sizeof_pumaStaticNode) < 2 ^ 63" "staticNodes st a = None"
    using a by (auto simp: static_alloc_spec_def)
  show "static_inv (startChain a sz st)"
    using inv(1) freshBlock_ok[OF A(1,2)] unfolding static_inv_def chain_ok_def startChain_def by (auto simp: freshBlock_def)
  show "usedIn (startChain a sz st) b = usedIn st b" using A(3) by (simp add: usedIn_def freshBlock_def startChain_def)
  show "0 < a" by (rule A(1))
qed (auto simp: startChain_def)

lemma next_block:
  assumes inv: "static_inv st" "staticHead st \<noteq> 0"
    and a: "na st (sz + sizeof_pumaStaticNode) = Some a" "static_alloc_spec na"
  shows "static_inv (growChain a sz st)" "usedIn (growChain a sz st) b = usedIn st b"
    and "staticNodes (growChain a sz st) a = Some (freshBlock a (staticHead st) sz)" "staticHead (growChain a sz st) = staticHead st"
    and "staticNodes st b \<noteq> None \<Longrightarrow> staticNodes (growChain a sz st) b \<noteq> None"
proof -
  have A: "0 < a" "a + (sz + sizeof_pumaStaticNode) < 2 ^ 63" "staticNodes st a = None"
    using a by (auto simp: static_alloc_spec_def)
  obtain h where h: "staticNodes st (staticHead st) = Some h" using inv by (auto simp: static_inv_def chain_ok_def)
  then have ne: "a \<noteq> staticHead st" using A(3) by auto
  have ok: "block_ok (staticHead st) h" by (rule static_inv_block[OF inv(1) h])
  show "static_inv (growChain a sz st)"
    using inv freshBlock_ok[OF A(1,2)] ok ne A(1) h unfolding static_inv_def chain_ok_def growChain_def
    by (auto simp: freshBlock_def block_ok_def)
  show "usedIn (growChain a sz st) b = usedIn st b" using A(3) h by (simp add: usedIn_def freshBlock_def growChain_def)
  show "staticNodes (growChain a sz st) a = Some (freshBlock a (staticHead st) sz)" using ne by (simp add: growChain_def)
qed (auto simp: growChain_def)

lemma tailHasSpace_eq:
  assumes "static_inv st" "staticNodes st (staticTail st) = Some n"
  shows "tailHasSpace sz st = Inr (sn_used n + sz \<le> sn_blockSize n)"
proof -
  have "sn_used n \<le> sn_blockSize n" "sn_blockSize n < 2 ^ 64" using static_inv_block[OF assms] by (auto simp: block_ok_def)
  then show ?thesis using assms(2) by (auto simp: tailHasSpace_def derefStatic_def bindE_def sz_sub_exact)
qed

text \<open>With a chain present: the head block when it has room, else a new one.\<close>

lemma alloc_in_chain:
  fixes m :: "'e mem"
  assumes inv: "static_inv st" "staticHead st \<noteq> 0" and na: "static_alloc_spec na"
    and pages: "getSmallestContainingPages m sz = r" "sz \<le> r" "r + sizeof_pumaStaticNode < 2 ^ 64"
    and h: "staticNodes st (staticHead st) = Some h"
  shows "if sn_used h + sz \<le> sn_blockSize h
      then \<exists>st' h'. pumallocStaticLocal na m sz st = Inr (sn_nextFree h, st') \<and> gavePiece (staticHead st) sz st st' (sn_nextFree h)
        \<and> staticHead st' = staticHead st \<and> staticNodes st' (staticHead st) = Some h' \<and> sn_used h' = sn_used h + sz
        \<and> sn_blockSize h' = sn_blockSize h \<and> sn_nextFree h' = sn_nextFree h + sz
      else (\<exists>a ret st' h'. pumallocStaticLocal na m sz st = Inr (ret, st') \<and> staticNodes st a = None \<and> gavePiece a sz st st' ret
          \<and> staticHead st' = staticHead st \<and> staticNodes st' (staticHead st) = Some h' \<and> sn_next h' = a
          \<and> sn_used h' = sn_used h \<and> sn_blockSize h' = sn_blockSize h)
        \<or> pumallocStaticLocal na m sz st = Inl OutOfMemory \<and> na st (r + sizeof_pumaStaticNode) = None"
proof (cases "sn_used h + sz \<le> sn_blockSize h")
  case True
  have tail: "staticTail st = staticHead st" using inv(1) by (simp add: static_inv_def chain_ok_def)
  from take_piece[OF inv h True] show ?thesis
    using True inv(2) h tailHasSpace_eq[OF inv(1), of h sz] by (auto simp: pumallocStaticLocal_def tail derefStatic_def bindE_def)
next
  case False
  have tail: "staticTail st = staticHead st" using inv(1) by (simp add: static_inv_def chain_ok_def)
  have ap: "appendStaticNode na (staticHead st) r st = (case na st (r + sizeof_pumaStaticNode) of None \<Rightarrow> Inl OutOfMemory
      | Some a \<Rightarrow> Inr (a, growChain a r st))"
    using appendStaticNode_eq[where p = h, OF pages(3) na, of "staticHead st" st] h inv(2)
    by (simp add: growChain_def split: option.split)
  show ?thesis
  proof (cases "na st (r + sizeof_pumaStaticNode)")
    case None
    then show ?thesis
      using False inv(2) h ap tailHasSpace_eq[OF inv(1), of h sz] by (simp add: pumallocStaticLocal_def tail pages(1) bindE_def)
  next
    case (Some a)
    note N = next_block[OF inv Some na]
    have room: "sn_used (freshBlock a (staticHead st) r) + sz \<le> sn_blockSize (freshBlock a (staticHead st) r)"
      using pages(2) by (simp add: freshBlock_def)
    have new: "staticNodes st a = None" using Some na by (auto simp: static_alloc_spec_def)
    from take_piece[OF N(1) _ N(3) room] inv(2) N(4)
    have T: "sz_add (sn_nextFree (freshBlock a (staticHead st) r)) sz = sn_nextFree (freshBlock a (staticHead st) r) + sz"
      "sz_add (sn_used (freshBlock a (staticHead st) r)) sz = sn_used (freshBlock a (staticHead st) r) + sz"
      and g: "\<exists>st'. st' = putStatic a ((freshBlock a (staticHead st) r)\<lparr>sn_nextFree := sn_nextFree (freshBlock a (staticHead st) r) + sz,
          sn_used := sn_used (freshBlock a (staticHead st) r) + sz\<rparr>) (growChain a r st)
        \<and> gavePiece a sz (growChain a r st) st' (sn_nextFree (freshBlock a (staticHead st) r))" by auto
    from g obtain st' where st': "st' = putStatic a ((freshBlock a (staticHead st) r)\<lparr>sn_nextFree := sn_nextFree (freshBlock a (staticHead st) r) + sz,
          sn_used := sn_used (freshBlock a (staticHead st) r) + sz\<rparr>) (growChain a r st)"
      and g': "gavePiece a sz (growChain a r st) st' (sn_nextFree (freshBlock a (staticHead st) r))" by blast
    have "gavePiece a sz st st' (sn_nextFree (freshBlock a (staticHead st) r))"
      using g' N(2,5) unfolding gavePiece_def by auto
    moreover have "pumallocStaticLocal na m sz st = Inr (sn_nextFree (freshBlock a (staticHead st) r), st')"
      using False inv(2) h ap Some T N(3) tailHasSpace_eq[OF inv(1), of h sz]
      by (simp add: pumallocStaticLocal_def tail pages(1) bindE_def derefStatic_def st')
    moreover have "staticHead st' = staticHead st" "staticNodes st' (staticHead st) = Some (h\<lparr>sn_next := a\<rparr>)"
      using new h unfolding st' growChain_def by auto
    ultimately show ?thesis using False new by auto
  qed
qed

text \<open>An allocation on an empty chain is one on the chain with its first block.\<close>

lemma alloc_starts_chain:
  fixes m :: "'e mem"
  assumes inv: "static_inv st" "staticHead st = 0" and na: "static_alloc_spec na"
    and pages: "getSmallestContainingPages m sz = r" "r + sizeof_pumaStaticNode < 2 ^ 64"
  shows "pumallocStaticLocal na m sz st = (case na st (r + sizeof_pumaStaticNode) of None \<Rightarrow> Inl OutOfMemory
    | Some a \<Rightarrow> pumallocStaticLocal na m sz (startChain a r st))"
proof (cases "na st (r + sizeof_pumaStaticNode)")
  case None
  then show ?thesis using inv(2) appendStaticNode_eq[where prev = 0 and st = st, OF pages(2) na]
    by (simp add: pumallocStaticLocal_def pages(1) bindE_def)
next
  case (Some a)
  have "startChain a r st = (putStatic a (freshBlock a 0 r) st)\<lparr>staticHead := a, staticTail := a\<rparr>" "staticHead (startChain a r st) \<noteq> 0"
    using first_block(4,5)[OF inv Some na] by (simp_all add: startChain_def)
  then show ?thesis using Some inv(2) appendStaticNode_eq[where prev = 0 and st = st, OF pages(2) na]
    by (simp add: pumallocStaticLocal_def pages(1) bindE_def)
qed

section \<open>What an allocation and a deletion do\<close>

lemma static_pages:
  fixes m :: "'e mem"
  assumes "pumaPageSize m = 2 ^ k" "sz + 2 ^ k < 2 ^ 63"
  shows "getSmallestContainingPages m sz = roundedUp k sz" "sz \<le> roundedUp k sz" "roundedUp k sz + sizeof_pumaStaticNode < 2 ^ 64"
proof -
  have "(2 :: nat) ^ k < 2 ^ 63" using assms(2) by linarith
  then have "k < 64" using power_less_imp_less_exp[of "2 :: nat" k 63] by simp
  then show "getSmallestContainingPages m sz = roundedUp k sz"
    using getSmallestContainingPages_exact[OF assms(1)] assms(2) unfolding roundedUp_def by simp
  show "sz \<le> roundedUp k sz" by (rule roundedUp_bounds)
  have "roundedUp k sz < 2 ^ 63" using roundedUp_bounds(2)[of k sz] assms(2) by linarith
  then show "roundedUp k sz + sizeof_pumaStaticNode < 2 ^ 64" by (simp add: sizeof_pumaStaticNode_def)
qed

theorem pumallocStaticLocal_ok:
  fixes m :: "'e mem"
  assumes inv: "static_inv st" and na: "static_alloc_spec na" and pg: "pumaPageSize m = 2 ^ k" "sz + 2 ^ k < 2 ^ 63"
  shows "(\<exists>a ret st'. pumallocStaticLocal na m sz st = Inr (ret, st') \<and> gavePiece a sz st st' ret)
    \<or> pumallocStaticLocal na m sz st = Inl OutOfMemory \<and> na st (roundedUp k sz + sizeof_pumaStaticNode) = None"
proof -
  note P = static_pages[OF pg]
  have chain: "(\<exists>a ret st'. pumallocStaticLocal na m sz st0 = Inr (ret, st') \<and> gavePiece a sz st0 st' ret)
      \<or> pumallocStaticLocal na m sz st0 = Inl OutOfMemory \<and> na st0 (roundedUp k sz + sizeof_pumaStaticNode) = None"
    if I: "static_inv st0" "staticHead st0 \<noteq> 0" for st0
  proof -
    obtain h where h: "staticNodes st0 (staticHead st0) = Some h" using I by (auto simp: static_inv_def chain_ok_def)
    from alloc_in_chain[OF I na P h] show ?thesis by (auto split: if_splits)
  qed
  show ?thesis
  proof (cases "staticHead st = 0")
    case True
    note S = alloc_starts_chain[OF inv True na P(1,3)]
    show ?thesis
    proof (cases "na st (roundedUp k sz + sizeof_pumaStaticNode)")
      case None
      then show ?thesis using S by simp
    next
      case (Some a)
      note F = first_block[OF inv True Some na]
      have head: "staticHead (startChain a (roundedUp k sz) st) \<noteq> 0" using F(4,5) by simp
      have fit: "sn_used (freshBlock a 0 (roundedUp k sz)) + sz \<le> sn_blockSize (freshBlock a 0 (roundedUp k sz))"
        using P(2) by (simp add: freshBlock_def)
      have "\<exists>st'. pumallocStaticLocal na m sz (startChain a (roundedUp k sz) st) = Inr (sn_nextFree (freshBlock a 0 (roundedUp k sz)), st')
          \<and> gavePiece a sz (startChain a (roundedUp k sz) st) st' (sn_nextFree (freshBlock a 0 (roundedUp k sz)))"
        using alloc_in_chain[OF F(1) head na P, unfolded F(4), OF F(3)] fit by auto
      then show ?thesis using S Some F(2,6) unfolding gavePiece_def by auto
    qed
  next
    case False
    then show ?thesis by (rule chain[OF inv])
  qed
qed

text \<open>
  The room of a block is counted with its header, so the last \<open>sizeof_pumaStaticNode\<close> bytes handed
  out of it are behind its end: after a block was filled, a small piece still "fits".
\<close>

theorem pumallocStaticLocal_overrun:
  fixes m :: "'e mem"
  assumes inv: "static_inv st" "staticHead st = 0" and na: "static_alloc_spec na" "na st (2 ^ k + sizeof_pumaStaticNode) = Some a"
    and pg: "pumaPageSize m = 2 ^ k" "6 \<le> k" "2 ^ k + 2 ^ k < (2 :: nat) ^ 63" and sz: "sz \<le> sizeof_pumaStaticNode"
  shows "\<exists>st1 st2. pumallocStaticLocal na m (2 ^ k) st = Inr (a + sizeof_pumaStaticNode, st1)
    \<and> pumallocStaticLocal na m sz st1 = Inr (a + (2 ^ k + sizeof_pumaStaticNode), st2)
    \<and> map_option sn_blockSize (staticNodes st2 a) = Some (2 ^ k + sizeof_pumaStaticNode)"
proof -
  let ?B = "2 ^ k + sizeof_pumaStaticNode"
  have r: "roundedUp k (2 ^ k) = 2 ^ k" by (simp add: roundedUp_def)
  note P = static_pages[OF pg(1,3), unfolded r]
  note F = first_block[OF inv na(2,1)]
  have head: "staticHead (startChain a (2 ^ k) st) \<noteq> 0" using F(4,5) by simp
  have fb: "sn_used (freshBlock a 0 (2 ^ k)) = 0" "sn_blockSize (freshBlock a 0 (2 ^ k)) = ?B"
    "sn_nextFree (freshBlock a 0 (2 ^ k)) = a + sizeof_pumaStaticNode" by (simp_all add: freshBlock_def)
  obtain st1 h1 where s1: "pumallocStaticLocal na m (2 ^ k) (startChain a (2 ^ k) st) = Inr (a + sizeof_pumaStaticNode, st1)"
    "static_inv st1" "staticHead st1 = a" "staticNodes st1 a = Some h1" "sn_used h1 = 2 ^ k" "sn_blockSize h1 = ?B"
    "sn_nextFree h1 = a + sizeof_pumaStaticNode + 2 ^ k"
    using alloc_in_chain[OF F(1) head na(1) P, unfolded F(4), OF F(3)] unfolding fb gavePiece_def by auto
  have first: "pumallocStaticLocal na m (2 ^ k) st = Inr (a + sizeof_pumaStaticNode, st1)"
    using alloc_starts_chain[OF inv na(1) P(1,3)] na(2) s1(1) by simp
  have "sz \<le> 2 ^ k"
  proof -
    have "(2 :: nat) ^ 6 \<le> 2 ^ k" using pg(2) by (intro power_increasing) simp_all
    then show ?thesis using sz by (simp add: sizeof_pumaStaticNode_def)
  qed
  then have "sz + 2 ^ k < 2 ^ 63" using pg(3) by linarith
  note Q = static_pages[OF pg(1) this]
  have head1: "staticHead st1 \<noteq> 0" using s1(3) F(5) by simp
  have "sn_used h1 + sz \<le> sn_blockSize h1" using s1(5,6) sz by simp
  then obtain st2 h2 where s2: "pumallocStaticLocal na m sz st1 = Inr (sn_nextFree h1, st2)"
    "staticNodes st2 a = Some h2" "sn_blockSize h2 = ?B"
    using alloc_in_chain[OF s1(2) head1 na(1) Q, unfolded s1(3), OF s1(4)] s1(6) by auto
  then show ?thesis using first s1(7) by (simp add: add_ac)
qed

text \<open>The deletion frees the first block and the one it links.\<close>

definition chainBlocks :: "staticState \<Rightarrow> addr set" where
  "chainBlocks st = (if staticHead st = 0 then {} else {staticHead st, sn_next (the (staticNodes st (staticHead st)))} - {0})"

theorem pumaDeleteStaticData_ok:
  assumes inv: "static_inv st" and fuel: "3 \<le> fuel"
  shows "\<exists>st'. pumaDeleteStaticData fuel st = Inr st' \<and> static_inv st' \<and> staticHead st' = 0
    \<and> (\<forall>a. staticNodes st' a = (if a \<in> chainBlocks st then None else staticNodes st a))"
proof -
  obtain f where f: "fuel = Suc (Suc (Suc f))" using fuel by (metis Suc_le_D numeral_3_eq_3 Suc_le_mono)
  have keep: "static_inv (st\<lparr>staticNodes := N, staticHead := 0, staticTail := 0\<rparr>)"
    if "\<And>a n. N a = Some n \<Longrightarrow> staticNodes st a = Some n" for N
    using inv that by (auto simp: static_inv_def chain_ok_def)
  show ?thesis
  proof (cases "staticHead st = 0")
    case True
    then show ?thesis using keep[of "staticNodes st"]
      by (simp add: pumaDeleteStaticData_def f bindE_def chainBlocks_def)
  next
    case False
    then obtain h where h: "staticNodes st (staticHead st) = Some h"
      "sn_next h \<noteq> 0 \<longrightarrow> sn_next h \<noteq> staticHead st \<and> (\<exists>x. staticNodes st (sn_next h) = Some x \<and> sn_next x = 0)"
      using inv by (auto simp: static_inv_def chain_ok_def)
    let ?N1 = "(staticNodes st)(staticHead st := None)" and ?N2 = "(staticNodes st)(staticHead st := None, sn_next h := None)"
    show ?thesis
    proof (cases "sn_next h = 0")
      case True
      have "pumaDeleteStaticData fuel st = Inr (st\<lparr>staticNodes := ?N1, staticHead := 0, staticTail := 0\<rparr>)"
        using False h True by (simp add: pumaDeleteStaticData_def f bindE_def derefStatic_def)
      moreover have "static_inv (st\<lparr>staticNodes := ?N1, staticHead := 0, staticTail := 0\<rparr>)"
        by (rule keep) (auto split: if_splits)
      ultimately show ?thesis using False h True by (auto simp: chainBlocks_def)
    next
      case nx: False
      then obtain x where x: "sn_next h \<noteq> staticHead st" "staticNodes st (sn_next h) = Some x" "sn_next x = 0" using h by auto
      have "pumaDeleteStaticData fuel st = Inr (st\<lparr>staticNodes := ?N2, staticHead := 0, staticTail := 0\<rparr>)"
        using False h nx x by (simp add: pumaDeleteStaticData_def f bindE_def derefStatic_def)
      moreover have "static_inv (st\<lparr>staticNodes := ?N2, staticHead := 0, staticTail := 0\<rparr>)"
        by (rule keep) (auto split: if_splits)
      ultimately show ?thesis using False h nx by (auto simp: chainBlocks_def)
    qed
  qed
qed

text \<open>
  The tail key stays at the first block, so two blocks appended one after the other leave the first
  of them linked by none: the deletion does not free it.
\<close>

theorem pumaDeleteStaticData_leaks:
  fixes m :: "'e mem"
  assumes inv: "static_inv st" "staticHead st \<noteq> 0" "staticNodes st (staticHead st) = Some h" and na: "static_alloc_spec na"
    and pg: "pumaPageSize m = 2 ^ k" "sz + 2 ^ k < 2 ^ 63" and full: "sn_blockSize h < sn_used h + sz" and fuel: "3 \<le> fuel"
    and two: "pumallocStaticLocal na m sz st = Inr (r1, st1)" "pumallocStaticLocal na m sz st1 = Inr (r2, st2)"
  shows "\<exists>a st3. pumaDeleteStaticData fuel st2 = Inr st3 \<and> staticNodes st a = None \<and> staticNodes st3 a \<noteq> None"
proof -
  note P = static_pages[OF pg]
  obtain a1 h1 where s1: "staticNodes st a1 = None" "gavePiece a1 sz st st1 r1" "staticHead st1 = staticHead st"
    "staticNodes st1 (staticHead st) = Some h1" "sn_used h1 = sn_used h" "sn_blockSize h1 = sn_blockSize h"
    using alloc_in_chain[OF inv(1,2) na P inv(3)] full two(1) by auto
  then have i1: "static_inv st1" "staticHead st1 \<noteq> 0" "staticNodes st1 (staticHead st1) = Some h1" "staticNodes st1 a1 \<noteq> None"
    using inv(2) by (auto simp: gavePiece_def)
  obtain a2 h2 where s2: "staticNodes st1 a2 = None" "gavePiece a2 sz st1 st2 r2" "staticHead st2 = staticHead st"
    "staticNodes st2 (staticHead st) = Some h2" "sn_next h2 = a2"
    using alloc_in_chain[OF i1(1,2) na P i1(3)] full two(2) s1(3,5,6) by auto
  then have i2: "static_inv st2" "staticNodes st2 a1 \<noteq> None" using i1(4) by (auto simp: gavePiece_def)
  obtain st3 where s3: "pumaDeleteStaticData fuel st2 = Inr st3"
    "\<forall>a. staticNodes st3 a = (if a \<in> chainBlocks st2 then None else staticNodes st2 a)"
    using pumaDeleteStaticData_ok[OF i2(1) fuel] by blast
  have "a1 \<noteq> a2" "a1 \<noteq> staticHead st" using s2(1) i1(4) s1(1) inv(3) by auto
  then have "a1 \<notin> chainBlocks st2" using s2(3-5) by (auto simp: chainBlocks_def)
  then show ?thesis using s3 i2(2) s1(1) by auto
qed

end

