(* ===== verification/DebugBuild.thy ===== *)
theory DebugBuild
  imports SetOps
begin

text \<open>
  The build with \<open>assert\<close> (without \<open>NDEBUG\<close>): each operation once more with the assertions of
  \<open>src/internal/alloc.c\<close>, \<open>src/internal/free.c\<close>, \<open>src/internal/numa.c\<close>, \<open>src/pumakernel.c\<close> and
  \<open>src/internal/pumabalance.c\<close>. On well-formed lists no assertion fails, so the debug build does
  what the release build does; what it rejects, such as freeing an element twice, the release
  build accepts. A debug build for NUMA also writes to the pages of a node that is appended, and
  asserts that they are where they were asked for.
\<close>

section \<open>Assertions\<close>

definition assertE :: "bool \<Rightarrow> c_fault + unit" where
  "assertE b = (if b then Inr () else Inl AssertFailed)"

lemma assertE_simps [simp]:
  "assertE True = Inr ()"
  "assertE False = Inl AssertFailed"
  by (simp_all add: assertE_def)

section \<open>Operations\<close>

definition allocElementOnNodeDbg :: "addr \<Rightarrow> addr \<Rightarrow> 'e mem \<Rightarrow> c_fault + 'e mem" where
  "allocElementOnNodeDbg node element s =
     bindE (assertE (node = getNodeForElement s element)) (\<lambda>_.
     bindE (derefNode s node) (\<lambda>nd.
     bindE (assertE (n_active nd)) (\<lambda>_.
     bindE (getIndexOfElementOnNode element nd) (\<lambda>index.
     bindE (pumaBitmaskGet (n_freeMask nd) index) (\<lambda>before.
     bindE (assertE (before = MASKFREE)) (\<lambda>_.
     bindE (pumaBitmaskSet (n_freeMask nd) index MASKNOTFREE) (\<lambda>fm.
     bindE (pumaBitmaskGet fm index) (\<lambda>after.
     bindE (assertE (after = MASKNOTFREE)) (\<lambda>_.
     updList (n_threadList nd) (\<lambda>l. l\<lparr>tl_numElements := sz_add (tl_numElements l) 1\<rparr>)
       (putNode node (nd\<lparr>n_freeMask := fm, n_numElements := sz_add (n_numElements nd) 1\<rparr>) s))))))))))"

definition freeElementOnNodeDbg :: "addr \<Rightarrow> addr \<Rightarrow> 'e mem \<Rightarrow> c_fault + 'e mem" where
  "freeElementOnNodeDbg element node s =
     bindE (updNode node (\<lambda>nd. nd\<lparr>n_dirty := True\<rparr>) s) (\<lambda>s1.
     bindE (getIndexOfElement s1 element) (\<lambda>index.
     bindE (derefNode s1 node) (\<lambda>nd.
     bindE (pumaBitmaskGet (n_freeMask nd) index) (\<lambda>before.
     bindE (assertE (before = MASKNOTFREE)) (\<lambda>_.
     bindE (pumaBitmaskSet (n_freeMask nd) index MASKFREE) (\<lambda>fm.
     bindE (pumaBitmaskGet fm index) (\<lambda>after.
     bindE (assertE (after = MASKFREE)) (\<lambda>_.
     bindE (updList (n_threadList nd) (\<lambda>l. l\<lparr>tl_numElements := sz_sub (tl_numElements l) 1\<rparr>)
         (putNode node (nd\<lparr>n_freeMask := fm, n_numElements := sz_sub (n_numElements nd) 1\<rparr>) s1)) (\<lambda>s2.
     freeInactiveNext node s2)))))))))"

fun cleanupLoopDbg :: "nat \<Rightarrow> addr \<Rightarrow> addr \<Rightarrow> 'e mem \<Rightarrow> c_fault + 'e mem" where
  "cleanupLoopDbg 0 currentNode t s = Inl OutOfFuel"
| "cleanupLoopDbg (Suc fuel) currentNode t s =
     bindE (derefNode s currentNode) (\<lambda>nd.
     if n_numElements nd < n_capacity nd
     then bindE (pumaFirstIndexOfValue (n_freeMask nd) MASKFREE) (\<lambda>(firstFree, found).
       bindE (getLastElement t s) (\<lambda>(lastElement, s1).
       if lastElement = 0 \<or> \<not> found then Inr s1
       else
         bindE (derefNode s1 currentNode) (\<lambda>cur.
         let lastNode = getNodeForElement s1 lastElement;
             firstFreeElement = getElement cur firstFree
         in bindE (derefNode s1 lastNode) (\<lambda>ln.
            if n_index ln < n_index cur \<or> n_index ln = n_index cur \<and> lastElement \<le> firstFreeElement
            then Inr s1
            else
              bindE (allocElementOnNodeDbg currentNode firstFreeElement s1) (\<lambda>s2.
              bindE (freeElementOnNodeDbg lastElement lastNode
                  (putCell firstFreeElement (cells s2 lastElement) s2)) (\<lambda>s3.
              cleanupLoopDbg fuel currentNode t s3))))))
     else Inr s)"

declare cleanupLoopDbg.simps [simp del]

definition cleanupNodeDbg :: "addr \<Rightarrow> addr \<Rightarrow> 'e mem \<Rightarrow> c_fault + 'e mem" where
  "cleanupNodeDbg currentNode t s =
     bindE (derefNode s currentNode) (\<lambda>nd.
     bindE (cleanupLoopDbg (Suc (n_capacity nd)) currentNode t s) (\<lambda>s1.
     updNode currentNode (\<lambda>nd. nd\<lparr>n_dirty := False, n_firstKnownFree := n_numElements nd\<rparr>) s1))"

definition claimSlotDbg :: "addr \<Rightarrow> addr \<Rightarrow> nat \<Rightarrow> 'e mem \<Rightarrow> c_fault + (addr \<times> 'e mem)" where
  "claimSlotDbg t tail freeIndex s =
     bindE (derefNode s tail) (\<lambda>nd.
     bindE (updList t (\<lambda>l. l\<lparr>tl_numNodes := sz_add (tl_numNodes l) (c_bool (\<not> n_active nd)), tl_tail := tail\<rparr>) s) (\<lambda>s1.
     let newElement = getElement nd freeIndex
     in bindE (allocElementOnNodeDbg tail newElement (putNode tail (nd\<lparr>n_active := True\<rparr>) s1)) (\<lambda>s2.
        Inr (newElement, s2))))"

definition allocOnTailDbg :: "addr \<Rightarrow> addr \<Rightarrow> 'e mem \<Rightarrow> c_fault + (addr \<times> 'e mem)" where
  "allocOnTailDbg t tail s =
     bindE (derefNode s tail) (\<lambda>nd.
     let freeIndex = n_firstKnownFree nd;
         s1 = putNode tail (nd\<lparr>n_firstKnownFree := sz_add (n_firstKnownFree nd) 1\<rparr>) s
     in if n_capacity nd \<le> freeIndex
        then bindE (cleanupNodeDbg tail t s1) (\<lambda>s2.
             bindE (derefNode s2 tail) (\<lambda>nd2.
             claimSlotDbg t tail (n_numElements nd2)
               (putNode tail (nd2\<lparr>n_firstKnownFree := sz_add (n_numElements nd2) 1\<rparr>) s2)))
        else claimSlotDbg t tail freeIndex s1)"

text \<open>
  What a debug build asks the kernel, and what its writes do to an element: the status of \<open>mbind\<close> for
  a block, the node that \<open>move_pages\<close> reports for a page (none if it fails), and the value of an
  element after 1 was written to byte \<open>k\<close> of it.
\<close>

record 'e debugKernel =
  dbg_mbind :: "addr \<Rightarrow> int"
  dbg_pageNode :: "addr \<Rightarrow> int option"
  dbg_poke :: "nat \<Rightarrow> 'e \<Rightarrow> 'e"

text \<open>
  A debug build for NUMA writes 1 to the first byte of every page of the node but the first, to have
  them mapped before it asks where they are (twice for a new node). The mask follows the header of
  the node, so byte \<open>k\<close> of the mask is written when a page begins there; little-endian words.
\<close>

definition touchByte :: "nat \<Rightarrow> pumaBitmask \<Rightarrow> pumaBitmask" where
  "touchByte k bm =
     (if k div 8 < length (buckets bm)
      then bm\<lparr>buckets := (buckets bm)[k div 8 :=
             (buckets bm ! (k div 8) AND NOT (push_bit (8 * (k mod 8)) (mask 8))) OR push_bit (8 * (k mod 8)) 1]\<rparr>
      else bm)"

definition touchPages :: "nat \<Rightarrow> pumaNode \<Rightarrow> pumaNode" where
  "touchPages pageSize nd =
     fold (\<lambda>p nd. nd\<lparr>n_freeMask := touchByte (p * pageSize - sizeof_pumaNode) (n_freeMask nd)\<rparr>) [1..<n_numPages nd] nd"

text \<open>The other bytes are those of the slots: the one that has the address \<open>b\<close> of the byte, if there is one.\<close>

definition touchCell :: "(nat \<Rightarrow> 'e \<Rightarrow> 'e) \<Rightarrow> pumaNode \<Rightarrow> addr \<Rightarrow> (addr \<Rightarrow> 'e) \<Rightarrow> addr \<Rightarrow> 'e" where
  "touchCell poke nd b c =
     (let k = b - n_elementArray nd;
          e = slotAddr nd (k div n_elementSize nd)
      in if n_elementArray nd \<le> b \<and> k div n_elementSize nd < n_capacity nd
         then c(e := poke (k mod n_elementSize nd) (c e)) else c)"

definition touchCells :: "(nat \<Rightarrow> 'e \<Rightarrow> 'e) \<Rightarrow> nat \<Rightarrow> addr \<Rightarrow> pumaNode \<Rightarrow> (addr \<Rightarrow> 'e) \<Rightarrow> addr \<Rightarrow> 'e" where
  "touchCells poke pageSize a nd c = fold (\<lambda>p c. touchCell poke nd (a + p * pageSize) c) [1..<n_numPages nd] c"

text \<open>The block of a debug build in \<open>_appendPumaNode\<close>, which it has for a new node and, again, at \<open>done\<close>.\<close>

definition touchNodeDbg :: "platform \<Rightarrow> 'e debugKernel \<Rightarrow> addr \<Rightarrow> addr \<Rightarrow> 'e mem \<Rightarrow> c_fault + 'e mem" where
  "touchNodeDbg P K t a s =
     (if NNUMA P then Inr s
      else if pumaPageSize s = 0 then Inl DivByZero
      else
        bindE (assertE (a mod pumaPageSize s = 0)) (\<lambda>_.
        bindE (derefNode s a) (\<lambda>nd.
        let s1 = putNode a (touchPages (pumaPageSize s) nd) s;
            s2 = s1\<lparr>cells := touchCells (dbg_poke K) (pumaPageSize s) a nd (cells s1)\<rparr>
        in bindE (derefList s2 t) (\<lambda>l.
           bindE (assertE (list_all (\<lambda>p. dbg_pageNode K (sz_add a (sz_mul p (PAGESIZE P))) = Some (tl_numaDomain l))
                    [0..<n_numPages nd])) (\<lambda>_.
           Inr s2)))))"

text \<open>
  The block of a new node: \<open>numalloc_aligned_on_node\<close> asserts that \<open>posix_memalign\<close> has succeeded, with
  NUMA that \<open>mbind\<close> has, and that the block is aligned to its size.
\<close>

definition numallocDbg :: "platform \<Rightarrow> 'e debugKernel \<Rightarrow> memalign \<Rightarrow> 'e mem \<Rightarrow> c_fault + addr" where
  "numallocDbg P K ma s =
     (case ma (fmdom (nodes s)) (nodeBytes s) of
        None \<Rightarrow> Inl AssertFailed
      | Some ret \<Rightarrow>
          bindE (assertE (NNUMA P \<or> dbg_mbind K ret = 0)) (\<lambda>_.
          bindE (assertE (ret = getNodeForElement s ret)) (\<lambda>_. Inr ret)))"

text \<open>The constructor of the mask asserts that no element more would fit (\<open>elemArrayAssert\<close>).\<close>

definition appendFreshDbg ::
  "platform \<Rightarrow> 'e debugKernel \<Rightarrow> memalign \<Rightarrow> addr \<Rightarrow> nat \<Rightarrow> addr \<Rightarrow> nat \<Rightarrow> 'e mem \<Rightarrow> c_fault + (addr \<times> 'e mem)" where
  "appendFreshDbg P K ma t elementSize tail nextIndex s =
     bindE (numallocDbg P K ma s) (\<lambda>retNode.
     let array = sz_add retNode sizeof_pumaNode;
         elementArraySize = sz_sub (nodeBytes s) sizeof_pumaNode
     in if elementArraySize < elementSize then Inl ExitElementTooLarge
        else bindE (createPumaBitmaskForElemArray array elementArraySize MASKFREE elementSize)
               (\<lambda>(bmask, elementArray, capacity).
             bindE (assertE (elemArrayAssert array elementArraySize elementSize elementArray capacity)) (\<lambda>_.
             bindE (appendFresh (\<lambda>_ _. Some retNode) t elementSize tail nextIndex s) (\<lambda>(a, s1).
             bindE (touchNodeDbg P K t a s1) (\<lambda>s2. Inr (a, s2))))))"

definition appendPumaNodeDbg ::
  "platform \<Rightarrow> 'e debugKernel \<Rightarrow> memalign \<Rightarrow> addr \<Rightarrow> nat \<Rightarrow> 'e mem \<Rightarrow> c_fault + (addr \<times> 'e mem)" where
  "appendPumaNodeDbg P K ma t elementSize s =
     bindE (derefList s t) (\<lambda>l.
     let tail = tl_tail l in
     bindE (if tail = 0 then appendFreshDbg P K ma t elementSize tail 0 s
       else bindE (derefNode s tail) (\<lambda>tn.
         let nextIndex = intIndex (sz_add (n_index tn) 1) in
         if \<not> n_active tn then Inr (tail, putNode tail (tn\<lparr>n_active := True\<rparr>) s)
         else if n_next tn \<noteq> 0
         then bindE (updNode (n_next tn) (\<lambda>nx. nx\<lparr>n_active := True, n_index := nextIndex\<rparr>)
                (putList t (l\<lparr>tl_tail := n_next tn\<rparr>) s)) (\<lambda>s1. Inr (n_next tn, s1))
         else appendFreshDbg P K ma t elementSize tail nextIndex s)) (\<lambda>(retNode, s1).
     bindE (derefNode s1 retNode) (\<lambda>rn.
     bindE (updList t (\<lambda>l. l\<lparr>tl_numNodes := sz_add (n_index rn) 1\<rparr>) s1) (\<lambda>s2.
     bindE (touchNodeDbg P K t retNode s2) (\<lambda>s3.
     Inr (retNode, s3))))))"

definition pumallocOnThreadListDbg ::
  "platform \<Rightarrow> 'e debugKernel \<Rightarrow> memalign \<Rightarrow> addr \<Rightarrow> 'e mem \<Rightarrow> c_fault + (addr \<times> 'e mem)" where
  "pumallocOnThreadListDbg P K ma t s =
     bindE (derefList s t) (\<lambda>l.
     let tail = tl_tail l
     in bindE (if tail = 0 then appendPumaNodeDbg P K ma t (tl_elementSize l) s
               else bindE (derefNode s tail) (\<lambda>tn.
                 if n_numElements tn = n_capacity tn then appendPumaNodeDbg P K ma t (tl_elementSize l) s
                 else Inr (tail, s))) (\<lambda>(tail, s1).
        allocOnTailDbg t tail s1))"

definition pufreeDbg :: "addr \<Rightarrow> 'e mem \<Rightarrow> c_fault + 'e mem" where
  "pufreeDbg element s = freeElementOnNodeDbg element (getNodeForElement s element) s"

text \<open>
  Kernels: the worker \<open>tid\<close> asserts that the list it runs over is of the domain it runs on. Only
  the compaction differs in the loop.
\<close>

fun kernelNodesDbg :: "nat \<Rightarrow> ('e, 'x) kernel \<Rightarrow> addr \<Rightarrow> addr \<Rightarrow> nat \<Rightarrow> nat \<Rightarrow> 'x \<Rightarrow> 'e mem \<Rightarrow> c_fault + ('x \<times> 'e mem)" where
  "kernelNodesDbg 0 kern t currentNode elementsDone initNumElements x s = Inl OutOfFuel"
| "kernelNodesDbg (Suc fuel) kern t currentNode elementsDone initNumElements x s =
     (if currentNode = 0 then Inr (x, s)
      else bindE (derefNode s currentNode) (\<lambda>nd.
        if \<not> n_active nd \<or> initNumElements \<le> elementsDone then Inr (x, s)
        else bindE (if n_dirty nd then cleanupNodeDbg currentNode t s else Inr s) (\<lambda>s1.
             bindE (runKernelOnNode kern currentNode elementsDone initNumElements x s1) (\<lambda>(elementsDone', x', s2).
             bindE (derefNode s2 currentNode) (\<lambda>nd2.
             kernelNodesDbg fuel kern t (n_next nd2) elementsDone' initNumElements x' s2)))))"

declare kernelNodesDbg.simps [simp del]

definition runKernelThreadDbg :: "platform \<Rightarrow> ('e, 'x) kernel \<Rightarrow> nat \<Rightarrow> addr \<Rightarrow> 'x \<Rightarrow> 'e mem \<Rightarrow> c_fault + ('x \<times> 'e mem)" where
  "runKernelThreadDbg P kern tid t x s =
     bindE (derefList s t) (\<lambda>l.
     bindE (assertE (tl_numaDomain l = getCurrentNumaDomain P tid)) (\<lambda>_.
     kernelNodesDbg (Suc (fcard (fmdom (nodes s)))) kern t (tl_head l) 0 (tl_numElements l) x s))"

definition pumallocDbg ::
  "platform \<Rightarrow> 'e debugKernel \<Rightarrow> memalign \<Rightarrow> ('b, 'd) pumaSet \<Rightarrow> nat \<Rightarrow> 'e mem \<Rightarrow> c_fault + (addr \<times> 'e mem)" where
  "pumallocDbg P K ma ps tid s = bindE (getListForCurrentThread P ps tid) (\<lambda>t. pumallocOnThreadListDbg P K ma t s)"

definition runKernelOnWorkerDbg ::
  "platform \<Rightarrow> ('b, 'd) pumaSet \<Rightarrow> ('e, 'x) kernel \<Rightarrow> nat \<Rightarrow> 'x \<Rightarrow> 'e mem \<Rightarrow> c_fault + ('x \<times> 'e mem)" where
  "runKernelOnWorkerDbg P ps kern tid x s =
     bindE (getListForCurrentThread P ps tid) (\<lambda>t. runKernelThreadDbg P kern tid t x s)"

text \<open>
  Balancing: \<open>_countNodes\<close> asserts the index of every node it counts, and \<open>_transferNNodes\<close> counts
  both lists before and after.
\<close>

fun countNodesLoopDbg :: "nat \<Rightarrow> addr \<Rightarrow> nat \<Rightarrow> 'e mem \<Rightarrow> c_fault + nat" where
  "countNodesLoopDbg 0 c n s = Inl OutOfFuel"
| "countNodesLoopDbg (Suc fuel) c n s =
     (if c = 0 then Inr n
      else bindE (derefNode s c) (\<lambda>nd.
        if n_active nd
        then bindE (assertE (n_index nd = n)) (\<lambda>_. countNodesLoopDbg fuel (n_next nd) (sz_add n 1) s)
        else Inr n))"

definition countNodesDbg :: "addr \<Rightarrow> 'e mem \<Rightarrow> c_fault + nat" where
  "countNodesDbg t s =
     bindE (derefList s t) (\<lambda>l. countNodesLoopDbg (Suc (fcard (fmdom (nodes s)))) (tl_head l) 0 s)"

definition assertCount :: "addr \<Rightarrow> 'e mem \<Rightarrow> c_fault + unit" where
  "assertCount t s = bindE (derefList s t) (\<lambda>l. bindE (countNodesDbg t s) (\<lambda>c. assertE (tl_numNodes l = c)))"

definition transferNNodesDbg :: "nat \<Rightarrow> addr \<Rightarrow> addr \<Rightarrow> 'e mem \<Rightarrow> c_fault + 'e mem" where
  "transferNNodesDbg n src dst s =
     bindE (assertE (0 < n)) (\<lambda>_.
     bindE (derefList s src) (\<lambda>lf.
     bindE (assertE (n \<le> tl_numNodes lf)) (\<lambda>_.
     bindE (assertCount dst s) (\<lambda>_.
     bindE (assertCount src s) (\<lambda>_.
     bindE (transferNNodes n src dst s) (\<lambda>s'.
     bindE (assertCount dst s') (\<lambda>_.
     bindE (assertCount src s') (\<lambda>_. Inr s'))))))))"

section \<open>One element\<close>

lemma mask_bit:
  assumes "node_mask_ok nd" "i < n_capacity nd"
  shows "pumaBitmaskGet (n_freeMask nd) i = Inr (bitVal (i \<notin> used nd))"
  using fm.get_law[of "n_freeMask nd" i] assms by (simp add: node_mask_ok_def used_def usedSlots_def)

lemma bitVal_free [simp]: "bitVal b = MASKFREE \<longleftrightarrow> b" "bitVal b = MASKNOTFREE \<longleftrightarrow> \<not> b"
  by (simp_all add: bitVal_mask_consts)

lemma mask_take:
  assumes "node_mask_ok nd" "i < n_capacity nd"
  obtains fm where "pumaBitmaskSet (n_freeMask nd) i MASKNOTFREE = Inr fm" "pumaBitmaskGet fm i = Inr MASKNOTFREE"
proof -
  have "bm_wf (n_freeMask nd)" "i < bm_numElements (n_freeMask nd)" using assms by (simp_all add: node_mask_ok_def)
  from fm.set_then_get[OF this this(2), of False] fm.set_law[OF this, of False] show thesis
    by (auto simp: bitVal_mask_consts intro: that)
qed

lemma mask_release:
  assumes "node_mask_ok nd" "i < n_capacity nd"
  obtains fm where "pumaBitmaskSet (n_freeMask nd) i MASKFREE = Inr fm" "pumaBitmaskGet fm i = Inr MASKFREE"
proof -
  have "bm_wf (n_freeMask nd)" "i < bm_numElements (n_freeMask nd)" using assms by (simp_all add: node_mask_ok_def)
  from fm.set_then_get[OF this this(2), of True] fm.set_law[OF this, of True] show thesis
    by (auto simp: bitVal_mask_consts intro: that)
qed

lemma alloc_dbg:
  assumes nd: "nodeAt s node = Some nd" "node_geom (nodeBytes s) node nd" "node_mask_ok nd" "n_active nd"
    and B: "cfg_ok (nodeBytes s)" and i: "i < n_capacity nd" "i \<notin> used nd"
  shows "allocElementOnNodeDbg node (slotAddr nd i) s = allocElementOnNode node (slotAddr nd i) s"
proof -
  have home: "getNodeForElement s (slotAddr nd i) = node" by (rule node_of_slot[OF B nd(2) i(1)])
  obtain fm where "pumaBitmaskSet (n_freeMask nd) i MASKNOTFREE = Inr fm" "pumaBitmaskGet fm i = Inr MASKNOTFREE"
    by (rule mask_take[OF nd(3) i(1)])
  then show ?thesis
    using nd i mask_bit[OF nd(3) i(1)]
    by (simp add: allocElementOnNodeDbg_def allocElementOnNode_def home deref_simps index_of_slot[OF nd(2) i(1)])
qed

lemma free_dbg:
  assumes nd: "nodeAt s node = Some nd" "node_geom (nodeBytes s) node nd" "node_mask_ok nd"
    and B: "cfg_ok (nodeBytes s)" and i: "i < n_capacity nd"
  shows "freeElementOnNodeDbg (slotAddr nd i) node s
    = (if i \<in> used nd then freeElementOnNode (slotAddr nd i) node s else Inl AssertFailed)"
proof -
  let ?nd = "nd\<lparr>n_dirty := True\<rparr>" and ?s = "putNode node (nd\<lparr>n_dirty := True\<rparr>) s"
  have home: "getNodeForElement ?s (slotAddr nd i) = node"
    using node_of_slot[of ?s node nd i] B nd(2) i by (simp add: mem_simps)
  have "getIndexOfElementOnNode (slotAddr nd i) ?nd = Inr i"
    using index_of_slot[of "nodeBytes s" node ?nd i] nd(2) i by simp
  then have idx: "getIndexOfElement ?s (slotAddr nd i) = Inr i"
    by (simp add: getIndexOfElement_def home mem_simps)
  obtain fm where "pumaBitmaskSet (n_freeMask nd) i MASKFREE = Inr fm" "pumaBitmaskGet fm i = Inr MASKFREE"
    by (rule mask_release[OF nd(3) i])
  then show ?thesis
    using nd(1) i idx mask_bit[OF nd(3) i]
    by (simp add: freeElementOnNodeDbg_def freeElementOnNode_def mem_simps)
qed

section \<open>Compaction\<close>

lemma setF_allocElementOnNodeDbg:
  "allocElementOnNodeDbg n e (setF c F s) = map_sum id (setF c F) (allocElementOnNodeDbg n e s)"
  by (simp add: allocElementOnNodeDbg_def setF_push)

lemma setF_freeElementOnNodeDbg:
  "freeElementOnNodeDbg e n (setF c F s) = map_sum id (setF c F) (freeElementOnNodeDbg e n s)"
  by (simp add: freeElementOnNodeDbg_def setF_push setF_freeInactiveNext)

lemma setF_cleanupLoopDbg:
  fixes s :: "'e mem"
  shows "cleanupLoopDbg fuel cur t (setF c F s) = map_sum id (setF c F) (cleanupLoopDbg fuel cur t s)"
proof (induction fuel arbitrary: s)
  case (Suc fuel)
  have iter: "bindE (allocElementOnNodeDbg cur e (setF c F s1)) (\<lambda>s2. bindE (freeElementOnNodeDbg e' n
        (putCell e (cells s2 e') s2)) (cleanupLoopDbg fuel cur t))
    = map_sum id (setF c F) (bindE (allocElementOnNodeDbg cur e s1) (\<lambda>s2. bindE (freeElementOnNodeDbg e' n
        (putCell e (cells s2 e') s2)) (cleanupLoopDbg fuel cur t)))" for e e' n and s1 :: "'e mem"
  proof (rule bindE_sim[OF setF_allocElementOnNodeDbg], goal_cases)
    case (1 s2)
    show ?case
      unfolding setF_fields setF_put by (rule bindE_sim[OF setF_freeElementOnNodeDbg]) (rule Suc.IH)
  qed
  show ?case
    unfolding cleanupLoopDbg.simps(2) Let_def
    by (rule bindE_sim[OF setF_derefNode], unfold tweakF_fields, rule if_sim,
        rule bindE_sim_same, unfold case_prod_unfold, rule bindE_sim[OF setF_getLastElement],
        unfold fst_apsnd snd_apsnd, rule if_sim',
        rule bindE_sim[OF setF_derefNode], unfold setF_fields setF_getElement,
        rule bindE_sim[OF setF_derefNode], unfold tweakF_fields setF_fields setF_getElement, rule if_sim', rule iter)
qed (simp add: cleanupLoopDbg.simps(1))

text \<open>The two operations of an iteration that moves an element pass their assertions.\<close>

lemma move_dbg:
  assumes inv: "tl_inv s t xs ys" and cur: "cur \<in> set xs" "i < n_capacity nd" "i \<notin> used nd"
      "n_dirty nd" "n_firstKnownFree nd = n_capacity nd" and n: "n \<in> set xs"
    and mv: "movesFrom cur nd i n ln j s" and a: "allocElementOnNode cur (slotAddr nd i) s = Inr s2"
  shows "allocElementOnNodeDbg cur (slotAddr nd i) s = Inr s2"
    and "freeElementOnNodeDbg (slotAddr ln j) n (putCell e v s2) = freeElementOnNode (slotAddr ln j) n (putCell e v s2)"
proof -
  from inv obtain l where B: "cfg_ok (nodeBytes s)"
    and ok: "list_ok (nodeBytes s) t l (nodeAt s) xs ys" by (rule tl_invE)
  have m: "nodeAt s cur = Some nd" "nodeAt s n = Some ln" "j \<in> used ln" using mv by (auto simp: movesFrom_def)
  have nok: "node_ok (nodeBytes s) t (tl_elementSize l) cur nd" and act: "n_active nd"
    using list_okD(3,4)[OF ok] cur(1) m(1) by force+
  show "allocElementOnNodeDbg cur (slotAddr nd i) s = Inr s2"
    using alloc_dbg[OF m(1) node_ok_geom[OF nok] node_ok_mask[OF nok] act B cur(2,3)] a by simp
  have F: "insert i (used nd) \<subseteq> {..<n_capacity nd}" using cur(2) used_less by blast
  have same: "putNode cur (nd\<lparr>n_firstKnownFree := n_capacity nd\<rparr>) s = s"
    using m(1) cur(5) by (simp add: putNode_same)
  obtain s3 nd' fm where s3: "allocElementOnNode cur (slotAddr nd i) s = Inr s3" "tl_inv s3 t xs ys"
    "nodeAt s3 = (nodeAt s)(cur \<mapsto> nd')" "used nd' = insert i (used nd)"
    "nd' = nd\<lparr>n_firstKnownFree := n_capacity nd, n_freeMask := fm, n_numElements := Suc (n_numElements nd)\<rparr>"
    by (rule alloc_step[OF inv cur(1) m(1) cur(2,3) F]) (use cur(4) same in auto)
  have e: "s3 = s2" using s3(1) a by simp
  from s3(2)[unfolded e] obtain l2 where B2: "cfg_ok (nodeBytes s2)"
    and ok2: "list_ok (nodeBytes s2) t l2 (nodeAt s2) xs ys" by (rule tl_invE)
  obtain ln2 where ln2: "nodeAt s2 n = Some ln2" "j \<in> used ln2" "slotAddr ln2 = slotAddr ln"
    using s3(3,4,5) m e by (cases "n = cur") auto
  have lok: "node_ok (nodeBytes s2) t (tl_elementSize l2) n ln2" using list_okD(3)[OF ok2, of n] n ln2(1) by simp
  show "freeElementOnNodeDbg (slotAddr ln j) n (putCell e v s2) = freeElementOnNode (slotAddr ln j) n (putCell e v s2)"
    using free_dbg[of "putCell e v s2" n ln2 j] ln2 node_ok_geom[OF lok] node_ok_mask[OF lok] B2 used_less[OF ln2(2)]
    by (simp add: mem_simps)
qed

lemma cleanupLoop_dbg:
  assumes "tl_inv s t xs ys" "cur \<in> set xs \<or> xs = [] \<and> cur \<in> set ys"
    "nodeAt s cur = Some nd" "n_dirty nd" "n_firstKnownFree nd = n_capacity nd"
  shows "cleanupLoopDbg fuel cur t s = cleanupLoop fuel cur t s"
  using assms
proof (induction fuel arbitrary: s xs ys nd)
  case 0
  then show ?case by (simp add: cleanupLoopDbg.simps(1) cleanupLoop.simps(1))
next
  case (Suc fuel)
  note p = Suc.prems
  show ?case
  proof (cases "n_numElements nd < n_capacity nd")
    case False
    then show ?thesis using p(3) by (simp add: cleanupLoopDbg.simps(2) cleanupLoop.simps(2) mem_simps)
  next
    case lt: True
    show ?thesis
    proof (rule cleanup_step_full[OF p lt])
      fix s' r i
      assume st: "pumaFirstIndexOfValue (n_freeMask nd) MASKFREE = Inr (i, True)" "getLastElement t s = Inr (r, s')" "stopsAt cur i r s'"
      have "cleanupLoopDbg (Suc fuel) cur t s = Inr s'"
        using p(3) lt st unfolding stopsAt_def by (elim disjE exE) (auto simp: cleanupLoopDbg.simps(2) mem_simps)
      then show ?thesis using cleanupLoop_stop[OF p(3) lt st] by simp
    next
      fix s' zs ws ys' nd' i s1 s2 n ln j
      assume mv: "cur \<in> set zs" "kept t cur s s' xs ys zs ys' nd nd'" "i \<notin> used nd" "i < n_capacity nd"
        "pumaFirstIndexOfValue (n_freeMask nd) MASKFREE = Inr (i, True)" "getLastElement t s = Inr (slotAddr ln j, s1)"
        "movesFrom cur nd i n ln j s1" "tl_inv s1 t zs (ws @ ys)" "n \<in> set zs"
        "allocElementOnNode cur (slotAddr nd i) s1 = Inr s2"
        "freeElementOnNode (slotAddr ln j) n (putCell (slotAddr nd i) (cells s2 (slotAddr ln j)) s2) = Inr s'"
      note K = keptD[OF mv(2)]
      note d = move_dbg[OF mv(8,1,4,3) p(4,5) mv(9,7,10)]
      have "cleanupLoopDbg (Suc fuel) cur t s = cleanupLoopDbg fuel cur t s'"
        using p(3) lt mv(5-7,11) d unfolding movesFrom_def
        by (elim conjE) (auto simp: cleanupLoopDbg.simps(2) mem_simps Let_def)
      also have "\<dots> = cleanupLoop fuel cur t s'" by (rule Suc.IH[OF K(2) disjI1[OF mv(1)] K(4-6)])
      also have "\<dots> = cleanupLoop (Suc fuel) cur t s"
        by (rule cleanupLoop_move[OF p(3) lt mv(5-7,10,11), symmetric])
      finally show ?thesis .
    qed
  qed
qed

lemma cleanupNode_dbg_stale:
  assumes inv: "tl_inv s t xs ys" and mem: "cur \<in> set xs \<or> xs = [] \<and> cur \<in> set ys"
    and nd: "nodeAt s cur = Some nd" "n_dirty nd"
  shows "cleanupNodeDbg cur t (putNode cur (nd\<lparr>n_firstKnownFree := F\<rparr>) s)
    = cleanupNode cur t (putNode cur (nd\<lparr>n_firstKnownFree := F\<rparr>) s)"
proof -
  let ?nd = "nd\<lparr>n_firstKnownFree := n_capacity nd\<rparr>"
  let ?s = "putNode cur ?nd s"
  have inv0: "tl_inv ?s t xs ys"
    by (rule tl_inv_putNode[OF inv _ nd(1)]) (use mem in \<open>auto intro: node_ok_setFKF nd(2)\<close>)
  have s: "putNode cur (nd\<lparr>n_firstKnownFree := F\<rparr>) s = setF cur F ?s"
    by (subst setF_putNode[of _ _ ?nd]) (simp_all add: mem_simps putNode_twice)
  have "cleanupLoopDbg fuel cur t ?s = cleanupLoop fuel cur t ?s" for fuel
    by (rule cleanupLoop_dbg[OF inv0 mem, of ?nd]) (use nd in \<open>simp_all add: mem_simps\<close>)
  then have "cleanupLoopDbg fuel cur t (setF cur F ?s) = cleanupLoop fuel cur t (setF cur F ?s)" for fuel
    by (simp only: setF_cleanupLoop setF_cleanupLoopDbg)
  then show ?thesis unfolding s by (simp add: cleanupNodeDbg_def cleanupNode_def)
qed

lemma cleanupNode_dbg:
  assumes "tl_inv s t xs ys" "cur \<in> set xs \<or> xs = [] \<and> cur \<in> set ys" "nodeAt s cur = Some nd" "n_dirty nd"
  shows "cleanupNodeDbg cur t s = cleanupNode cur t s"
  using cleanupNode_dbg_stale[OF assms, of "n_firstKnownFree nd"] assms(3) by (simp add: putNode_same)

section \<open>Allocation and release\<close>

lemma claimSlot_dbg:
  assumes "nodeAt s n = Some nd" "node_geom (nodeBytes s) n nd" "node_mask_ok nd"
    and "cfg_ok (nodeBytes s)" "i < n_capacity nd" "i \<notin> used nd"
  shows "claimSlotDbg t n i s = claimSlot t n i s"
proof (cases "tlists s t")
  case None
  then show ?thesis using assms(1) by (simp add: claimSlotDbg_def claimSlot_def updList_def mem_simps)
next
  case (Some l)
  let ?l = "l\<lparr>tl_numNodes := sz_add (tl_numNodes l) (c_bool (\<not> n_active nd)), tl_tail := n\<rparr>"
  let ?s = "putNode n (nd\<lparr>n_active := True\<rparr>) (putList t ?l s)"
  have "allocElementOnNodeDbg n (slotAddr nd i) ?s = allocElementOnNode n (slotAddr nd i) ?s"
    using alloc_dbg[of ?s n "nd\<lparr>n_active := True\<rparr>" i] assms by (simp add: mem_simps node_mask_ok_def)
  then show ?thesis
    using assms(1) Some getElement_slot[OF assms(2,5)] by (simp add: claimSlotDbg_def claimSlot_def mem_simps Let_def)
qed

text \<open>The tail of a list: its last active node, or its first inactive one when none is active.\<close>

lemma allocOnTail_dbg:
  assumes inv: "tl_inv s t xs ys" and mem: "xs = vs @ [n] \<or> xs = [] \<and> n \<in> set ys"
    and n: "nodeAt s n = Some nd" and room: "n_numElements nd < n_capacity nd"
  shows "allocOnTailDbg t n s = allocOnTail t n s"
proof -
  from inv obtain l where B: "cfg_ok (nodeBytes s)"
    and ok: "list_ok (nodeBytes s) t l (nodeAt s) xs ys" by (rule tl_invE)
  have mem': "n \<in> set xs \<or> xs = [] \<and> n \<in> set ys" "n \<in> set xs \<union> set ys" using mem by auto
  have nok: "node_ok (nodeBytes s) t (tl_elementSize l) n nd" using list_okD(3)[OF ok mem'(2)] n by simp
  note E = node_okD[OF nok]
  let ?f = "n_firstKnownFree nd" and ?nd = "nd\<lparr>n_firstKnownFree := sz_add (n_firstKnownFree nd) 1\<rparr>"
  show ?thesis
  proof (cases "?f < n_capacity nd")
    case True
    have "?f \<notin> used nd" using E(7) by auto
    then have "claimSlotDbg t n ?f (putNode n ?nd s) = claimSlot t n ?f (putNode n ?nd s)"
      using claimSlot_dbg[of "putNode n ?nd s" n ?nd ?f t] node_ok_geom[OF nok] node_ok_mask[OF nok] B True
      by (simp add: mem_simps node_mask_ok_def)
    then show ?thesis using n True by (simp add: allocOnTailDbg_def allocOnTail_def mem_simps)
  next
    case False
    have dirty: "n_dirty nd" using E(10) False room by (cases "n_dirty nd") auto
    obtain s2 xs' ys' nd2 where cl: "cleanupNode n t s = Inr s2" "cleaned t n s s2 xs ys xs' ys' nd nd2"
      by (rule cleanupNode_ok[OF inv mem'(1) n dirty])
    note K = cleanedD[OF cl(2)]
    have same: "cleanupNode n t (putNode n ?nd s) = cleanupNode n t s"
      unfolding setF_putNode[OF n, symmetric] by (rule setF_cleanupNode)
    have dbg: "cleanupNodeDbg n t (putNode n ?nd s) = Inr s2"
      unfolding cleanupNode_dbg_stale[OF inv mem'(1) n dirty] same by (rule cl(1))
    let ?k = "n_numElements nd2"
    have k: "?k < n_capacity nd2"
    proof (cases "n \<in> set xs'")
      case True
      obtain ws where ws: "xs = xs' @ ws" using K(1) by blast
      have xs: "xs = vs @ [n]" using True ws mem by auto
      have "ws = []" using ws True xs list_okD(1)[OF ok] by (cases ws rule: rev_cases) auto
      then have "xs' = vs @ [n]" using ws xs by simp
      then have "?k = n_numElements nd" using cleaned_tail_count[of s t vs n ys nd s2 ys' nd2] inv n cl(2) xs by simp
      then show ?thesis using room K(8) by simp
    next
      case False
      then have "used nd2 = {}" using K(14) by blast
      then have "?k = 0" using K(6) by auto
      then show ?thesis using room K(8) by simp
    qed
    have memn: "n \<in> set xs' \<union> set ys'"
    proof (cases "n \<in> set xs'")
      case False
      then have "gaveBack s xs ys xs' ys'" using K(14) by blast
      then show ?thesis using False mem'(2) K(1) by (auto simp: gaveBack_def)
    qed simp
    from K(2) obtain l2 where B2: "cfg_ok (nodeBytes s2)"
      and ok2: "list_ok (nodeBytes s2) t l2 (nodeAt s2) xs' ys'" by (rule tl_invE)
    have nok2: "node_ok (nodeBytes s2) t (tl_elementSize l2) n nd2" using list_okD(3)[OF ok2 memn] K(4) by simp
    let ?nd2 = "nd2\<lparr>n_firstKnownFree := sz_add ?k 1\<rparr>"
    have "?k \<notin> used nd2" using K(6) by simp
    then have "claimSlotDbg t n ?k (putNode n ?nd2 s2) = claimSlot t n ?k (putNode n ?nd2 s2)"
      using claimSlot_dbg[of "putNode n ?nd2 s2" n ?nd2 ?k t] node_ok_geom[OF nok2] node_ok_mask[OF nok2] B2 k
      by (simp add: mem_simps node_mask_ok_def)
    then show ?thesis using n False dbg same cl(1) K(4) by (simp add: allocOnTailDbg_def allocOnTail_def mem_simps)
  qed
qed

text \<open>The only difference: a failing \<open>posix_memalign\<close> is caught, not followed.\<close>

definition sameButMemory :: "c_fault + 'a \<Rightarrow> c_fault + 'a \<Rightarrow> bool" where
  "sameButMemory rel dbg \<longleftrightarrow> dbg = rel \<or> rel = Inl OutOfMemory \<and> dbg = Inl AssertFailed"

lemma sameButMemory_refl [simp]: "sameButMemory r r"
  by (simp add: sameButMemory_def)

lemma sameButMemory_memory [simp]: "sameButMemory (Inl OutOfMemory) (Inl AssertFailed)"
  by (simp add: sameButMemory_def)

text \<open>When the assertion of the mask holds: it depends on the sizes only.\<close>

definition maskAssertOk :: "nat \<Rightarrow> nat \<Rightarrow> bool" where
  "maskAssertOk B es \<longleftrightarrow> (let r = (B - sizeof_pumaNode) mod (64 * es + 8) in r < es \<or> es + 8 < r)"

section \<open>The pages of an appended node\<close>

text \<open>Memory in which the elements have other values.\<close>

lemma withCells_simps [simp]:
  "nodeBytes (s\<lparr>cells := c\<rparr>) = nodeBytes s"
  "derefNode (s\<lparr>cells := c\<rparr>) a = derefNode s a" "derefList (s\<lparr>cells := c\<rparr>) t = derefList s t"
  "putNode a nd (s\<lparr>cells := c\<rparr>) = (putNode a nd s)\<lparr>cells := c\<rparr>" "putList t l (s\<lparr>cells := c\<rparr>) = (putList t l s)\<lparr>cells := c\<rparr>"
  "tl_inv (s\<lparr>cells := c\<rparr>) t xs ys = tl_inv s t xs ys"
  by (simp_all add: nodeBytes_def derefNode_def derefList_def putNode_def putList_def tl_inv_def)

lemma withCells_upd [simp]:
  "updNode a f (s\<lparr>cells := c\<rparr>) = map_sum id (\<lambda>s. s\<lparr>cells := c\<rparr>) (updNode a f s)"
  "updList t g (s\<lparr>cells := c\<rparr>) = map_sum id (\<lambda>s. s\<lparr>cells := c\<rparr>) (updList t g s)"
  by (simp_all add: updNode_def updList_def map_sum_bindE comp_def)

abbreviation withCells :: "(addr \<Rightarrow> 'e) \<Rightarrow> 'e mem \<Rightarrow> 'e mem" where
  "withCells c \<equiv> cells_update (\<lambda>_. c)"

lemma withCells_appendFresh:
  "appendFresh ma t es tail k (withCells c s) = map_sum id (apsnd (withCells c)) (appendFresh ma t es tail k s)"
proof (cases "ma (fmdom (nodes s)) (nodeBytes s)")
  case (Some a)
  have mid: "(if tail \<noteq> 0 then updNode tail f (withCells c s1) else Inr (withCells c s1))
      = map_sum id (withCells c) (if tail \<noteq> 0 then updNode tail f s1 else Inr s1)" for f and s1 :: "'a mem"
    by simp
  have "bindE (updList t g (putNode a nd (withCells c s))) (\<lambda>s1. bindE (if tail \<noteq> 0 then updNode tail f s1 else Inr s1) (\<lambda>s2.
      bindE (updList t h s2) (\<lambda>s3. Inr (a, s3))))
    = map_sum id (apsnd (withCells c)) (bindE (updList t g (putNode a nd s)) (\<lambda>s1. bindE (if tail \<noteq> 0 then updNode tail f s1 else Inr s1) (\<lambda>s2.
      bindE (updList t h s2) (\<lambda>s3. Inr (a, s3)))))" for f g h nd
    unfolding withCells_simps
    by (rule bindE_sim[OF withCells_upd(2)], rule bindE_sim[OF mid], rule bindE_sim[OF withCells_upd(2)]) simp
  then show ?thesis
    using Some by (simp add: appendFresh_def Let_def map_sum_bindE comp_def case_prod_unfold
        if_distrib[where f = "map_sum id (apsnd (withCells c))"] del: withCells_simps(4) withCells_upd cong: if_cong)
qed (simp add: appendFresh_def)

lemma withCells_appendPumaNode:
  "appendPumaNode ma t es (withCells c s) = map_sum id (apsnd (withCells c)) (appendPumaNode ma t es s)"
proof -
  have last: "bindE (derefNode (withCells c s1) a) (\<lambda>rn. bindE (updList t (f rn) (withCells c s1)) (\<lambda>s2. Inr (a, s2)))
      = map_sum id (apsnd (withCells c)) (bindE (derefNode s1 a) (\<lambda>rn. bindE (updList t (f rn) s1) (\<lambda>s2. Inr (a, s2))))"
    for f a and s1 :: "'a mem"
    unfolding withCells_simps by (rule bindE_sim_same, rule bindE_sim[OF withCells_upd(2)]) simp
  have first: "(if b then Inr (n, putNode n nd (withCells c s))
        else if d then bindE (updNode m f (putList t l (withCells c s))) (\<lambda>s1. Inr (m, s1))
        else appendFresh ma t es n k (withCells c s))
      = map_sum id (apsnd (withCells c)) (if b then Inr (n, putNode n nd s)
        else if d then bindE (updNode m f (putList t l s)) (\<lambda>s1. Inr (m, s1)) else appendFresh ma t es n k s)" for b n nd d m f l k
    by (simp add: withCells_appendFresh map_sum_bindE comp_def)
  show ?thesis
    unfolding appendPumaNode_def Let_def withCells_simps(3)
  proof (rule bindE_sim_same, rule bindE_sim[where g = "apsnd (withCells c)"], goal_cases)
    case (1 l)
    show ?case
    proof (cases "tl_tail l = 0")
      case False
      then show ?thesis unfolding if_not_P[OF False] withCells_simps(2) by (intro bindE_sim_same first)
    qed (simp add: withCells_appendFresh)
  next
    case (2 l r)
    show ?case unfolding case_prod_unfold fst_apsnd snd_apsnd by (rule last)
  qed
qed

text \<open>
  What the kernel has to do for a debug build for NUMA: bind every block and have every page on node
  \<open>d\<close>. The mask of a node is in its first page, so that no write hits it.
\<close>

definition pagesOk :: "platform \<Rightarrow> 'e debugKernel \<Rightarrow> int \<Rightarrow> nat \<Rightarrow> 'e mem \<Rightarrow> bool" where
  "pagesOk P K d es s \<longleftrightarrow> NNUMA P
     \<or> pumaPageSize s dvd nodeBytes s
       \<and> sizeof_pumaNode + 8 * (((nodeBytes s - sizeof_pumaNode) div es + 63) div 64) \<le> pumaPageSize s
       \<and> (\<forall>a. dbg_mbind K a = 0 \<and> dbg_pageNode K a = Some d)"

definition nodeSlots :: "pumaNode \<Rightarrow> addr set" where
  "nodeSlots nd = slotAddr nd ` {..<n_capacity nd}"

lemma touchPages_id:
  assumes "node_mask_ok nd" "sizeof_pumaNode + 8 * ((n_capacity nd + 63) div 64) \<le> pageSize"
  shows "touchPages pageSize nd = nd"
proof -
  have len: "length (buckets (n_freeMask nd)) = (n_capacity nd + 63) div 64" using assms(1) by (simp add: node_mask_ok_def bm_wf_def)
  have one: "touchByte (p * pageSize - sizeof_pumaNode) (n_freeMask nd) = n_freeMask nd" if "1 \<le> p" for p
  proof -
    have "pageSize \<le> p * pageSize" using that by (cases p) simp_all
    then have "(n_capacity nd + 63) div 64 \<le> (p * pageSize - sizeof_pumaNode) div 8" using assms(2) by linarith
    then show ?thesis by (simp add: touchByte_def len)
  qed
  have "fold (\<lambda>p nd. nd\<lparr>n_freeMask := touchByte (p * pageSize - sizeof_pumaNode) (n_freeMask nd)\<rparr>) ps nd = nd"
    if "\<forall>p\<in>set ps. 1 \<le> p" for ps
    using that by (induction ps) (simp_all add: one)
  then show ?thesis by (simp add: touchPages_def)
qed

lemma touchCells_slots: "x \<notin> nodeSlots nd \<Longrightarrow> touchCells poke pageSize a nd c x = c x"
proof -
  assume x: "x \<notin> nodeSlots nd"
  have one: "touchCell poke nd b c' x = c' x" for b c'
    using x by (auto simp: touchCell_def Let_def nodeSlots_def)
  have "fold (\<lambda>p c. touchCell poke nd (a + p * pageSize) c) ps c' x = c' x" for ps c'
    by (induction ps arbitrary: c') (simp_all add: one)
  then show ?thesis by (simp add: touchCells_def)
qed

lemma touchNodeDbg_ok:
  assumes nd: "nodeAt s a = Some nd" "node_ok (nodeBytes s) t es a nd" and l: "tlists s t = Some l"
    and B: "cfg_ok (nodeBytes s)" and pg: "pagesOk P K (tl_numaDomain l) es s"
  obtains c where "touchNodeDbg P K t a s = Inr (s\<lparr>cells := c\<rparr>)" "\<And>x. x \<notin> nodeSlots nd \<Longrightarrow> c x = cells s x"
    "NNUMA P \<Longrightarrow> c = cells s"
proof (cases "NNUMA P")
  case True
  then show thesis by (intro that[of "cells s"]) (simp_all add: touchNodeDbg_def)
next
  case False
  let ?ps = "pumaPageSize s"
  have g: "node_geom (nodeBytes s) a nd" "node_mask_ok nd" by (rule node_ok_geom[OF nd(2)], rule node_ok_mask[OF nd(2)])
  have es: "n_elementSize nd = es" using nd(2) by (simp add: node_ok_def)
  have pg: "?ps dvd nodeBytes s" "sizeof_pumaNode + 8 * (((nodeBytes s - sizeof_pumaNode) div es + 63) div 64) \<le> ?ps"
    "\<And>x. dbg_pageNode K x = Some (tl_numaDomain l)" using pg False by (auto simp: pagesOk_def)
  have pos: "?ps \<noteq> 0" using pg(2) by (simp add: sizeof_pumaNode_def)
  have "?ps dvd a" using g(1) pg(1) by (auto simp: node_geom_def intro: dvd_trans)
  then have al: "a mod ?ps = 0" by simp
  have "n_capacity nd * es \<le> nodeBytes s - sizeof_pumaNode" "0 < es" using g(1) by (auto simp: node_geom_def es[symmetric])
  then have "n_capacity nd \<le> (nodeBytes s - sizeof_pumaNode) div es" by (simp add: less_eq_div_iff_mult_less_eq)
  then have "(n_capacity nd + 63) div 64 \<le> ((nodeBytes s - sizeof_pumaNode) div es + 63) div 64" by (intro div_le_mono) simp
  then have fits: "sizeof_pumaNode + 8 * ((n_capacity nd + 63) div 64) \<le> ?ps" using pg(2) by linarith
  have same: "bindE (derefNode s a) f = f nd" "putNode a nd s = s" for f using nd(1) by (simp_all add: deref_simps putNode_same)
  let ?c = "touchCells (dbg_poke K) ?ps a nd (cells s)"
  have "touchNodeDbg P K t a s = Inr (s\<lparr>cells := ?c\<rparr>)"
    unfolding touchNodeDbg_def al same Let_def touchPages_id[OF g(2) fits]
    using False pos l by (simp add: same(2) deref_simps pg(3) list_all_iff)
  then show thesis using False touchCells_slots by (intro that[of ?c]) auto
qed

section \<open>Allocation\<close>

lemma appendFresh_dbg:
  assumes ma: "memalign_spec ma" and B: "cfg_ok (nodeBytes s)" and es: "elementFits s es" and pg: "pagesOk P K d es s"
  shows "appendFreshDbg P K ma t es tail k s
    = (if ma (fmdom (nodes s)) (nodeBytes s) = None \<or> \<not> maskAssertOk (nodeBytes s) es then Inl AssertFailed
       else bindE (appendFresh ma t es tail k s) (\<lambda>(a, s1). bindE (touchNodeDbg P K t a s1) (\<lambda>s2. Inr (a, s2))))"
proof (cases "ma (fmdom (nodes s)) (nodeBytes s)")
  case None
  then show ?thesis by (simp add: appendFreshDbg_def numallocDbg_def)
next
  case (Some a)
  let ?A = "nodeBytes s - sizeof_pumaNode"
  have a: "nodeBytes s dvd a" "a + nodeBytes s \<le> 2 ^ 64" using ma Some by (auto simp: memalign_spec_def)
  have Bb: "sizeof_pumaNode < nodeBytes s" "nodeBytes s < 2 ^ 57" using B by (simp_all add: cfg_ok_def)
  have e: "0 < es" "es \<le> ?A" using es by (simp_all add: elementFits_def)
  have lt: "a < 2 ^ 64" "?A < 2 ^ 57" "a + sizeof_pumaNode + ?A \<le> 2 ^ 64" using a(2) Bb by linarith+
  have al: "getNodeForElement s a = a" using getNodeForElement_align[OF B lt(1)] a(1) by (simp add: dvd_imp_mod_0)
  have sub: "sz_sub (nodeBytes s) sizeof_pumaNode = ?A" using Bb by (intro sz_sub_exact) simp_all
  have arr: "sz_add a sizeof_pumaNode = a + sizeof_pumaNode" using a(2) Bb by (intro sz_add_exact) linarith
  have bound: "assertE (NNUMA P \<or> dbg_mbind K a = 0) = Inr ()" using pg by (auto simp: pagesOk_def)
  obtain bm where bm: "createPumaBitmaskForElemArray (a + sizeof_pumaNode) ?A MASKFREE es
      = Inr (bm, a + sizeof_pumaNode + (elemCount ?A es + 63) div 64 * 8, elemCount ?A es)"
    using createPumaBitmaskForElemArray_layout[OF e lt(2,3), of True] unfolding bitVal_mask_consts by blast
  have "elemArrayAssert (a + sizeof_pumaNode) ?A es (a + sizeof_pumaNode + (elemCount ?A es + 63) div 64 * 8) (elemCount ?A es)
      \<longleftrightarrow> maskAssertOk (nodeBytes s) es"
    unfolding elemArrayAssert_iff[OF e lt(2,3)] by (simp add: maskAssertOk_def Let_def)
  moreover have "appendFresh (\<lambda>_ _. Some a) t es tail k s = appendFresh ma t es tail k s"
    using Some by (simp add: appendFresh_def)
  ultimately show ?thesis
    using Some al e(2) by (simp add: appendFreshDbg_def numallocDbg_def Let_def sub arr bm not_less bound)
qed

text \<open>
  The node that is appended has no elements, so that only values of free slots differ. It is a new
  node, whose pages are written twice, or one that was given back.
\<close>

lemma appendPumaNode_dbg_reuse:
  assumes inv: "tl_inv s t xs (y # ys)" and l: "tlists s t = Some l"
  shows "appendPumaNodeDbg P K ma t es s
    = bindE (appendPumaNode ma t es s) (\<lambda>(a, s1). bindE (touchNodeDbg P K t a s1) (\<lambda>s2. Inr (a, s2)))"
proof -
  from inv l have ok: "list_ok (nodeBytes s) t l (nodeAt s) xs (y # ys)" by (auto simp: tl_inv_def)
  note D = list_okD[OF ok]
  have y: "y \<noteq> 0" using list_ok_nz[OF ok, of y] by simp
  show ?thesis
  proof (cases xs rule: rev_cases)
    case Nil
    obtain ny where "nodeAt s y = Some ny" "\<not> n_active ny" using D(4) list_ok_node[OF ok, of y] Nil by force
    then show ?thesis using l D(9) Nil y
      by (simp add: appendPumaNodeDbg_def appendPumaNode_def deref_simps Let_def bindE_assoc case_prod_unfold)
  next
    case (snoc vs n)
    obtain tn where tn: "nodeAt s n = Some tn" "n_active tn" using list_ok_node[OF ok, of n] snoc by auto
    have "n \<noteq> 0" using list_ok_nz[OF ok, of n] snoc by auto
    moreover have "n_next tn = y" using D(2) tn(1) by (simp add: snoc)
    ultimately show ?thesis using l D(9) snoc y tn
      by (simp add: appendPumaNodeDbg_def appendPumaNode_def deref_simps Let_def bindE_assoc case_prod_unfold)
  qed
qed

lemma appendPumaNode_fresh:
  assumes inv: "tl_inv s t xs []" and l: "tlists s t = Some l" and len: "length xs < 2 ^ 31"
  shows "appendPumaNode ma t es s = bindE (appendFresh ma t es (lastOr 0 xs) (length xs) s) (\<lambda>(r, s1).
      bindE (derefNode s1 r) (\<lambda>rn.
      bindE (updList t (\<lambda>l. l\<lparr>tl_numNodes := sz_add (n_index rn) 1\<rparr>) s1) (\<lambda>s2. Inr (r, s2))))" (is ?rel)
    and "appendPumaNodeDbg P K ma t es s = bindE (appendFreshDbg P K ma t es (lastOr 0 xs) (length xs) s) (\<lambda>(r, s1).
      bindE (derefNode s1 r) (\<lambda>rn.
      bindE (updList t (\<lambda>l. l\<lparr>tl_numNodes := sz_add (n_index rn) 1\<rparr>) s1) (\<lambda>s2.
      bindE (touchNodeDbg P K t r s2) (\<lambda>s3. Inr (r, s3)))))" (is ?dbg)
proof -
  from inv l have ok: "list_ok (nodeBytes s) t l (nodeAt s) xs []" by (auto simp: tl_inv_def)
  note D = list_okD[OF ok]
  have "?rel \<and> ?dbg"
  proof (cases xs rule: rev_cases)
    case Nil
    then have "tl_tail l = 0" using D(9) by simp
    then show ?thesis using l Nil by (simp add: appendPumaNode_def appendPumaNodeDbg_def mem_simps)
  next
    case (snoc vs n)
    then have tail: "tl_tail l = n" using D(9) by simp
    obtain tn where tn: "nodeAt s n = Some tn" "n_active tn" using list_ok_node[OF ok, of n] snoc by auto
    have nz: "n \<noteq> 0" using list_ok_nz[OF ok, of n] snoc by auto
    have nx: "n_next tn = 0" using D(2) tn(1) by (simp add: snoc)
    have "n_index tn = length vs" using list_ok_index_split[of _ t l "nodeAt s" vs n "[]" "[]"] ok snoc tn(1) by simp
    then have "intIndex (sz_add (n_index tn) 1) = length xs"
      using len snoc by (simp add: sz_add_exact intIndex_small)
    then show ?thesis
      using l tail tn nz nx snoc by (simp add: appendPumaNode_def appendPumaNodeDbg_def mem_simps Let_def)
  qed
  then show ?rel ?dbg by simp_all
qed

lemma appendPumaNode_dbg:
  assumes ma: "memalign_spec ma" and inv: "tl_inv s t xs ys" and l: "tlists s t = Some l"
    and es: "elementFits s (tl_elementSize l)" "maskAssertOk (nodeBytes s) (tl_elementSize l)" and len: "length xs < 2 ^ 31"
    and pg: "pagesOk P K (tl_numaDomain l) (tl_elementSize l) s"
    and app: "appendPumaNode ma t (tl_elementSize l) s = Inr (a, s1)" "appended t a s s1 xs ys ys1 nd"
  shows "\<exists>c. appendPumaNodeDbg P K ma t (tl_elementSize l) s = Inr (a, withCells c s1)
    \<and> (\<forall>x. x \<notin> nodeSlots nd \<longrightarrow> c x = cells s x) \<and> (NNUMA P \<longrightarrow> c = cells s)"
proof -
  let ?es = "tl_elementSize l"
  have A: "tl_inv s1 t (xs @ [a]) ys1" "nodeAt s1 a = Some nd" "cells s1 = cells s" "framed t (insert a (set xs)) s s1"
    using app(2) by (simp_all add: appended_def)
  from A(1) obtain l1 where B1: "cfg_ok (nodeBytes s1)" and l1: "tlists s1 t = Some l1"
    and ok1: "list_ok (nodeBytes s1) t l1 (nodeAt s1) (xs @ [a]) ys1" by (rule tl_invE)
  have d1: "desc l1 = desc l" using A(4) l l1 by (simp add: framed_def)
  then have nok: "node_ok (nodeBytes s1) t ?es a nd" using list_okD(3)[OF ok1, of a] A(2) by (simp add: desc_def)
  have pg1: "pagesOk P K (tl_numaDomain l1) ?es (withCells c s1)" for c
    using pg A(4) d1 framed_nodeBytes[OF A(4)] by (simp add: pagesOk_def framed_def desc_def)
  have touch: "\<exists>c'. touchNodeDbg P K t a (withCells c s1) = Inr (withCells c' s1) \<and> (\<forall>x. x \<notin> nodeSlots nd \<longrightarrow> c' x = c x)
      \<and> (NNUMA P \<longrightarrow> c' = c)" for c
    by (rule touchNodeDbg_ok[of "withCells c s1" a nd t ?es l1 P K]) (use A(2) nok l1 B1 pg1[of c] in auto)
  have id: "withCells (cells s1) s1 = s1" by simp
  show ?thesis
  proof (cases ys)
    case (Cons y yz)
    obtain c' where "touchNodeDbg P K t a s1 = Inr (withCells c' s1)" "\<forall>x. x \<notin> nodeSlots nd \<longrightarrow> c' x = cells s1 x" "NNUMA P \<longrightarrow> c' = cells s1"
      using touch[of "cells s1"] by auto
    then show ?thesis
      using app(1) appendPumaNode_dbg_reuse[OF inv[unfolded Cons] l] A(3) by (intro exI[of _ c']) simp
  next
    case Nil
    note red = appendPumaNode_fresh[OF inv[unfolded Nil] l len]
    obtain s0 where s0: "appendFresh ma t ?es (lastOr 0 xs) (length xs) s = Inr (a, s0)"
      "bindE (derefNode s0 a) (\<lambda>rn. bindE (updList t (\<lambda>l. l\<lparr>tl_numNodes := sz_add (n_index rn) 1\<rparr>) s0) (\<lambda>s2. Inr (a, s2))) = Inr (a, s1)"
      using app(1) unfolding red(1) by (auto simp: bindE_eq_Inr)
    then obtain rn l0 where l0: "nodeAt s0 a = Some rn" "tlists s0 t = Some l0" "s1 = putList t (l0\<lparr>tl_numNodes := sz_add (n_index rn) 1\<rparr>) s0"
      by (auto simp: bindE_eq_Inr updList_def derefNode_def derefList_def split: option.splits)
    have rn: "rn = nd" using l0 A(2) by (simp add: mem_simps)
    have mem: "ma (fmdom (nodes s)) (nodeBytes s) \<noteq> None" by (rule notI) (use s0(1) in \<open>simp add: appendFresh_def\<close>)
    have at0: "nodeBytes s0 = nodeBytes s1" "tl_numaDomain l0 = tl_numaDomain l1" using l1 unfolding l0(3) by (auto simp: mem_simps)
    have pg0: "pagesOk P K (tl_numaDomain l0) ?es s0" using pg1[of "cells s1"] unfolding at0(2) l0(3) by (simp add: pagesOk_def mem_simps)
    obtain c0 where c0: "touchNodeDbg P K t a s0 = Inr (withCells c0 s0)" "\<And>x. x \<notin> nodeSlots nd \<Longrightarrow> c0 x = cells s0 x"
      "NNUMA P \<Longrightarrow> c0 = cells s0"
      by (rule touchNodeDbg_ok[of s0 a nd t ?es l0 P K]) (use l0 rn nok B1 at0 pg0 in auto)
    obtain c1 where c1: "touchNodeDbg P K t a (withCells c0 s1) = Inr (withCells c1 s1)"
      "\<forall>x. x \<notin> nodeSlots nd \<longrightarrow> c1 x = c0 x" "NNUMA P \<longrightarrow> c1 = c0" using touch[of c0] by auto
    have num: "bindE (derefNode (withCells c0 s0) a) (\<lambda>rn. bindE (updList t (\<lambda>l. l\<lparr>tl_numNodes := sz_add (n_index rn) 1\<rparr>) (withCells c0 s0)) f)
        = f (withCells c0 s1)" for f :: "'a mem \<Rightarrow> c_fault + addr \<times> 'a mem"
      using l0 rn by (simp add: deref_simps upd_simps)
    have B: "cfg_ok (nodeBytes s)" using inv by (simp add: tl_inv_def)
    have f: "appendFreshDbg P K ma t ?es (lastOr 0 xs) (length xs) s = Inr (a, withCells c0 s0)"
      unfolding appendFresh_dbg[OF ma B es(1) pg] using s0(1) mem es(2) c0(1) by simp
    have "appendPumaNodeDbg P K ma t ?es s = Inr (a, withCells c1 s1)"
      unfolding red(2) f by (simp only: bindE_simps prod.case num c1(1))
    moreover have "cells s0 = cells s" using A(3) unfolding l0(3) by (simp add: mem_simps)
    ultimately show ?thesis using c0(2,3) c1(2,3) by (intro exI[of _ c1]) simp
  qed
qed

text \<open>A failing \<open>posix_memalign\<close> is caught by an assertion, not followed.\<close>

lemma appendPumaNode_dbg_memory:
  assumes ma: "memalign_spec ma" and inv: "tl_inv s t xs []" and l: "tlists s t = Some l" and es: "elementFits s (tl_elementSize l)"
    and len: "length xs < 2 ^ 31" and pg: "pagesOk P K (tl_numaDomain l) (tl_elementSize l) s"
    and none: "ma (fmdom (nodes s)) (nodeBytes s) = None"
  shows "appendPumaNode ma t (tl_elementSize l) s = Inl OutOfMemory"
    and "appendPumaNodeDbg P K ma t (tl_elementSize l) s = Inl AssertFailed"
proof -
  have B: "cfg_ok (nodeBytes s)" using inv by (simp add: tl_inv_def)
  show "appendPumaNode ma t (tl_elementSize l) s = Inl OutOfMemory"
    unfolding appendPumaNode_fresh(1)[OF inv l len] using none by (simp add: appendFresh_def)
  show "appendPumaNodeDbg P K ma t (tl_elementSize l) s = Inl AssertFailed"
    unfolding appendPumaNode_fresh(2)[OF inv l len] using none by (simp add: appendFresh_dbg[OF ma B es pg])
qed

text \<open>
  \<open>freeDiffers s c\<close>: with the values \<open>c\<close>, memory differs from \<open>s\<close> at most in the slots of one node,
  which has no elements.
\<close>

definition freeDiffers :: "'e mem \<Rightarrow> (addr \<Rightarrow> 'e) \<Rightarrow> bool" where
  "freeDiffers s c \<longleftrightarrow> c = cells s
     \<or> (\<exists>a. (\<forall>nd. nodeAt s a = Some nd \<longrightarrow> used nd = {}) \<and> {x. c x \<noteq> cells s x} \<subseteq> {x. getNodeForElement s x = a})"

lemma freeDiffers_live:
  assumes "freeDiffers s c" "tl_inv s t xs ys" "x \<in> liveAddrs (nodeAt s) xs"
  shows "c x = cells s x"
proof (rule ccontr)
  assume ne: "c x \<noteq> cells s x"
  with assms(1) obtain a where a: "\<forall>nd. nodeAt s a = Some nd \<longrightarrow> used nd = {}" "{x. c x \<noteq> cells s x} \<subseteq> {x. getNodeForElement s x = a}"
    by (auto simp: freeDiffers_def)
  obtain n nd i where n: "n \<in> set xs" "nodeAt s n = Some nd" "i \<in> used nd" "x = slotAddr nd i"
    using assms(3) tl_inv_allocated[OF assms(2)] by (fastforce simp: liveAddrs_def liveOf_def)
  from assms(2) obtain l where B: "cfg_ok (nodeBytes s)"
    and ok: "list_ok (nodeBytes s) t l (nodeAt s) xs ys" by (rule tl_invE)
  have "node_ok (nodeBytes s) t (tl_elementSize l) n nd" using list_okD(3)[OF ok, of n] n by simp
  then have "getNodeForElement s x = n" unfolding n(4) by (rule node_of_slot[OF B node_ok_geom used_less[OF n(3)]])
  then have "a = n" using ne a(2) by auto
  then show False using a(1) n(2,3) by auto
qed

lemma pumallocOnThreadList_dbg:
  assumes ma: "memalign_spec ma" and inv: "tl_inv s t xs ys" and l: "tlists s t = Some l"
    and es: "elementFits s (tl_elementSize l)" "maskAssertOk (nodeBytes s) (tl_elementSize l)" and len: "length xs < 2 ^ 31"
    and pg: "pagesOk P K (tl_numaDomain l) (tl_elementSize l) s"
  shows "\<exists>c. freeDiffers s c \<and> (NNUMA P \<longrightarrow> c = cells s)
    \<and> sameButMemory (pumallocOnThreadList ma t (withCells c s)) (pumallocOnThreadListDbg P K ma t s)"
proof -
  from inv l have B: "cfg_ok (nodeBytes s)" and ok: "list_ok (nodeBytes s) t l (nodeAt s) xs ys" by (auto simp: tl_inv_def)
  note D = list_okD[OF ok]
  have same: "withCells (cells s) s = s" by simp
  let ?app = "appendPumaNode ma t (tl_elementSize l)" and ?appDbg = "appendPumaNodeDbg P K ma t (tl_elementSize l) s"
  have grow: ?thesis if run: "pumallocOnThreadListDbg P K ma t s = bindE ?appDbg (\<lambda>(tail, s1). allocOnTailDbg t tail s1)"
    "\<And>c. pumallocOnThreadList ma t (withCells c s) = bindE (?app (withCells c s)) (\<lambda>(tail, s1). allocOnTail t tail s1)"
  proof (rule appendPumaNode_ok[OF ma inv l es(1) len])
    assume f: "ys = []" "ma (fmdom (nodes s)) (nodeBytes s) = None"
    note m = appendPumaNode_dbg_memory[OF ma inv[unfolded f(1)] l es(1) len pg f(2)]
    show ?thesis using run(1) run(2)[of "cells s"] m by (intro exI[of _ "cells s"]) (simp add: freeDiffers_def)
  next
    fix a s1 ys1 nd assume ap: "?app s = Inr (a, s1)" "appended t a s s1 xs ys ys1 nd"
    obtain c where c: "?appDbg = Inr (a, withCells c s1)" "\<forall>x. x \<notin> nodeSlots nd \<longrightarrow> c x = cells s x" "NNUMA P \<longrightarrow> c = cells s"
      using appendPumaNode_dbg[OF ma inv l es len pg ap] by blast
    have A: "tl_inv s1 t (xs @ [a]) ys1" "nodeAt s1 a = Some nd" "n_numElements nd = 0"
      "ys = a # ys1 \<or> nodeAt s a = None" "framed t (insert a (set xs)) s s1"
      using ap(2) by (auto simp: appended_def)
    from A(1) obtain l1 where ok1: "list_ok (nodeBytes s1) t l1 (nodeAt s1) (xs @ [a]) ys1" by (rule tl_invE)
    have nok: "node_ok (nodeBytes s1) t (tl_elementSize l1) a nd" using list_okD(3)[OF ok1, of a] A(2) by simp
    have "node_geom (nodeBytes s1) a nd" by (rule node_ok_geom[OF nok])
    then have "n_numElements nd < n_capacity nd" using A(3) by (simp add: node_geom_def)
    then have "allocOnTailDbg t a (withCells c s1) = allocOnTail t a (withCells c s1)"
      using allocOnTail_dbg[of "withCells c s1" t "xs @ [a]" ys1 xs a nd] A(1,2) by simp
    then have run': "pumallocOnThreadListDbg P K ma t s = pumallocOnThreadList ma t (withCells c s)"
      using run(1) run(2)[of c] c(1) ap(1) by (simp add: withCells_appendPumaNode)
    have "{x. c x \<noteq> cells s x} \<subseteq> nodeSlots nd" using c(2) by blast
    moreover have "nodeSlots nd \<subseteq> {x. getNodeForElement s x = a}"
    proof -
      have nb: "nodeBytes s1 = nodeBytes s" by (rule framed_nodeBytes[OF A(5)])
      have "getNodeForElement s (slotAddr nd i) = a" if "i < n_capacity nd" for i
        by (rule node_of_slot[OF B node_ok_geom[OF nok[unfolded nb]] that])
      then show ?thesis by (auto simp: nodeSlots_def)
    qed
    moreover have "used nda = {}" if "nodeAt s a = Some nda" for nda
    proof -
      have "a \<in> set ys" using A(4) that by auto
      then have "node_ok (nodeBytes s) t (tl_elementSize l) a nda" "n_numElements nda = 0" using D(3)[of a] D(5)[of a] that by auto
      then show ?thesis by (simp add: node_ok_def)
    qed
    ultimately have "freeDiffers s c" unfolding freeDiffers_def by (intro disjI2 exI[of _ a]) blast
    then show ?thesis using run' c(3) by (intro exI[of _ c]) simp
  qed
  have stay: ?thesis if "pumallocOnThreadListDbg P K ma t s = pumallocOnThreadList ma t s"
    using that same by (intro exI[of _ "cells s"]) (simp add: freeDiffers_def)
  show ?thesis
  proof (cases "tl_tail l = 0")
    case True
    then show ?thesis
      by (intro grow) (use l in \<open>simp_all add: pumallocOnThreadListDbg_def pumallocOnThreadList_def mem_simps\<close>)
  next
    case False
    then obtain n where n: "tl_tail l = n" "(\<exists>vs. xs = vs @ [n]) \<or> xs = [] \<and> n \<in> set ys"
      using D(9) by (cases xs rule: rev_cases; cases ys) auto
    then have "n \<in> set xs \<union> set ys" by auto
    then obtain nd where nd: "nodeAt s n = Some nd" "node_ok (nodeBytes s) t (tl_elementSize l) n nd"
      by (rule list_ok_node[OF ok])
    show ?thesis
    proof (cases "n_numElements nd = n_capacity nd")
      case True
      then show ?thesis
        by (intro grow) (use l n nd(1) False in \<open>simp_all add: pumallocOnThreadListDbg_def pumallocOnThreadList_def mem_simps\<close>)
    next
      case room: False
      then have "n_numElements nd < n_capacity nd"
        using node_ok_count[OF nd(2)] card_used_le[of nd] by simp
      then have "allocOnTailDbg t n s = allocOnTail t n s" using allocOnTail_dbg[OF inv _ nd(1)] n(2) by blast
      then show ?thesis
        by (intro stay) (use l n(1) nd(1) room False in \<open>simp add: pumallocOnThreadListDbg_def pumallocOnThreadList_def mem_simps\<close>)
    qed
  qed
qed

text \<open>Freeing: a live element is freed as before; a slot of the list that is free is refused.\<close>

lemma pufree_slot_dbg:
  assumes inv: "tl_inv s t xs ys" and n: "n \<in> set xs \<union> set ys" "nodeAt s n = Some nd" and i: "i < n_capacity nd"
  shows "pufreeDbg (slotAddr nd i) s = (if i \<in> used nd then pufree (slotAddr nd i) s else Inl AssertFailed)"
proof -
  from inv obtain l where B: "cfg_ok (nodeBytes s)"
    and ok: "list_ok (nodeBytes s) t l (nodeAt s) xs ys" by (rule tl_invE)
  have nok: "node_ok (nodeBytes s) t (tl_elementSize l) n nd" using list_okD(3)[OF ok n(1)] n(2) by simp
  have home: "getNodeForElement s (slotAddr nd i) = n" by (rule node_of_slot[OF B node_ok_geom[OF nok] i])
  show ?thesis
    unfolding pufreeDbg_def pufree_def home
    by (rule free_dbg[OF n(2) node_ok_geom[OF nok] node_ok_mask[OF nok] B i])
qed

lemma live_slot:
  assumes "tl_inv s t xs ys" "e \<in> liveAddrs (nodeAt s) xs"
  obtains n nd i where "n \<in> set xs" "nodeAt s n = Some nd" "i \<in> used nd" "e = slotAddr nd i"
proof -
  from assms(2) obtain n where n: "n \<in> set xs" "e \<in> liveOf (the (nodeAt s n))" by (auto simp: liveAddrs_def)
  obtain nd where "nodeAt s n = Some nd" using tl_inv_allocated[OF assms(1), of n] n(1) by auto
  with n obtain i where "i \<in> used nd" "e = slotAddr nd i" "nodeAt s n = Some nd" by (auto simp: liveOf_def)
  with n(1) show thesis by (intro that)
qed

lemma pufree_dbg:
  assumes "tl_inv s t xs ys" "e \<in> liveAddrs (nodeAt s) xs"
  shows "pufreeDbg e s = pufree e s"
proof -
  obtain n nd i where "n \<in> set xs" "nodeAt s n = Some nd" "i \<in> used nd" "e = slotAddr nd i" by (rule live_slot[OF assms])
  then show ?thesis using pufree_slot_dbg[OF assms(1), of n nd i] used_less[of i nd] by simp
qed

lemma pufree_twice_dbg:
  assumes inv: "tl_inv s t xs ys" and e: "e \<in> liveAddrs (nodeAt s) xs" and f: "pufree e s = Inr s'"
  shows "pufreeDbg e s' = Inl AssertFailed"
proof -
  obtain n nd i where n: "n \<in> set xs" "nodeAt s n = Some nd" and i: "i \<in> used nd" "e = slotAddr nd i"
    by (rule live_slot[OF inv e])
  from inv obtain l where B: "cfg_ok (nodeBytes s)"
    and ok: "list_ok (nodeBytes s) t l (nodeAt s) xs ys" by (rule tl_invE)
  have nok: "node_ok (nodeBytes s) t (tl_elementSize l) n nd" using list_okD(3)[OF ok, of n] n by simp
  have home: "getNodeForElement s e = n"
    unfolding i(2) by (rule node_of_slot[OF B node_ok_geom[OF nok] used_less[OF i(1)]])
  obtain s2 ys' nd' fm where s2: "freeElementOnNode (slotAddr nd i) n s = Inr s2" "tl_inv s2 t xs ys'" "nodeAt s2 n = Some nd'"
    "used nd' = used nd - {i}"
    "nd' = nd\<lparr>n_dirty := True, n_freeMask := fm, n_numElements := n_numElements nd - 1\<rparr>
     \<or> nd' = nd\<lparr>n_dirty := True, n_freeMask := fm, n_numElements := n_numElements nd - 1, n_next := 0\<rparr>"
    by (rule free_step[OF inv n i(1)]) blast
  have "s2 = s'" using f s2(1) home unfolding pufree_def i(2) by simp
  moreover have "slotAddr nd' = slotAddr nd" "n_capacity nd' = n_capacity nd" using s2(5) by (elim disjE; simp)+
  ultimately show ?thesis
    using pufree_slot_dbg[OF s2(2), of n nd' i] n(1) s2(3,4) used_less[OF i(1)] i(2) by simp
qed

section \<open>Kernels\<close>

lemma kernelNodes_dbg:
  "tl_inv s t (us @ vs) ys
   \<Longrightarrow> elementsDone = (\<Sum>m\<leftarrow>us. n_numElements (the (nodeAt s m)))
   \<Longrightarrow> initNum = (\<Sum>m\<leftarrow>us @ vs. n_numElements (the (nodeAt s m)))
   \<Longrightarrow> kernelNodesDbg fuel k t (firstOr vs (firstOr ys 0)) elementsDone initNum x s
     = kernelNodes fuel k t (firstOr vs (firstOr ys 0)) elementsDone initNum x s"
proof (induction fuel arbitrary: s us vs ys elementsDone x)
  case 0
  then show ?case by (simp add: kernelNodesDbg.simps(1) kernelNodes.simps(1))
next
  case (Suc fuel)
  note inv = Suc.prems(1)
  from inv obtain l where ok: "list_ok (nodeBytes s) t l (nodeAt s) (us @ vs) ys" by (rule tl_invE)
  show ?case
  proof (cases "vs = [] \<or> initNum \<le> elementsDone")
    case True
    show ?thesis
    proof (cases "firstOr vs (firstOr ys 0) = 0")
      case f: False
      then have "firstOr vs (firstOr ys 0) \<in> set (us @ vs) \<union> set ys" by (cases vs; cases ys) auto
      then obtain nd where nd: "nodeAt s (firstOr vs (firstOr ys 0)) = Some nd"
        "n_active nd \<longleftrightarrow> firstOr vs (firstOr ys 0) \<in> set (us @ vs)" by (rule list_ok_node[OF ok])
      have "\<not> n_active nd" if "vs = []"
      proof -
        have "firstOr ys 0 \<in> set ys" using f that by (cases ys) auto
        then show ?thesis using nd(2) list_okD(1)[OF ok] that by auto
      qed
      then show ?thesis using nd(1) f True by (auto simp: kernelNodesDbg.simps(2) kernelNodes.simps(2) deref_simps)
    qed (simp add: kernelNodesDbg.simps(2) kernelNodes.simps(2))
  next
    case False
    then obtain n vz where vs: "vs = n # vz" and lt: "elementsDone < initNum" by (cases vs) auto
    obtain nd s1 vs1 ws ys1 nd1 x1 c' where K: "nodeAt s n = Some nd" "n_active nd" "n \<noteq> 0"
      "(if n_dirty nd then cleanupNode n t s else Inr s) = Inr s1" "nodeAt s1 n = Some nd1"
      "runKernelOnNode k n elementsDone initNum x s1 = Inr (sz_add elementsDone (n_numElements nd1), x1, s1\<lparr>cells := c'\<rparr>)"
      "n_next nd1 = firstOr vs1 (firstOr ys1 0)"
      "tl_inv (s1\<lparr>cells := c'\<rparr>) t ((us @ [n]) @ vs1) ys1"
      "sz_add elementsDone (n_numElements nd1) = (\<Sum>m\<leftarrow>us @ [n]. n_numElements (the (nodeAt (s1\<lparr>cells := c'\<rparr>) m)))"
      "initNum = (\<Sum>m\<leftarrow>(us @ [n]) @ vs1. n_numElements (the (nodeAt (s1\<lparr>cells := c'\<rparr>) m)))"
      by (rule kernel_node[OF inv[unfolded vs] Suc.prems(2,3)[unfolded vs] lt, of k x]) (rule that)
    have "cleanupNodeDbg n t s = cleanupNode n t s" if "n_dirty nd"
      by (rule cleanupNode_dbg[OF inv _ K(1) that]) (simp add: vs)
    then have c: "(if n_dirty nd then cleanupNodeDbg n t s else Inr s) = Inr s1" using K(4) by (simp split: if_splits)
    show ?thesis
      using K(1-7) c lt vs Suc.IH[OF K(8-10), of x1] by (simp add: kernelNodesDbg.simps(2) kernelNodes.simps(2) deref_simps)
  qed
qed

lemma runKernelThread_dbg:
  assumes inv: "tl_inv s t xs ys" and l: "tlists s t = Some l" "tl_numaDomain l = getCurrentNumaDomain P tid"
  shows "runKernelThreadDbg P k tid t x s = runKernelThread k t x s"
proof -
  from inv l have ok: "list_ok (nodeBytes s) t l (nodeAt s) xs ys" by (auto simp: tl_inv_def)
  have "tl_numElements l = (\<Sum>m\<leftarrow>[] @ xs. n_numElements (the (nodeAt s m)))" using list_okD(11)[OF ok] by simp
  from kernelNodes_dbg[of s t "[]" xs ys 0, OF _ _ this] show ?thesis
    using inv l list_okD(8)[OF ok] by (simp add: runKernelThreadDbg_def runKernelThread_def deref_simps)
qed

section \<open>Balancing\<close>

lemma countNodesLoop_dbg:
  assumes "links N p (xs @ ys) 0" "N = nodeAt s" "0 \<notin> set (xs @ ys)" "c + length xs < 2 ^ 64"
    and "map (\<lambda>m. n_index (the (N m))) xs = [c..<c + length xs]" "\<And>m. m \<in> set ys \<Longrightarrow> \<not> n_active (the (N m))"
  shows "countNodesLoopDbg fuel (firstOr (xs @ ys) 0) c s = countNodesLoop fuel (firstOr (xs @ ys) 0) c s"
  using assms
proof (induction xs arbitrary: p fuel c)
  case Nil
  then show ?case
  proof (cases ys)
    case (Cons y ys')
    then obtain nd where "nodeAt s y = Some nd" using Nil.prems(1,2) by auto
    then show ?thesis using Nil.prems(2) Nil.prems(6)[of y] Cons by (cases fuel) (simp_all add: deref_simps)
  qed (cases fuel; simp)
next
  case (Cons x xs)
  from Cons.prems obtain nd where nd: "nodeAt s x = Some nd" "n_next nd = firstOr (xs @ ys) 0" and l: "links N x (xs @ ys) 0" by auto
  have up: "[c..<c + length (x # xs)] = c # [Suc c..<Suc c + length xs]" by (subst upt_rec) simp
  have idx: "n_index nd = c" "map (\<lambda>m. n_index (the (N m))) xs = [Suc c..<Suc c + length xs]"
    using Cons.prems(5) nd(1) Cons.prems(2) unfolding up by simp_all
  have "countNodesLoopDbg f (firstOr (xs @ ys) 0) (Suc c) s = countNodesLoop f (firstOr (xs @ ys) 0) (Suc c) s" for f
    by (rule Cons.IH[OF l Cons.prems(2) _ _ idx(2) Cons.prems(6)]) (use Cons.prems in auto)
  then show ?case using nd idx(1) Cons.prems(4) by (cases fuel) (simp_all add: deref_simps sz_add_exact)
qed

lemma assertCount_ok:
  assumes inv: "tl_inv s t xs ys"
  shows "assertCount t s = Inr ()"
proof -
  from inv obtain l where B: "cfg_ok (nodeBytes s)" and l: "tlists s t = Some l"
    and ok: "list_ok (nodeBytes s) t l (nodeAt s) xs ys" by (rule tl_invE)
  note D = list_okD[OF ok]
  have "countNodesLoopDbg f (firstOr (xs @ ys) 0) 0 s = countNodesLoop f (firstOr (xs @ ys) 0) 0 s" for f
  proof (rule countNodesLoop_dbg[OF D(2) refl])
    show "0 \<notin> set (xs @ ys)" using list_ok_nz[OF ok, of 0] by auto
  qed (use D(5,6) list_ok_bounds(1)[OF ok B] in auto)
  then have "countNodesDbg t s = countNodes t s"
    using l D(8) by (simp add: countNodesDbg_def countNodes_def deref_simps del: countNodesLoopDbg.simps countNodesLoop.simps)
  then show ?thesis using countNodes_ok(1)[OF inv] D(10) l by (simp add: assertCount_def deref_simps)
qed

lemma transferNNodes_dbg:
  assumes f: "tl_inv s src (xs1 @ xs2) ysf" and t: "tl_inv s dst zs yst" and ne: "src \<noteq> dst" "xs2 \<noteq> []"
    and es: "map_option tl_elementSize (tlists s src) = map_option tl_elementSize (tlists s dst)"
  shows "transferNNodesDbg (length xs2) src dst s = transferNNodes (length xs2) src dst s"
proof -
  from f obtain l where l: "tlists s src = Some l" "tl_numNodes l = length (xs1 @ xs2)"
    using list_okD(10) by (elim tl_invE) blast
  obtain s' where "transferNNodes (length xs2) src dst s = Inr s'" "tl_inv s' src xs1 ysf" "tl_inv s' dst (zs @ xs2) yst"
    by (rule transferNNodes_ok[OF f t ne es])
  then show ?thesis
    using l ne(2) by (simp add: transferNNodesDbg_def deref_simps assertCount_ok[OF f] assertCount_ok[OF t] assertCount_ok)
qed

section \<open>A whole set\<close>

lemma pumalloc_dbg:
  assumes inv: "set_inv P ps L s" and tid: "tid < numThreads ps" and ma: "memalign_spec ma"
    and es: "elementFits s (ps_elementSize ps)" "maskAssertOk (nodeBytes s) (ps_elementSize ps)"
    and len: "length (fst (L tid)) < 2 ^ 31" and pg: "pagesOk P K (getCurrentNumaDomain P tid) (ps_elementSize ps) s"
  shows "\<exists>c. (\<forall>j<numThreads ps. \<forall>x\<in>liveAddrs (nodeAt s) (fst (L j)). c x = cells s x) \<and> (NNUMA P \<longrightarrow> c = cells s)
    \<and> sameButMemory (pumalloc P ma ps tid (withCells c s)) (pumallocDbg P K ma ps tid s)"
proof -
  obtain l where l: "tlists s (tidToThreadList ps ! tid) = Some l" "tl_elementSize l = ps_elementSize ps"
    using set_numNodes[OF inv tid] by metis
  have "tl_numaDomain l = getCurrentNumaDomain P tid" using set_invD(9)[OF inv tid] l(1) by (simp add: desc_def)
  then obtain c where c: "freeDiffers s c" "NNUMA P \<longrightarrow> c = cells s"
    "sameButMemory (pumallocOnThreadList ma (tidToThreadList ps ! tid) (withCells c s)) (pumallocOnThreadListDbg P K ma (tidToThreadList ps ! tid) s)"
    using pumallocOnThreadList_dbg[OF ma set_invD(8)[OF inv tid] l(1)] es len pg l(2) by auto
  have "c x = cells s x" if "j < numThreads ps" "x \<in> liveAddrs (nodeAt s) (fst (L j))" for j x
    by (rule freeDiffers_live[OF c(1) set_invD(8)[OF inv that(1)] that(2)])
  then show ?thesis
    using c(2,3) by (intro exI[of _ c]) (simp add: pumalloc_def pumallocDbg_def set_invD(7)[OF inv tid])
qed

lemma runKernelOnWorker_dbg:
  assumes inv: "set_inv P ps L s" and tid: "tid < numThreads ps"
  shows "runKernelOnWorkerDbg P ps k tid x s = runKernelOnWorker P ps k tid x s"
proof -
  obtain l where l: "tlists s (tidToThreadList ps ! tid) = Some l" using set_numNodes[OF inv tid] by metis
  then have d: "tl_numaDomain l = getCurrentNumaDomain P tid" using set_invD(9)[OF inv tid] by (simp add: desc_def)
  show ?thesis
    using runKernelThread_dbg[OF set_invD(8)[OF inv tid] l d]
    by (simp add: runKernelOnWorkerDbg_def runKernelOnWorker_def set_invD(7)[OF inv tid])
qed

section \<open>Touching the pages of a node\<close>

text \<open>The slots whose bits a write to byte \<open>k\<close> clears: those of the byte but its last.\<close>

definition clears :: "nat \<Rightarrow> nat \<Rightarrow> bool" where
  "clears k i \<longleftrightarrow> i div 64 = k div 8 \<and> (63 - i mod 64) div 8 = k mod 8 \<and> (63 - i mod 64) mod 8 \<noteq> 0"

lemma byte_bit:
  fixes w :: "64 word"
  assumes "j < 64" "b < 8"
  shows "bit ((w AND NOT (push_bit (8 * b) (mask 8))) OR push_bit (8 * b) 1) j
    \<longleftrightarrow> (if j div 8 = b then j mod 8 = 0 else bit w j)"
proof -
  have "j div 8 = b \<longleftrightarrow> 8 * b \<le> j \<and> j < 8 * b + 8" by linarith
  moreover have "j mod 8 = 0 \<longleftrightarrow> j = 8 * b" if "8 * b \<le> j" "j < 8 * b + 8"
  proof -
    have "j mod 8 = j - 8 * b" using that by (metis add_diff_inverse_nat linorder_not_less mod_less mod_mult_self4 nat_add_left_cancel_less)
    then show ?thesis using that by linarith
  qed
  moreover have "bit ((w AND NOT (push_bit (8 * b) (mask 8))) OR push_bit (8 * b) 1) j
    \<longleftrightarrow> bit w j \<and> \<not> (8 * b \<le> j \<and> j < 8 * b + 8) \<or> j = 8 * b"
    using assms by (auto simp: bit_simps)
  ultimately show ?thesis by auto
qed

lemma touchByte_bit:
  assumes "i div 64 < length (buckets bm)"
  shows "maskBit (touchByte k bm) i \<longleftrightarrow>
    (if i div 64 = k div 8 \<and> (63 - i mod 64) div 8 = k mod 8 then (63 - i mod 64) mod 8 = 0 else maskBit bm i)"
proof (cases "i div 64 = k div 8")
  case False
  then show ?thesis by (simp add: touchByte_def maskBit_def)
next
  case True
  have "63 - i mod 64 < 64" "k mod 8 < 8" by simp_all
  from byte_bit[OF this, of "buckets bm ! (k div 8)"] show ?thesis
    using assms True by (simp add: touchByte_def maskBit_def)
qed

lemma touchByte_length [simp]: "length (buckets (touchByte k bm)) = length (buckets bm)"
  by (simp add: touchByte_def)

lemma touch_used:
  assumes ok: "node_mask_ok nd" and free: "used nd = {}"
  shows "used (touchPages pageSize nd)
    = {i. i < n_capacity nd \<and> (\<exists>p. 1 \<le> p \<and> p < n_numPages nd \<and> clears (p * pageSize - sizeof_pumaNode) i)}"
proof -
  let ?f = "\<lambda>p nd. nd\<lparr>n_freeMask := touchByte (p * pageSize - sizeof_pumaNode) (n_freeMask nd)\<rparr>"
  let ?hit = "\<lambda>ps i. \<exists>p\<in>set ps. clears (p * pageSize - sizeof_pumaNode) i"
  have len: "i div 64 < length (buckets (n_freeMask nd))" if "i < n_capacity nd" for i
    using ok that by (auto simp: node_mask_ok_def bm_wf_def)
  have inv: "n_capacity (fold ?f ps nd) = n_capacity nd \<and> length (buckets (n_freeMask (fold ?f ps nd))) = length (buckets (n_freeMask nd))
      \<and> (\<forall>i<n_capacity nd. maskBit (n_freeMask (fold ?f ps nd)) i \<longleftrightarrow> \<not> ?hit ps i)" for ps
  proof (induction ps rule: rev_induct)
    case Nil
    have "maskBit (n_freeMask nd) i" if "i < n_capacity nd" for i
      using free that by (auto simp: used_def usedSlots_def)
    then show ?case by simp
  next
    case (snoc p ps)
    let ?nd = "fold ?f ps nd"
    have "maskBit (n_freeMask (?f p ?nd)) i \<longleftrightarrow> \<not> ?hit (ps @ [p]) i" if i: "i < n_capacity nd" for i
    proof -
      have "i div 64 < length (buckets (n_freeMask ?nd))" using len[OF i] snoc by simp
      note b = touchByte_bit[OF this, of "p * pageSize - sizeof_pumaNode"]
      let ?k = "p * pageSize - sizeof_pumaNode" and ?z = "(63 - i mod 64) mod 8 = 0"
      let ?M = "i div 64 = ?k div 8 \<and> (63 - i mod 64) div 8 = ?k mod 8"
      have old: "maskBit (n_freeMask ?nd) i \<longleftrightarrow> \<not> ?hit ps i" using snoc i by blast
      have z: "\<not> ?hit ps i" if ?z using that unfolding clears_def by blast
      have cl: "clears ?k i \<longleftrightarrow> ?M \<and> \<not> ?z" unfolding clears_def by blast
      have hit: "?hit (ps @ [p]) i \<longleftrightarrow> ?hit ps i \<or> clears ?k i" by (simp add: disj_commute)
      have new: "maskBit (n_freeMask (?f p ?nd)) i \<longleftrightarrow> (if ?M then ?z else \<not> ?hit ps i)"
      proof -
        have "n_freeMask (?f p ?nd) = touchByte ?k (n_freeMask ?nd)" by simp
        then show ?thesis using b unfolding old by (simp only:)
      qed
      show ?thesis unfolding hit cl new using z by argo
    qed
    then show ?case using snoc by simp
  qed
  have "used (touchPages pageSize nd) = {i. i < n_capacity nd \<and> ?hit [1..<n_numPages nd] i}"
    using inv[of "[1..<n_numPages nd]"] by (auto simp: touchPages_def used_def usedSlots_def)
  then show ?thesis by (simp only: set_upt atLeastLessThan_iff Bex_def conj_assoc)
qed

lemma touch_beyond:
  assumes "node_mask_ok nd" "used nd = {}"
  shows "used (touchPages pageSize nd) \<subseteq> {i. pageSize \<le> sizeof_pumaNode + (8 * (i div 64) + 7)}"
proof
  fix i assume "i \<in> used (touchPages pageSize nd)"
  then obtain p where p: "1 \<le> p" "clears (p * pageSize - sizeof_pumaNode) i" unfolding touch_used[OF assms] by blast
  have "pageSize \<le> p * pageSize" using p(1) by (cases p) simp_all
  moreover have "i div 64 = (p * pageSize - sizeof_pumaNode) div 8" using p(2) by (simp add: clears_def)
  ultimately have "pageSize \<le> sizeof_pumaNode + (8 * (i div 64) + 7)" by linarith
  then show "i \<in> {i. pageSize \<le> sizeof_pumaNode + (8 * (i div 64) + 7)}" by blast
qed

text \<open>No page after the first begins in the mask: the header and the mask fit in the first page.\<close>

lemma touch_harmless:
  assumes ok: "node_mask_ok nd" and free: "used nd = {}"
    and fits: "sizeof_pumaNode + (n_capacity nd + 63) div 64 * 8 \<le> pageSize"
  shows "used (touchPages pageSize nd) = {}"
proof -
  have "False" if "i \<in> used (touchPages pageSize nd)" for i
  proof -
    have "i < n_capacity nd" using that unfolding touch_used[OF ok free] by blast
    then have "i div 64 + 1 \<le> (n_capacity nd + 63) div 64" by linarith
    moreover have "pageSize \<le> sizeof_pumaNode + (8 * (i div 64) + 7)" using touch_beyond[OF ok free] that by blast
    ultimately show False using fits by linarith
  qed
  then show ?thesis by blast
qed

end
