(* ===== verification/PagePlacement.thy ===== *)
theory PagePlacement
  imports Balance
begin

text \<open>
  The pages of nodes that move to a list of another NUMA domain: \<open>_moveNodeDomains\<close> and the call
  of it in \<open>_transferNNodes\<close> (\<open>src/internal/pumabalance.c\<close>). \<open>numa_move_pages\<close> is not part of the
  program and its status is not read, so a transfer gives the requests that it makes. The memory
  is the one of \<open>transferNNodes\<close>, whatever becomes of the requests.
\<close>

section \<open>Operations\<close>

text \<open>One call of \<open>numa_move_pages\<close>: the pages, and for each the node it is to go to.\<close>

record moveRequest =
  mr_pages :: "addr list"
  mr_nodes :: "int list"

definition nodePages :: "nat \<Rightarrow> addr \<Rightarrow> nat \<Rightarrow> addr list" where
  "nodePages pageSize start numPages = start # map (\<lambda>p. sz_add start (sz_mul p pageSize)) [1..<numPages]"

text \<open>
  The loop from \<open>start\<close> to \<open>endN\<close>; \<open>pageSize\<close> is \<open>sysconf(_SC_PAGESIZE)\<close>. The arrays have
  \<open>numPages\<close> entries, and \<open>pages[0]\<close> is written in any case.
\<close>

fun moveNodeDomains :: "nat \<Rightarrow> nat \<Rightarrow> addr \<Rightarrow> addr \<Rightarrow> int \<Rightarrow> 'e mem \<Rightarrow> c_fault + moveRequest list" where
  "moveNodeDomains 0 pageSize start endN domain s = Inl OutOfFuel"
| "moveNodeDomains (Suc fuel) pageSize start endN domain s =
     bindE (derefNode s start) (\<lambda>nd.
     let numPages = n_numPages nd in
     if numPages = 0 then Inl (OutOfBounds 0)
     else let request = \<lparr>mr_pages = nodePages pageSize start numPages, mr_nodes = replicate numPages domain\<rparr>
          in if start = endN then Inr [request]
             else bindE (moveNodeDomains fuel pageSize (n_next nd) endN domain s) (\<lambda>requests.
                  Inr (request # requests)))"

declare moveNodeDomains.simps [simp del]

definition movePages :: "bool \<Rightarrow> nat \<Rightarrow> nat \<Rightarrow> addr \<Rightarrow> addr \<Rightarrow> addr \<Rightarrow> addr \<Rightarrow> 'e mem \<Rightarrow> c_fault + moveRequest list" where
  "movePages nnuma pageSize n src dst start endN s =
     bindE (derefList s src) (\<lambda>lf.
     bindE (derefList s dst) (\<lambda>lt.
     if tl_numaDomain lt \<noteq> tl_numaDomain lf \<and> \<not> nnuma
     then moveNodeDomains n pageSize start endN (tl_numaDomain lt) s
     else Inr []))"

definition transferNNodesNuma ::
  "bool \<Rightarrow> nat \<Rightarrow> nat \<Rightarrow> addr \<Rightarrow> addr \<Rightarrow> 'e mem \<Rightarrow> c_fault + 'e mem \<times> moveRequest list" where
  "transferNNodesNuma nnuma pageSize n src dst s =
     bindE (derefList s src) (\<lambda>lf.
     let endN = tl_tail lf
     in bindE (derefNode s endN) (\<lambda>en.
        bindE (walkBack (n - 1) endN s) (\<lambda>start.
        bindE (derefNode s start) (\<lambda>sn.
        bindE (updList src (\<lambda>l. l\<lparr>tl_tail := n_prev sn\<rparr>) s) (\<lambda>s1.
        bindE (spliceIn dst start endN s1) (\<lambda>s2.
        bindE (updList dst (\<lambda>l. l\<lparr>tl_tail := endN\<rparr>) s2) (\<lambda>s3.
        bindE (closeGap src (n_next en) s3) (\<lambda>s4.
        bindE (movePages nnuma pageSize n src dst start endN s4) (\<lambda>requests.
        bindE (indexNodes n start endN s4) (\<lambda>s5.
        bindE (moveNodeThreadLists n start endN dst s5) (\<lambda>s6.
        bindE (updatenumElements n start endN src dst s6) (\<lambda>s7.
        bindE (updList src (\<lambda>l. l\<lparr>tl_numNodes := sz_sub (tl_numNodes l) n\<rparr>) s7) (\<lambda>s8.
        bindE (updList dst (\<lambda>l. l\<lparr>tl_numNodes := sz_add (tl_numNodes l) n\<rparr>) s8) (\<lambda>s9.
        Inr (s9, requests)))))))))))))))"

section \<open>The walk is the one over the list that has been transferred\<close>

text \<open>What the walk reads; the steps after it leave that as it is.\<close>

definition sameWalk :: "'e mem \<Rightarrow> 'e mem \<Rightarrow> bool" where
  "sameWalk s s' \<longleftrightarrow>
     (\<forall>a. map_option (\<lambda>nd. (n_next nd, n_numPages nd)) (nodeAt s' a) = map_option (\<lambda>nd. (n_next nd, n_numPages nd)) (nodeAt s a))
   \<and> (\<forall>t. map_option tl_numaDomain (tlists s' t) = map_option tl_numaDomain (tlists s t))"

lemma sameWalk_refl: "sameWalk s s"
  by (simp add: sameWalk_def)

lemma sameWalk_trans: "sameWalk s s' \<Longrightarrow> sameWalk s' s'' \<Longrightarrow> sameWalk s s''"
  by (simp add: sameWalk_def)

lemma updNode_walk:
  assumes "updNode a f s = Inr s'" "\<And>nd. n_next (f nd) = n_next nd" "\<And>nd. n_numPages (f nd) = n_numPages nd"
  shows "sameWalk s s'"
  using assms by (auto simp: updNode_def derefNode_def sameWalk_def mem_simps split: option.splits)

lemma updList_walk:
  assumes "updList t g s = Inr s'" "\<And>l. tl_numaDomain (g l) = tl_numaDomain l"
  shows "sameWalk s s'"
  using assms by (auto simp: updList_def derefList_def sameWalk_def mem_simps split: option.splits)

lemma indexNodesLoop_walk: "indexNodesLoop fuel start endN i s = Inr s' \<Longrightarrow> sameWalk s s'"
proof (induction fuel arbitrary: start i s)
  case (Suc fuel)
  from Suc.prems obtain s1 nd where s1: "updNode start (\<lambda>nd. nd\<lparr>n_index := i\<rparr>) s = Inr s1" "derefNode s1 start = Inr nd"
    "(if start = endN then Inr s1 else indexNodesLoop fuel (n_next nd) endN (sz_add i 1) s1) = Inr s'"
    by (auto simp: bindE_eq_Inr)
  have "sameWalk s s1" by (rule updNode_walk[OF s1(1)]) simp_all
  moreover have "sameWalk s1 s'" using s1(3) Suc.IH by (cases "start = endN") (auto simp: sameWalk_refl)
  ultimately show ?case by (rule sameWalk_trans)
qed simp

lemma indexNodes_walk: "indexNodes fuel start endN s = Inr s' \<Longrightarrow> sameWalk s s'"
  by (auto simp: indexNodes_def bindE_eq_Inr intro: indexNodesLoop_walk)

lemma moveNodeThreadLists_walk: "moveNodeThreadLists fuel start endN t s = Inr s' \<Longrightarrow> sameWalk s s'"
proof (induction fuel arbitrary: start s)
  case (Suc fuel)
  from Suc.prems obtain s1 nd where s1: "updNode start (\<lambda>nd. nd\<lparr>n_threadList := t\<rparr>) s = Inr s1" "derefNode s1 start = Inr nd"
    "(if start = endN then Inr s1 else moveNodeThreadLists fuel (n_next nd) endN t s1) = Inr s'"
    by (auto simp: bindE_eq_Inr)
  have "sameWalk s s1" by (rule updNode_walk[OF s1(1)]) simp_all
  moreover have "sameWalk s1 s'" using s1(3) Suc.IH by (cases "start = endN") (auto simp: sameWalk_refl)
  ultimately show ?case by (rule sameWalk_trans)
qed simp

lemma updatenumElements_walk: "updatenumElements fuel start endN src dst s = Inr s' \<Longrightarrow> sameWalk s s'"
proof (induction fuel arbitrary: start s)
  case (Suc fuel)
  from Suc.prems obtain nd s1 s2 where s1: "derefNode s start = Inr nd"
    "updList src (\<lambda>l. l\<lparr>tl_numElements := sz_sub (tl_numElements l) (n_numElements nd)\<rparr>) s = Inr s1"
    "updList dst (\<lambda>l. l\<lparr>tl_numElements := sz_add (tl_numElements l) (n_numElements nd)\<rparr>) s1 = Inr s2"
    "(if start = endN then Inr s2 else updatenumElements fuel (n_next nd) endN src dst s2) = Inr s'"
    by (auto simp: bindE_eq_Inr)
  have "sameWalk s s1" "sameWalk s1 s2" by (rule updList_walk[OF s1(2)], simp, rule updList_walk[OF s1(3)], simp)
  moreover have "sameWalk s2 s'" using s1(4) Suc.IH by (cases "start = endN") (auto simp: sameWalk_refl)
  ultimately show ?case by (meson sameWalk_trans)
qed simp

lemma sameWalk_node:
  assumes "sameWalk s s'"
  shows "nodeAt s a = None \<longleftrightarrow> nodeAt s' a = None"
    and "nodeAt s a = Some nd \<Longrightarrow> \<exists>nd'. nodeAt s' a = Some nd' \<and> n_next nd' = n_next nd \<and> n_numPages nd' = n_numPages nd"
proof -
  have "map_option (\<lambda>nd. (n_next nd, n_numPages nd)) (nodeAt s' a) = map_option (\<lambda>nd. (n_next nd, n_numPages nd)) (nodeAt s a)"
    using assms by (simp add: sameWalk_def)
  then show "nodeAt s a = None \<longleftrightarrow> nodeAt s' a = None"
    "nodeAt s a = Some nd \<Longrightarrow> \<exists>nd'. nodeAt s' a = Some nd' \<and> n_next nd' = n_next nd \<and> n_numPages nd' = n_numPages nd"
    by (cases "nodeAt s a"; cases "nodeAt s' a"; simp)+
qed

lemma moveNodeDomains_walk:
  assumes "sameWalk s s'"
  shows "moveNodeDomains fuel pageSize start endN d s = moveNodeDomains fuel pageSize start endN d s'"
proof (induction fuel arbitrary: start)
  case (Suc fuel)
  show ?case
  proof (cases "nodeAt s start")
    case None
    then show ?thesis using sameWalk_node(1)[OF assms, of start] by (simp add: moveNodeDomains.simps(2) deref_simps)
  next
    case (Some nd)
    obtain nd' where "nodeAt s' start = Some nd'" "n_next nd' = n_next nd" "n_numPages nd' = n_numPages nd"
      using sameWalk_node(2)[OF assms Some] by blast
    then show ?thesis using Some Suc.IH by (simp add: moveNodeDomains.simps(2) deref_simps Let_def)
  qed
qed (simp add: moveNodeDomains.simps(1))

lemma movePages_walk:
  assumes "sameWalk s s'"
  shows "movePages nnuma pageSize n src dst start endN s = movePages nnuma pageSize n src dst start endN s'"
proof -
  have l: "map_option tl_numaDomain (tlists s' t) = map_option tl_numaDomain (tlists s t)" for t
    using assms by (simp add: sameWalk_def)
  show ?thesis
    using l[of src] l[of dst]
    by (cases "tlists s src"; cases "tlists s' src"; cases "tlists s dst"; cases "tlists s' dst")
      (auto simp: movePages_def deref_simps moveNodeDomains_walk[OF assms])
qed

text \<open>The memory after a transfer with page moves, and the requests as if made at its end.\<close>

lemma transferNNodesNuma_eq:
  assumes run: "transferNNodes n src dst s = Inr s'" and at: "tlists s src = Some lf"
    and walk: "walkBack (n - 1) (tl_tail lf) s = Inr start"
  shows "transferNNodesNuma nnuma pageSize n src dst s
    = bindE (movePages nnuma pageSize n src dst start (tl_tail lf) s') (\<lambda>requests. Inr (s', requests))"
proof -
  from run at walk obtain en sn s1 s2 s3 s4 s5 s6 s7 s8 where r: "derefNode s (tl_tail lf) = Inr en" "derefNode s start = Inr sn"
    "updList src (\<lambda>l. l\<lparr>tl_tail := n_prev sn\<rparr>) s = Inr s1" "spliceIn dst start (tl_tail lf) s1 = Inr s2"
    "updList dst (\<lambda>l. l\<lparr>tl_tail := tl_tail lf\<rparr>) s2 = Inr s3" "closeGap src (n_next en) s3 = Inr s4"
    "indexNodes n start (tl_tail lf) s4 = Inr s5" "moveNodeThreadLists n start (tl_tail lf) dst s5 = Inr s6"
    "updatenumElements n start (tl_tail lf) src dst s6 = Inr s7"
    "updList src (\<lambda>l. l\<lparr>tl_numNodes := sz_sub (tl_numNodes l) n\<rparr>) s7 = Inr s8"
    "updList dst (\<lambda>l. l\<lparr>tl_numNodes := sz_add (tl_numNodes l) n\<rparr>) s8 = Inr s'"
    by (auto simp: transferNNodes_def bindE_eq_Inr deref_simps Let_def)
  have "sameWalk s4 s5" "sameWalk s5 s6" "sameWalk s6 s7"
    using indexNodes_walk[OF r(7)] moveNodeThreadLists_walk[OF r(8)] updatenumElements_walk[OF r(9)] .
  moreover have "sameWalk s7 s8" by (rule updList_walk[OF r(10)]) simp
  moreover have "sameWalk s8 s'" by (rule updList_walk[OF r(11)]) simp
  ultimately have "sameWalk s4 s'" by (meson sameWalk_trans)
  then have "movePages nnuma pageSize n src dst start (tl_tail lf) s4 = movePages nnuma pageSize n src dst start (tl_tail lf) s'"
    by (rule movePages_walk)
  then show ?thesis
    using at walk r by (cases "movePages nnuma pageSize n src dst start (tl_tail lf) s'")
      (simp_all add: transferNNodesNuma_def deref_simps Let_def)
qed

section \<open>The requests\<close>

definition requestFor :: "nat \<Rightarrow> nat \<Rightarrow> int \<Rightarrow> addr \<Rightarrow> moveRequest" where
  "requestFor pageSize numPages domain n =
     \<lparr>mr_pages = map (\<lambda>p. n + p * pageSize) [0..<numPages], mr_nodes = replicate numPages domain\<rparr>"

lemma nodePages_exact:
  assumes "0 < numPages" "n + numPages * pageSize \<le> 2 ^ 64" "0 < pageSize"
  shows "nodePages pageSize n numPages = map (\<lambda>p. n + p * pageSize) [0..<numPages]"
proof -
  have e: "sz_add n (sz_mul p pageSize) = n + p * pageSize" if p: "p < numPages" for p
  proof -
    have "p * pageSize < numPages * pageSize" using p assms(3) by simp
    then have "p * pageSize < 2 ^ 64" "n + p * pageSize < 2 ^ 64" using assms(2) by linarith+
    then show ?thesis by (simp only: sz_add_exact sz_mul_exact)
  qed
  have "map (\<lambda>p. sz_add n (sz_mul p pageSize)) [1..<numPages] = map (\<lambda>p. n + p * pageSize) [1..<numPages]"
    by (rule map_cong) (use e in auto)
  moreover have "[0..<numPages] = 0 # [1..<numPages]" using assms(1) by (simp add: upt_rec)
  ultimately show ?thesis by (simp add: nodePages_def)
qed

lemma moveNodeDomains_links:
  assumes "links (nodeAt s) p ns b" "ns \<noteq> []" "distinct ns" "0 < k" "0 < pageSize"
    and "\<And>m. m \<in> set ns \<Longrightarrow> n_numPages (the (nodeAt s m)) = k \<and> m + k * pageSize \<le> 2 ^ 64"
  shows "moveNodeDomains (length ns) pageSize (hd ns) (last ns) d s = Inr (map (requestFor pageSize k d) ns)"
  using assms
proof (induction ns arbitrary: p)
  case (Cons m ns)
  from Cons.prems(1) obtain nd where nd: "nodeAt s m = Some nd" "n_next nd = firstOr ns b" and l: "links (nodeAt s) m ns b" by auto
  have k: "n_numPages nd = k" "m + k * pageSize \<le> 2 ^ 64" using Cons.prems(6)[of m] nd(1) by simp_all
  have rq: "\<lparr>mr_pages = nodePages pageSize m k, mr_nodes = replicate k d\<rparr> = requestFor pageSize k d m"
    using nodePages_exact[OF Cons.prems(4) k(2) Cons.prems(5)] by (simp add: requestFor_def)
  show ?case
  proof (cases "ns = []")
    case True
    then show ?thesis using nd k(1) Cons.prems(4) rq by (simp add: moveNodeDomains.simps(2) deref_simps)
  next
    case False
    then have "m \<noteq> last ns" "firstOr ns b = hd ns" using Cons.prems(3) by (auto simp: firstOr_hd)
    moreover have "moveNodeDomains (length ns) pageSize (hd ns) (last ns) d s = Inr (map (requestFor pageSize k d) ns)"
      by (rule Cons.IH[OF l False]) (use Cons.prems in auto)
    ultimately show ?thesis using nd k(1) Cons.prems(4) rq False by (simp add: moveNodeDomains.simps(2) deref_simps Let_def)
  qed
qed simp

text \<open>
  A transfer on a NUMA machine: the memory is that of \<open>transferNNodes\<close>; between lists of different
  domains every moved node has all its pages, and no other page, sent to the domain of its new list.
\<close>

theorem transferNNodesNuma_ok:
  assumes f: "tl_inv s src (xs1 @ xs2) ysf" and t: "tl_inv s dst zs yst" and ne: "src \<noteq> dst" "xs2 \<noteq> []"
    and l: "tlists s src = Some lf" "tlists s dst = Some lt" "tl_elementSize lf = tl_elementSize lt"
    and pg: "0 < pageSize" "k * pageSize = nodeBytes s" "\<And>m. m \<in> set xs2 \<Longrightarrow> n_numPages (the (nodeAt s m)) = k"
  shows "\<exists>s'. transferNNodes (length xs2) src dst s = Inr s'
    \<and> transferNNodesNuma nnuma pageSize (length xs2) src dst s
        = Inr (s', if nnuma \<or> tl_numaDomain lt = tl_numaDomain lf then []
                   else map (requestFor pageSize k (tl_numaDomain lt)) xs2)"
proof -
  have es: "map_option tl_elementSize (tlists s src) = map_option tl_elementSize (tlists s dst)" using l by simp
  from f l(1) have B: "cfg_ok (nodeBytes s)" and ok: "list_ok (nodeBytes s) src lf (nodeAt s) (xs1 @ xs2) ysf"
    by (auto simp: tl_inv_def)
  note D = list_okD[OF ok]
  have tail: "tl_tail lf = last xs2" using D(9) ne(2) by simp
  obtain m ms where ms: "xs2 = m # ms" using ne(2) by (cases xs2) auto
  have "links (nodeAt s) (lastOr 0 xs1) (m # ms) (firstOr ysf 0)" using D(2) by (simp add: ms)
  then have walk: "walkBack (length xs2 - 1) (tl_tail lf) s = Inr (hd xs2)"
    using walkBack_links[of s "lastOr 0 xs1" m ms] by (simp add: ms tail)
  obtain s' lf' lt' where run: "transferNNodes (length xs2) src dst s = Inr s'"
    and tr: "transferred dst xs1 xs2 ysf zs yst (nodeAt s) (nodeAt s')"
    using transferNNodes_run[OF f t ne] by blast
  obtain s2 where s2: "transferNNodes (length xs2) src dst s = Inr s2" "tl_inv s2 dst (zs @ xs2) yst"
    "betweenLists src dst (set (xs1 @ xs2 @ ysf @ zs @ yst)) s s2"
    by (rule transferNNodes_ok[OF f t ne es])
  have e: "s2 = s'" using s2(1) run by simp
  from s2(2)[unfolded e] obtain l2 where ok2: "list_ok (nodeBytes s') dst l2 (nodeAt s') (zs @ xs2) yst" by (rule tl_invE)
  have lk: "links (nodeAt s') (lastOr 0 zs) xs2 (firstOr yst 0)" using list_okD(2)[OF ok2] by simp
  have dist: "distinct xs2" using D(1) by simp
  have k: "0 < k" using pg(1,2) cfg_ok_pos[OF B] by (cases k) simp_all
  have np: "n_numPages (the (nodeAt s' a)) = k \<and> a + k * pageSize \<le> 2 ^ 64" if a: "a \<in> set xs2" for a
  proof -
    obtain nd where nd: "nodeAt s a = Some nd" "node_ok (nodeBytes s) src (tl_elementSize lf) a nd"
      using list_ok_node[OF ok, of a] a by auto
    obtain i where "nodeAt s' a = Some (movedNode dst xs1 xs2 ysf zs yst a i nd)" by (rule transferredD[OF tr nd(1)])
    then have "n_numPages (the (nodeAt s' a)) = n_numPages nd" by (simp add: movedNode_def)
    moreover have "a + nodeBytes s \<le> 2 ^ 64" using node_ok_geom[OF nd(2)] by (simp add: node_geom_def)
    ultimately show ?thesis using pg(2) pg(3)[OF a] nd(1) by simp
  qed
  have dom: "map_option tl_numaDomain (tlists s' u) = map_option tl_numaDomain (tlists s u)" for u
  proof -
    have "map_option desc (tlists s' u) = map_option desc (tlists s u)" using s2(3) e by (simp add: betweenLists_def)
    then show ?thesis by (cases "tlists s' u"; cases "tlists s u") (auto simp: desc_def)
  qed
  obtain lf2 lt2 where l2: "tlists s' src = Some lf2" "tl_numaDomain lf2 = tl_numaDomain lf"
    "tlists s' dst = Some lt2" "tl_numaDomain lt2 = tl_numaDomain lt"
    using dom[of src] dom[of dst] l by auto
  have "movePages nnuma pageSize (length xs2) src dst (hd xs2) (last xs2) s'
      = Inr (if nnuma \<or> tl_numaDomain lt = tl_numaDomain lf then [] else map (requestFor pageSize k (tl_numaDomain lt)) xs2)"
    using l2 moveNodeDomains_links[OF lk ne(2) dist k pg(1) np] by (simp add: movePages_def deref_simps)
  then show ?thesis using run transferNNodesNuma_eq[OF run l(1) walk] tail by simp
qed

end
