(* ===== verification/SetDemo.thy ===== *)
theory SetDemo
  imports Demo SetSeq SetKernel StaticVar DebugBuild PagePlacement
begin

text \<open>
  A concrete set on which the properties of sets are instantiated: two workers on one domain whose
  array of lists is at \<open>listAddr\<close>; worker 0 holds the nodes of \<open>mem2\<close>, worker 1 none. Then variants
  of it for the other builds: a node whose mask is longer than a page, a second NUMA domain, and a
  pool with too few threads.
\<close>

definition listAddr1 :: addr where "listAddr1 = 208"

definition demoPlatform :: platform where
  "demoPlatform = \<lparr>NNUMA = True, numa_node_of_cpu = (\<lambda>_. 0), numa_node_to_cpus = (\<lambda>d c. d = 0), cpumaskSize = 2,
     numa_bitmask_weight = (\<lambda>n f. length (filter f [0..<n])), numa_num_configured_nodes = 1,
     NPROCESSORS_ONLN = 2, PAGESIZE = 4096, cpuNum = id\<rparr>"

definition demoSet :: "(nat, nat) pumaSet" where
  "demoSet = \<lparr>ps_elementSize = 4000, domains = [\<lparr>numListsInDomain = 2, listsInDomain = listAddr\<rparr>], numDomains = 1,
     numCores = 2, numThreads = 2, tidToThreadList = [listAddr, listAddr1], autoBalance = True,
     splitter = Some (\<lambda>b n x. b mod n), splitterExtraData = None\<rparr>"

definition memS :: "nat mem" where
  "memS = mem2\<lparr>tlists := (tlists mem2)(listAddr1 := Some (emptyList\<lparr>tl_tid := 1\<rparr>))\<rparr>"

definition layoutS :: layout where
  "layoutS tid = (if tid = 0 then [8192, 16384] else [], [])"

lemma memS_simps [simp]:
  "nodes memS = nodes mem2" "cells memS = cells mem2" "nodeBytes memS = 8192"
  "pumaPageSize memS = 4096" "PUMA_NODEPAGES memS = 2" "pumaPageSize mem2 = 4096"
  "tlists memS listAddr1 = Some (emptyList\<lparr>tl_tid := 1\<rparr>)" "tlists memS listAddr = tlists mem2 listAddr"
  by (simp_all add: memS_def mem2_def mem0_def nodeBytes_def sz_mul_def listAddr_def listAddr1_def)

lemma demoSet_simps [simp]:
  "numThreads demoSet = 2" "numDomains demoSet = 1" "tidToThreadList demoSet = [listAddr, listAddr1]"
  "ps_elementSize demoSet = 4000" "autoBalance demoSet"
  "splitter demoSet = Some (\<lambda>b n x. b mod n)" "splitterExtraData demoSet = None"
  "domains demoSet = [\<lparr>numListsInDomain = 2, listsInDomain = listAddr\<rparr>]"
  by (simp_all add: demoSet_def)

lemma layoutS_simps [simp]: "layoutS 0 = ([8192, 16384], [])" "layoutS (Suc i) = ([], [])" "layoutS 1 = ([], [])"
  by (simp_all add: layoutS_def)

lemma demo_threads: "{..<2 :: nat} = {0, 1}" "i < (2 :: nat) \<longleftrightarrow> i = 0 \<or> i = 1"
  by auto

lemma demoSet_slots: "allSlots demoSet = [listAddr, listAddr1]"
  by (simp add: allSlots_def slotsOf_def listSlot_def sz_add_def sz_mul_def sizeof_pumaThreadList_def listAddr_def
      listAddr1_def upt_rec)

lemma memS_inv0: "tl_inv memS listAddr [8192, 16384] []"
  using mem2_inv unfolding tl_inv_def by (simp add: memS_def mem2_def mem0_def nodeBytes_def listAddr_def listAddr1_def)

lemma memS_inv1: "tl_inv memS listAddr1 [] []"
  using demo_cfg unfolding tl_inv_def by (simp add: list_ok_def emptyList_def)

lemma memS_desc:
  "map_option desc (tlists memS listAddr) = Some (4000, True, 0, 0)"
  "map_option desc (tlists memS listAddr1) = Some (4000, True, 0, 1)"
  by (simp_all add: mem2_def desc_def emptyList_def)

lemma demo_lists:
  "getListForCurrentThread (demoPlatform\<lparr>NNUMA := b\<rparr>) demoSet 0 = Inr listAddr"
  "getListForCurrentThread (demoPlatform\<lparr>NNUMA := b\<rparr>) demoSet 1 = Inr listAddr1"
  by (simp_all add: getListForCurrentThread_def getCurrentNumaDomain_def getCurrentCPUIndexInDomain_def demoPlatform_def
      listSlot_def sz_add_def sz_mul_def sizeof_pumaThreadList_def listAddr_def listAddr1_def)

text \<open>With NUMA or without.\<close>

lemma memS_set_inv_any: "set_inv (demoPlatform\<lparr>NNUMA := b\<rparr>) demoSet layoutS memS"
proof -
  have d: "listAddr \<noteq> listAddr1" by (simp add: listAddr_def listAddr1_def)
  have a: "tl_active (emptyList\<lparr>tl_tid := 1\<rparr>)" "\<exists>l. tlists mem2 listAddr = Some l \<and> tl_active l"
    by (simp_all add: emptyList_def mem2_def)
  have dm: "getCurrentNumaDomain (demoPlatform\<lparr>NNUMA := b\<rparr>) i = 0" for i
    by (simp add: getCurrentNumaDomain_def demoPlatform_def)
  show ?thesis unfolding set_inv_def demoSet_slots
    using d a memS_inv0 memS_inv1 memS_desc demo_lists by (auto simp: demo_threads dm)
qed

lemma memS_set_inv: "set_inv demoPlatform demoSet layoutS memS"
proof -
  have "demoPlatform\<lparr>NNUMA := True\<rparr> = demoPlatform" by (simp add: demoPlatform_def)
  then show ?thesis using memS_set_inv_any[of True] by simp
qed

lemma memS_represents: "represents demoPlatform demoSet memS (setContents demoSet layoutS memS)"
  unfolding represents_def using memS_set_inv by blast

lemma memS_fits: "elementFits memS 4000"
  by (simp add: elementFits_def sizeof_pumaNode_def)

lemma memS_safe: "tailSafe (nodeAt memS) [8192, 16384]"
  by (simp add: tailSafe_def mem2_nodes demoNode_def)

lemma memS_canAlloc: "canAlloc demoSet memS (fst (layoutS 0))"
  using memS_fits memS_safe by (simp add: canAlloc_def)

lemma memS_null: "tlists memS 0 = None"
  by (simp add: memS_def mem2_def listAddr_def listAddr1_def)

lemma memS_live: "liveAddrs (nodeAt memS) [8192, 16384] = {8352, 12352, 20544}"
  using mem2_live by (simp del: liveAddrs_simps)

text \<open>An allocator of list arrays for the empty memory, and speeds that share the nodes evenly.\<close>

definition demoNuma :: "nat numalloc" where
  "demoNuma dn s sz = (if dom (tlists s) = {} \<and> sz < 2 ^ 63 then Some 4096 else None)"

lemma demoNuma_spec: "numalloc_spec demoNuma"
  by (auto simp: numalloc_spec_def demoNuma_def)

definition demoSpeeds :: speeds where
  "demoSpeeds a avg = min avg 1000"

lemma demoSpeeds_ok: "demoSpeeds a k < 18446744073709551615"
  by (simp add: demoSpeeds_def)

lemma demo_slots: "slots_ok demoPlatform 2"
  by (auto simp: slots_ok_NNUMA demoPlatform_def)

lemma weight_card: "length (filter f [0..<n]) = card {i. i < n \<and> f i}"
  using length_filter_conv_card[of f "[0..<n]"] by (auto intro: arg_cong[where f = card] cong: conj_cong)

lemma demoPlatform_NUMA: "platform_ok (demoPlatform\<lparr>NNUMA := False\<rparr>)"
  by (simp add: platform_ok_def demoPlatform_def weight_card)

text \<open>A machine whose two nodes have the numbers 0 and 2, with one CPU each.\<close>

definition sparsePlatform :: platform where
  "sparsePlatform = demoPlatform\<lparr>NNUMA := False, numa_node_of_cpu := (\<lambda>c. if c = 0 then 0 else if c = 1 then 2 else - 1),
     numa_node_to_cpus := (\<lambda>d c. d = 0 \<and> c = 0 \<or> d = 2 \<and> c = 1), numa_num_configured_nodes := 2\<rparr>"

lemma sparsePlatform_ok: "platform_ok sparsePlatform"
  by (auto simp: platform_ok_def sparsePlatform_def demoPlatform_def weight_card)

text \<open>A mask of 70 elements, in two words.\<close>

definition demoMask :: pumaBitmask where
  "demoMask = \<lparr>buckets = [0x00FF, 0xFFFFFFFFFFFFFFFF], bm_numElements = 70, mallocedBuckets = False\<rparr>"

lemma demoMask_wf: "bm_wf demoMask"
  by (simp add: bm_wf_def demoMask_def)

text \<open>An allocator of static blocks that has one block.\<close>

definition demoBlocks :: staticAlloc where
  "demoBlocks st sz = (if staticNodes st 65536 = None \<and> sz < 2 ^ 32 then Some 65536 else None)"

lemma demoBlocks_spec: "static_alloc_spec demoBlocks"
  by (auto simp: static_alloc_spec_def demoBlocks_def)

text \<open>The element size of the demonstration passes the assertion of the mask.\<close>

lemma memS_mask_assert: "maskAssertOk (nodeBytes memS) (ps_elementSize demoSet)"
  by (simp add: maskAssertOk_def sizeof_pumaNode_def)

text \<open>A kernel that puts every page on node 0; a write of 1 makes an element 1.\<close>

definition demoKernel :: "nat debugKernel" where
  "demoKernel = \<lparr>dbg_mbind = (\<lambda>_. 0), dbg_pageNode = (\<lambda>_. Some 0), dbg_poke = (\<lambda>k v. 1)\<rparr>"

lemma demoKernel_pages:
  "pagesOk (demoPlatform\<lparr>NNUMA := False\<rparr>) demoKernel (getCurrentNumaDomain (demoPlatform\<lparr>NNUMA := False\<rparr>) i)
     (ps_elementSize demoSet) memS"
  by (simp add: pagesOk_def demoKernel_def getCurrentNumaDomain_def demoPlatform_def sizeof_pumaNode_def)

text \<open>A descriptor whose world is the log of its calls: worker data count from 0, the reduction writes them down.\<close>

definition demoExtra :: "(nat, nat, nat, nat list) pumaExtraKernelData" where
  "demoExtra = \<lparr>extraDataConstructor = (\<lambda>c w. (Some 0, w)), constructorData = None,
     extraDataDestructor = (\<lambda>d w. w @ [999]), extraDataThreadReduce = (\<lambda>d w. (d, w @ [the d])),
     extraDataReduce = (\<lambda>r ds n w. w @ [n]), retValue = None\<rparr>"

text \<open>An empty node of 32 pages for elements of two bytes: its mask of 963 words reaches into its second page.\<close>

definition wideNode :: pumaNode where
  "wideNode =
     \<lparr>n_elementSize = 2, n_pageUnit = 4096, n_blockSize = 131072, n_numPages = 32,
      n_elementArray = 131072 + 7856, n_numElements = 0, n_capacity = 61608, n_firstKnownFree = 0,
      n_next = 0, n_prev = 0,
      n_freeMask = \<lparr>buckets = replicate 963 (NOT 0), bm_numElements = 61608, mallocedBuckets = False\<rparr>,
      n_dirty = False, n_active = True, n_index = 0, n_threadList = listAddr\<rparr>"

lemma wideNode_simps [simp]: "n_capacity wideNode = 61608" "n_numPages wideNode = 32"
  by (simp_all add: wideNode_def)

lemma wideNode_ok: "node_mask_ok wideNode" "node_geom 131072 131072 wideNode"
  by (simp_all add: wideNode_def node_mask_ok_def bm_wf_def node_geom_def sizeof_pumaNode_def)

lemma wideNode_empty: "used wideNode = {}"
proof -
  have "maskBit (n_freeMask wideNode) i" if "i < 61608" for i
  proof -
    have "i div 64 < 963" using that by linarith
    then show ?thesis by (simp add: maskBit_def wideNode_def bit_not_iff)
  qed
  then show ?thesis by (auto simp: used_def usedSlots_def)
qed

lemma wideNode_sizes: "maskAssertOk 131072 2" "elemArrayCount (131072 - sizeof_pumaNode) 2 = Inr 61608"
  by (simp_all add: maskAssertOk_def sizeof_pumaNode_def elemArrayCount_def sz_sub_def sz_add_def sz_mul_def Let_def)

text \<open>The memory of the demonstration, with the list of worker 1 on domain 1.\<close>

definition memD :: "nat mem" where
  "memD = putList listAddr1 (emptyList\<lparr>tl_tid := 1, tl_numaDomain := 1\<rparr>) memS"

lemma memD_simps [simp]:
  "nodes memD = nodes mem2" "nodeBytes memD = 8192"
  "tlists memD listAddr1 = Some (emptyList\<lparr>tl_tid := 1, tl_numaDomain := 1\<rparr>)" "tlists memD listAddr = tlists mem2 listAddr"
  by (simp_all add: memD_def mem_simps memS_def mem2_def mem0_def nodeBytes_def sz_mul_def listAddr_def listAddr1_def putList_def)

lemma demo_list:
  "tlists mem2 listAddr = Some (emptyList\<lparr>tl_head := nodeA, tl_tail := nodeB, tl_numElements := 3, tl_numNodes := 2\<rparr>)"
  by (simp add: mem2_def)

lemma memD_inv: "tl_inv memD listAddr ([8192] @ [16384]) []" "tl_inv memD listAddr1 [] []"
proof -
  show "tl_inv memD listAddr ([8192] @ [16384]) []"
    using memS_inv0 unfolding tl_inv_def by simp
  show "tl_inv memD listAddr1 [] []"
    using demo_cfg unfolding tl_inv_def by (simp add: list_ok_def emptyList_def)
qed

text \<open>A set for two workers whose pool has one thread.\<close>

lemma oneWorkerOfTwo:
  obtains ps s' where "(createPumaSet demoNuma demoPlatform [0] 4000 2 (mem0\<lparr>tlists := \<lambda>_. None\<rparr>)
      :: c_fault + (nat, nat) pumaSet \<times> nat mem) = Inr (ps, s')" "tlists s' 0 = None"
proof -
  have z: "zeroLists d 2 s = putList (listSlot d 1) zeroList (putList (listSlot d 0) zeroList s)" for d and s :: "nat mem"
    by (simp add: numeral_2_eq_2)
  have b: "getSmallestContainingPages (mem0\<lparr>tlists := \<lambda>_. None\<rparr>) (sz_mul 2 sizeof_pumaThreadList) = 4096"
    by (simp add: getSmallestContainingPages_def sz_add_def sz_mul_def sizeof_pumaThreadList_def mem0_def)
  have "\<exists>ps s'. (createPumaSet demoNuma demoPlatform [0] 4000 2 (mem0\<lparr>tlists := \<lambda>_. None\<rparr>)
      :: c_fault + (nat, nat) pumaSet \<times> nat mem) = Inr (ps, s') \<and> tlists s' 0 = None"
    using b by (simp add: createPumaSet_def initDomains_def initDomain_def getNumDomains_def getNumCPUsInDomain_def getNumCPUs_def
        demoPlatform_def demoNuma_def setupThreadListsWorker_def mem0_def Let_def z
        getListForCurrentThread_def getCurrentNumaDomain_def getCurrentCPUIndexInDomain_def listSlot_def sz_add_def sz_mul_def
        sizeof_pumaThreadList_def updList_def mem_simps deref_simps)
  then show thesis using that by blast
qed

end
