(* ===== verification/Numa.thy ===== *)
theory Numa
  imports PumaPrelude
begin

text \<open>
  Memory on a NUMA node: \<open>src/internal/numa.c\<close>. \<open>posix_memalign\<close>, \<open>numa_max_node\<close> and the kernel's
  \<open>mbind\<close> are not part of the program: an allocation gives the address and the \<open>mbind\<close> request,
  whose status is ignored outside debug builds.
\<close>

section \<open>Operations\<close>

text \<open>\<open>sizeof(unsigned long)\<close>, used where the number of its bits is meant.\<close>

definition sizeof_ulong :: nat where
  "sizeof_ulong = 8"

definition nodemask :: "nat \<Rightarrow> nat \<Rightarrow> c_fault + 64 word list" where
  "nodemask maxnode domain =
     (let numBuckets = 1 + maxnode div sizeof_ulong;
          bucket = domain div sizeof_ulong;
          i = domain mod sizeof_ulong
      in if bucket < numBuckets then Inr ((replicate numBuckets 0)[bucket := push_bit i 1])
         else Inl (OutOfBounds bucket))"

record mbindRequest =
  mb_start :: addr
  mb_len :: nat
  mb_nodemask :: "64 word list"
  mb_maxnode :: nat

definition bindToDomain :: "bool \<Rightarrow> nat \<Rightarrow> nat \<Rightarrow> nat \<Rightarrow> addr \<Rightarrow> c_fault + addr \<times> mbindRequest option" where
  "bindToDomain nnuma maxnode psize domain ret =
     (if nnuma then Inr (ret, None)
      else bindE (nodemask maxnode domain) (\<lambda>ws.
           Inr (ret, Some \<lparr>mb_start = ret, mb_len = psize, mb_nodemask = ws, mb_maxnode = maxnode + 2\<rparr>)))"

text \<open>\<open>ma alignment bytes\<close> stands for \<open>posix_memalign\<close>; after a failure \<open>ret\<close> is used uninitialised.\<close>

definition numalloc_on_node ::
  "(nat \<Rightarrow> nat \<Rightarrow> addr option) \<Rightarrow> bool \<Rightarrow> nat \<Rightarrow> nat \<Rightarrow> nat \<Rightarrow> nat \<Rightarrow> c_fault + addr \<times> mbindRequest option" where
  "numalloc_on_node ma nnuma maxnode pageSize psize domain =
     (case ma pageSize psize of
        None \<Rightarrow> Inl OutOfMemory
      | Some ret \<Rightarrow> bindToDomain nnuma maxnode psize domain ret)"

definition numalloc_aligned_on_node ::
  "(nat \<Rightarrow> nat \<Rightarrow> addr option) \<Rightarrow> bool \<Rightarrow> nat \<Rightarrow> nat \<Rightarrow> nat \<Rightarrow> c_fault + addr \<times> mbindRequest option" where
  "numalloc_aligned_on_node ma nnuma maxnode psize domain =
     (case ma psize psize of
        None \<Rightarrow> Inl OutOfMemory
      | Some ret \<Rightarrow> bindToDomain nnuma maxnode psize domain ret)"

section \<open>Which nodes a request names\<close>

text \<open>Bit \<open>d mod 64\<close> of word \<open>d div 64\<close> stands for node \<open>d\<close>; the kernel reads \<open>maxnode - 1\<close> bits.\<close>

definition selectsNode :: "64 word list \<Rightarrow> nat \<Rightarrow> bool" where
  "selectsNode ws d \<longleftrightarrow> d div 64 < length ws \<and> bit (ws ! (d div 64)) (d mod 64)"

definition requestedNodes :: "mbindRequest \<Rightarrow> nat set" where
  "requestedNodes r = {d. d + 1 < mb_maxnode r \<and> selectsNode (mb_nodemask r) d}"

lemma selectsNode_single:
  assumes "b < N" "i < 64"
  shows "selectsNode ((replicate N 0)[b := push_bit i 1]) d \<longleftrightarrow> d = 64 * b + i"
proof -
  have "selectsNode ((replicate N 0)[b := push_bit i 1]) d \<longleftrightarrow> d div 64 < N \<and> d div 64 = b \<and> d mod 64 = i"
    unfolding selectsNode_def by (cases "d div 64 = b") (auto simp: nth_list_update bit_exp_iff)
  also have "\<dots> \<longleftrightarrow> d = 64 * b + i" using assms by auto
  finally show ?thesis .
qed

lemma bindToDomain_nodes:
  assumes "domain \<le> maxnode"
  shows "\<exists>r. bindToDomain False maxnode psize domain ret = Inr (ret, Some r) \<and> mb_start r = ret \<and> mb_len r = psize
    \<and> requestedNodes r = {d. d \<le> maxnode \<and> d = 64 * (domain div 8) + domain mod 8}"
proof -
  have lt: "domain div 8 < 1 + maxnode div 8" using div_le_mono[OF assms, of 8] by simp
  have i: "domain mod 8 < 64" by (rule less_trans[of _ 8]) simp_all
  show ?thesis
    using lt selectsNode_single[OF lt i]
    by (auto simp: bindToDomain_def nodemask_def sizeof_ulong_def Let_def requestedNodes_def simp del: replicate_Suc)
qed

lemma only_node:
  assumes "m \<le> n"
  shows "{d :: nat. d \<le> n \<and> d = x} = {m} \<longleftrightarrow> x = m"
proof
  assume e: "{d. d \<le> n \<and> d = x} = {m}"
  have "m \<in> {d. d \<le> n \<and> d = x}" unfolding e by (rule singletonI)
  then show "x = m" by blast
next
  assume "x = m"
  then show "{d. d \<le> n \<and> d = x} = {m}" using assms by blast
qed

lemma selected_is_domain: "64 * (domain div 8) + domain mod 8 = domain \<longleftrightarrow> domain < (8 :: nat)"
proof
  assume e: "64 * (domain div 8) + domain mod 8 = domain"
  show "domain < 8"
  proof (rule ccontr)
    assume "\<not> domain < 8"
    moreover have "8 * (domain div 8) + domain mod 8 = domain" by simp
    ultimately show False using e by linarith
  qed
qed simp

end
