(* ===== verification/Affinity.thy ===== *)
theory Affinity
  imports PumaPrelude
begin

text \<open>
  The affinity string and the placement of workers: \<open>_parseAffinityStr\<close> and \<open>createThreadPool\<close> of
  \<open>src/pumathreadpool.c\<close> (the build without OpenMP). A result \<open>None\<close> is a call that does not return.
\<close>

section \<open>CPU sets and scanning\<close>

text \<open>\<open>cpu_set_t\<close> of glibc: 1024 bits; the macros ignore a CPU outside.\<close>

type_synonym cpu_set = "1024 word"

definition CPU_SET :: "nat \<Rightarrow> cpu_set \<Rightarrow> cpu_set" where
  "CPU_SET cpu s = (if cpu < 1024 then set_bit cpu s else s)"

definition CPU_ISSET :: "nat \<Rightarrow> cpu_set \<Rightarrow> bool" where
  "CPU_ISSET cpu s \<longleftrightarrow> cpu < 1024 \<and> bit s cpu"

definition CPU_COUNT :: "cpu_set \<Rightarrow> nat" where
  "CPU_COUNT s = length (filter (bit s) [0..<1024])"

definition isspace :: "char \<Rightarrow> bool" where
  "isspace c \<longleftrightarrow> c = CHR '' '' \<or> (9 \<le> (of_char c :: nat) \<and> (of_char c :: nat) \<le> 13)"

definition isdigit :: "char \<Rightarrow> bool" where
  "isdigit c \<longleftrightarrow> 48 \<le> (of_char c :: nat) \<and> (of_char c :: nat) \<le> 57"

text \<open>\<open>strtok_r(str, ",", &saveptr)\<close>: the next token and what the next call goes on with.\<close>

definition strtok :: "string \<Rightarrow> (string \<times> string) option" where
  "strtok str =
     (let s = dropWhile (\<lambda>c. c = CHR '','') str
      in if s = [] then None
         else Some (takeWhile (\<lambda>c. c \<noteq> CHR '','') s, drop 1 (dropWhile (\<lambda>c. c \<noteq> CHR '','') s)))"

text \<open>
  A conversion \<open>%u\<close>: white space, an optional sign, digits. The value is that of \<open>strtoul\<close>, stored in
  32 bits.
\<close>

definition digitsValue :: "string \<Rightarrow> nat" where
  "digitsValue ds = foldl (\<lambda>a c. 10 * a + (of_char c - 48)) 0 ds"

definition strtoulValue :: "bool \<Rightarrow> string \<Rightarrow> 32 word" where
  "strtoulValue neg ds =
     (let n = digitsValue ds
      in if 2 ^ 64 \<le> n then - 1 else if neg then - word_of_nat n else word_of_nat n)"

definition scanUnsigned :: "string \<Rightarrow> (32 word \<times> string) option" where
  "scanUnsigned str =
     (let s1 = dropWhile isspace str;
          neg = (s1 \<noteq> [] \<and> hd s1 = CHR ''-'');
          s2 = (if s1 \<noteq> [] \<and> (hd s1 = CHR ''-'' \<or> hd s1 = CHR ''+'') then tl s1 else s1);
          ds = takeWhile isdigit s2
      in if ds = [] then None else Some (strtoulValue neg ds, dropWhile isdigit s2))"

text \<open>\<open>sscanf(token, "%u-%u", &start, &end)\<close>: the converted values; their number is its result.\<close>

definition sscanfRange :: "string \<Rightarrow> 32 word list" where
  "sscanfRange token =
     (case scanUnsigned token of
        None \<Rightarrow> []
      | Some (start, r) \<Rightarrow>
          if r \<noteq> [] \<and> hd r = CHR ''-''
          then (case scanUnsigned (tl r) of None \<Rightarrow> [start] | Some (fin, _) \<Rightarrow> [start, fin])
          else [start])"

section \<open>Parsing\<close>

text \<open>\<open>for(unsigned int i = start; i <= end; ++i) CPU_SET(i, set)\<close>.\<close>

partial_function (option) setRange :: "32 word \<Rightarrow> 32 word \<Rightarrow> cpu_set \<Rightarrow> cpu_set option" where
  "setRange i fin s = (if i \<le> fin then setRange (i + 1) fin (CPU_SET (unat i) s) else Some s)"

lemma strtok_shorter: "strtok str = Some (token, rest) \<Longrightarrow> length rest < length str"
proof -
  assume a: "strtok str = Some (token, rest)"
  let ?s = "dropWhile (\<lambda>c. c = CHR '','') str"
  have s: "?s \<noteq> []" "rest = drop 1 (dropWhile (\<lambda>c. c \<noteq> CHR '','') ?s)"
    using a by (auto simp: strtok_def Let_def split: if_splits)
  have "length (dropWhile (\<lambda>c. c \<noteq> CHR '','') ?s) \<le> length ?s" by (rule length_dropWhile_le)
  moreover have "length ?s \<le> length str" by (rule length_dropWhile_le)
  moreover have "0 < length ?s" using s(1) by simp
  ultimately show ?thesis unfolding s(2) length_drop by linarith
qed

function parseTokens :: "string \<Rightarrow> cpu_set \<Rightarrow> (c_fault + cpu_set) option" where
  "parseTokens str s =
     (case strtok str of
        None \<Rightarrow> Some (Inr s)
      | Some (token, rest) \<Rightarrow>
          (case sscanfRange token of
             [start] \<Rightarrow> parseTokens rest (CPU_SET (unat start) s)
           | [start, fin] \<Rightarrow> (case setRange start fin s of None \<Rightarrow> None | Some s' \<Rightarrow> parseTokens rest s')
           | _ \<Rightarrow> Some (Inl ExitBadAffinity)))"
  by pat_completeness auto
termination by (relation "measure (\<lambda>(str, s). length str)") (auto dest: strtok_shorter)

declare parseTokens.simps [simp del]

definition parseAffinityStr :: "string \<Rightarrow> (c_fault + cpu_set) option" where
  "parseAffinityStr affinityStr = parseTokens affinityStr 0"

section \<open>Creating the pool\<close>

record threadPoolWorkerInfo =
  wi_cpu :: nat
  wi_threadNum :: nat

text \<open>\<open>tp_workers\<close> are the threads that were created, in the order of \<open>threadsInfo\<close>.\<close>

record threadPool =
  tp_numThreads :: nat
  tp_workers :: "threadPoolWorkerInfo list"
  tp_barrierCount :: nat

function placeOnCpus ::
  "nat \<Rightarrow> nat \<Rightarrow> cpu_set \<Rightarrow> nat \<Rightarrow> threadPoolWorkerInfo list \<Rightarrow> threadPoolWorkerInfo list" where
  "placeOnCpus nThreads nCPUs cpus i ws =
     (if i < nCPUs \<and> length ws < nThreads
      then placeOnCpus nThreads nCPUs cpus (Suc i)
             (if CPU_ISSET i cpus then ws @ [\<lparr>wi_cpu = i, wi_threadNum = length ws\<rparr>] else ws)
      else ws)"
  by pat_completeness auto
termination by (relation "measure (\<lambda>(n, k, c, i, ws). k - i)") auto

function placeByNumber :: "nat \<Rightarrow> nat \<Rightarrow> threadPoolWorkerInfo list \<Rightarrow> threadPoolWorkerInfo list" where
  "placeByNumber nThreads i ws =
     (if length ws < nThreads
      then placeByNumber nThreads (Suc i) (ws @ [\<lparr>wi_cpu = i, wi_threadNum = length ws\<rparr>])
      else ws)"
  by pat_completeness auto
termination by (relation "measure (\<lambda>(n, i, ws). n - length ws)") auto

declare placeOnCpus.simps [simp del] placeByNumber.simps [simp del]

text \<open>\<open>nProcs\<close> is \<open>sysconf(_SC_NPROCESSORS_ONLN)\<close>; the count of a barrier is an \<open>unsigned int\<close>.\<close>

definition createThreadPool :: "nat \<Rightarrow> nat \<Rightarrow> string option \<Rightarrow> (c_fault + threadPool) option" where
  "createThreadPool nProcs nThreads affinityStr =
     (let n = (if nThreads \<noteq> 0 then nThreads else nProcs);
          pool = (\<lambda>ws. \<lparr>tp_numThreads = n, tp_workers = ws, tp_barrierCount = (n + 1) mod 2 ^ 32\<rparr>)
      in case affinityStr of
           None \<Rightarrow> Some (Inr (pool (placeByNumber n 0 [])))
         | Some str \<Rightarrow>
             (case parseAffinityStr str of
                None \<Rightarrow> None
              | Some (Inl e) \<Rightarrow> Some (Inl e)
              | Some (Inr cpus) \<Rightarrow> Some (Inr (pool (placeOnCpus n (CPU_COUNT cpus) cpus 0 [])))))"

section \<open>Ranges\<close>

lemma bit_CPU_SET: "bit (CPU_SET c s) k \<longleftrightarrow> bit s k \<or> k = c \<and> c < 1024"
  by (auto simp: CPU_SET_def bit_set_bit_iff)

lemma setRange_step:
  "i \<le> fin \<Longrightarrow> setRange i fin s = setRange (i + 1) fin (CPU_SET (unat i) s)"
  "\<not> i \<le> fin \<Longrightarrow> setRange i fin s = Some s"
  by (subst setRange.simps, simp)+

lemma setRange_ok:
  assumes "fin \<noteq> - 1"
  shows "\<exists>s'. setRange i fin s = Some s' \<and> (\<forall>c. bit s' c \<longleftrightarrow> bit s c \<or> c < 1024 \<and> unat i \<le> c \<and> c \<le> unat fin)"
proof (induction "Suc (unat fin) - unat i" arbitrary: i s)
  case 0
  then have "\<not> i \<le> fin" by (simp add: word_le_nat_alt)
  then show ?case using 0 by (auto simp: setRange_step)
next
  case (Suc d)
  then have le: "i \<le> fin" by (simp add: word_le_nat_alt)
  have "unat fin < unat (- 1 :: 32 word)" using assms word_order.not_eq_extremum[of fin] by (simp add: word_less_nat_alt)
  moreover have "unat (- 1 :: 32 word) = 2 ^ 32 - 1" by (simp add: unsigned_minus_1_eq_mask mask_eq_exp_minus_1)
  ultimately have "unat i + 1 < 2 ^ LENGTH(32)" using le by (simp add: word_le_nat_alt)
  then have i1: "unat (i + 1) = Suc (unat i)" by (subst unat_add_lem[THEN iffD1]) simp_all
  have d: "d = Suc (unat fin) - unat (i + 1)" using Suc.hyps(2) unfolding i1 by arith
  obtain s' where s': "setRange (i + 1) fin (CPU_SET (unat i) s) = Some s'"
    "\<forall>c. bit s' c \<longleftrightarrow> bit (CPU_SET (unat i) s) c \<or> c < 1024 \<and> unat (i + 1) \<le> c \<and> c \<le> unat fin"
    using Suc.hyps(1)[OF d] by blast
  have "bit s' c \<longleftrightarrow> bit s c \<or> c < 1024 \<and> unat i \<le> c \<and> c \<le> unat fin" for c
  proof -
    have "unat i \<le> unat fin" using le by (simp add: word_le_nat_alt)
    then show ?thesis unfolding s'(2)[rule_format] bit_CPU_SET i1 by auto
  qed
  then show ?case using s'(1) le by (simp add: setRange_step(1))
qed

text \<open>A range up to \<open>UINT_MAX\<close> is never left.\<close>

lemma setRange_diverges: "setRange i (- 1) s = None"
proof (rule ccontr)
  assume "setRange i (- 1) s \<noteq> None"
  then obtain r where r: "setRange i (- 1) s = Some r" by auto
  have "(- 1 :: 32 word) \<noteq> - 1"
  proof (rule setRange.raw_induct[where P = "\<lambda>i fin s r. fin \<noteq> - 1", OF _ r])
    fix f :: "32 word \<Rightarrow> 32 word \<Rightarrow> cpu_set \<Rightarrow> cpu_set option" and i fin s r
    assume IH: "\<And>i fin s r. f i fin s = Some r \<Longrightarrow> fin \<noteq> - 1"
      and eq: "(if i \<le> fin then f (i + 1) fin (CPU_SET (unat i) s) else Some s) = Some r"
    show "fin \<noteq> - 1"
    proof (cases "i \<le> fin")
      case True
      with eq show ?thesis by (intro IH[of "i + 1" fin "CPU_SET (unat i) s"]) simp
    next
      case False
      then show ?thesis by auto
    qed
  qed
  then show False by simp
qed

section \<open>Printed numbers are scanned back\<close>

fun decimal :: "nat \<Rightarrow> string" where
  "decimal n = (if n < 10 then [char_of (48 + n)] else decimal (n div 10) @ [char_of (48 + n mod 10)])"

declare decimal.simps [simp del]

lemma of_char_digit: "(d :: nat) < 10 \<Longrightarrow> (of_char (char_of (48 + d) :: char) :: nat) = 48 + d"
  by (simp add: of_char_of)

lemma isdigit_digit: "(d :: nat) < 10 \<Longrightarrow> isdigit (char_of (48 + d))"
  using of_char_digit[of d] by (simp add: isdigit_def)

lemma decimal_digits: "list_all isdigit (decimal n) \<and> decimal n \<noteq> []"
proof (induction n rule: decimal.induct)
  case (1 n)
  then show ?case using isdigit_digit[of n] isdigit_digit[of "n mod 10"]
    by (cases "n < 10") (simp_all add: decimal.simps[of n])
qed

lemma digitsValue_decimal: "digitsValue (decimal n) = n"
proof (induction n rule: decimal.induct)
  case (1 n)
  then show ?case using of_char_digit[of n] of_char_digit[of "n mod 10"]
    by (cases "n < 10") (simp_all add: decimal.simps[of n] digitsValue_def)
qed

lemma not_isdigit: "\<not> isdigit (CHR '','')" "\<not> isdigit (CHR ''-'')" "\<not> isdigit (CHR '' '')" "\<not> isdigit (CHR ''+'')"
  by (simp_all add: isdigit_def)

lemma not_isspace: "isdigit c \<Longrightarrow> \<not> isspace c"
  by (auto simp: isdigit_def isspace_def)

lemma decimal_append:
  assumes "r = [] \<or> \<not> isdigit (hd r)"
  shows "takeWhile isdigit (decimal n @ r) = decimal n" "dropWhile isdigit (decimal n @ r) = r"
proof -
  have all: "\<And>c. c \<in> set (decimal n) \<Longrightarrow> isdigit c" using decimal_digits[of n] by (simp add: list_all_iff)
  have "takeWhile isdigit r = [] \<and> dropWhile isdigit r = r" using assms by (cases r) auto
  then show "takeWhile isdigit (decimal n @ r) = decimal n" "dropWhile isdigit (decimal n @ r) = r"
    using all by (simp_all add: takeWhile_append dropWhile_append)
qed

lemma scan_decimal:
  assumes "n < 2 ^ 32" "r = [] \<or> \<not> isdigit (hd r)" "list_all isspace ws"
  shows "scanUnsigned (ws @ decimal n @ r) = Some (word_of_nat n, r)"
proof -
  have d: "decimal n \<noteq> []" "isdigit (hd (decimal n))"
    using decimal_digits[of n] by (cases "decimal n", auto)+
  have hd: "hd (decimal n @ r) = hd (decimal n)" using d(1) by simp
  have ws: "dropWhile isspace (ws @ decimal n @ r) = decimal n @ r"
    using assms(3) d not_isspace[OF d(2)] by (cases "decimal n") (simp_all add: dropWhile_append list_all_iff)
  have "hd (decimal n) \<noteq> CHR ''-''" "hd (decimal n) \<noteq> CHR ''+''" using d(2) not_isdigit by metis+
  then show ?thesis
    unfolding scanUnsigned_def Let_def ws hd
    using d(1) assms(1) by (simp add: decimal_append[OF assms(2)] strtoulValue_def digitsValue_decimal)
qed

section \<open>Parsing a printed affinity string\<close>

text \<open>The format of the documentation: numbers and ranges, separated by a comma and a blank.\<close>

datatype cpuRange = One nat | Upto nat nat

fun covers :: "cpuRange \<Rightarrow> nat \<Rightarrow> bool" where
  "covers (One n) c \<longleftrightarrow> c = n"
| "covers (Upto a b) c \<longleftrightarrow> a \<le> c \<and> c \<le> b"

fun rangeOk :: "cpuRange \<Rightarrow> bool" where
  "rangeOk (One n) \<longleftrightarrow> n < 2 ^ 32"
| "rangeOk (Upto a b) \<longleftrightarrow> a < 2 ^ 32 \<and> b < 2 ^ 32 - 1"

fun showRange :: "cpuRange \<Rightarrow> string" where
  "showRange (One n) = decimal n"
| "showRange (Upto a b) = decimal a @ CHR ''-'' # decimal b"

fun showAffinity :: "cpuRange list \<Rightarrow> string" where
  "showAffinity [] = []"
| "showAffinity [r] = showRange r"
| "showAffinity (r # rs) = showRange r @ CHR '','' # CHR '' '' # showAffinity rs"

lemma strtok_token:
  assumes "t \<noteq> []" "CHR '','' \<notin> set t"
  shows "strtok (t @ CHR '','' # u) = Some (t, u)" "strtok t = Some (t, [])"
proof -
  have c: "c \<noteq> CHR '',''" if "c \<in> set t" for c using that assms(2) by auto
  have "dropWhile (\<lambda>c. c = CHR '','') (t @ v) = t @ v" for v using assms(1) c[of "hd t"] by (cases t) auto
  from this[of "CHR '','' # u"] this[of "[]"]
  have D: "dropWhile (\<lambda>c. c = CHR '','') (t @ CHR '','' # u) = t @ CHR '','' # u" "dropWhile (\<lambda>c. c = CHR '','') t = t" by simp_all
  have E: "takeWhile (\<lambda>c. c \<noteq> CHR '','') t = t" "dropWhile (\<lambda>c. c \<noteq> CHR '','') t = []"
    "takeWhile (\<lambda>c. c \<noteq> CHR '','') (t @ CHR '','' # u) = t" "dropWhile (\<lambda>c. c \<noteq> CHR '','') (t @ CHR '','' # u) = CHR '','' # u"
    using c by (simp_all add: takeWhile_eq_all_conv dropWhile_eq_Nil_conv takeWhile_append dropWhile_append)
  show "strtok (t @ CHR '','' # u) = Some (t, u)" "strtok t = Some (t, [])"
    using assms(1) unfolding strtok_def Let_def D E by simp_all
qed

lemma unat_small: "n < 2 ^ 32 \<Longrightarrow> unat (word_of_nat n :: 32 word) = n"
  by (simp add: unat_of_nat)

lemma decimal_no_comma: "CHR '','' \<notin> set (decimal n)"
  using decimal_digits[of n] not_isdigit(1) unfolding list_all_iff by blast

lemma space_no_comma: "list_all isspace ws \<Longrightarrow> CHR '','' \<notin> set ws"
proof -
  have "\<not> isspace (CHR '','')" by (simp add: isspace_def)
  then show "list_all isspace ws \<Longrightarrow> CHR '','' \<notin> set ws" unfolding list_all_iff by blast
qed

lemma showRange_token: "showRange r \<noteq> []" "CHR '','' \<notin> set (showRange r)"
  using decimal_digits decimal_no_comma by (cases r; auto)+

lemma sscanf_showRange:
  assumes "rangeOk r" "list_all isspace ws"
  shows "sscanfRange (ws @ showRange r) = (case r of One n \<Rightarrow> [word_of_nat n] | Upto a b \<Rightarrow> [word_of_nat a, word_of_nat b])"
proof (cases r)
  case (One n)
  then show ?thesis using assms scan_decimal[of n "[]" ws] by (simp add: sscanfRange_def)
next
  case (Upto a b)
  have "scanUnsigned (ws @ decimal a @ CHR ''-'' # decimal b) = Some (word_of_nat a, CHR ''-'' # decimal b)"
    using assms Upto not_isdigit by (intro scan_decimal) auto
  moreover have "scanUnsigned (decimal b) = Some (word_of_nat b, [])"
    using assms Upto scan_decimal[of b "[]" "[]"] by simp
  ultimately show ?thesis using Upto by (simp add: sscanfRange_def)
qed

lemma parse_range:
  assumes tok: "strtok str = Some (ws @ showRange r, rest)" and r: "rangeOk r" and ws: "list_all isspace ws"
  shows "\<exists>s'. parseTokens str s = parseTokens rest s' \<and> (\<forall>c. bit s' c \<longleftrightarrow> bit s c \<or> c < 1024 \<and> covers r c)"
proof (cases r)
  case (One n)
  have "parseTokens str s = parseTokens rest (CPU_SET n s)"
    using r sscanf_showRange[OF r ws] unfolding One
    by (subst parseTokens.simps) (simp add: tok[unfolded One] unat_small)
  then show ?thesis using One by (auto simp: bit_CPU_SET)
next
  case (Upto a b)
  have b: "unat (word_of_nat a :: 32 word) = a" "unat (word_of_nat b :: 32 word) = b"
    using r Upto by (auto simp: unat_small)
  moreover have "unat (- 1 :: 32 word) = 2 ^ 32 - 1" by (simp add: unsigned_minus_1_eq_mask mask_eq_exp_minus_1)
  ultimately have "(word_of_nat b :: 32 word) \<noteq> - 1" using r Upto by auto
  from setRange_ok[OF this, of "word_of_nat a" s] obtain s' where
    s': "setRange (word_of_nat a) (word_of_nat b) s = Some s'" "\<forall>c. bit s' c \<longleftrightarrow> bit s c \<or> c < 1024 \<and> a \<le> c \<and> c \<le> b"
    unfolding b by blast
  have "parseTokens str s = parseTokens rest s'"
    using s'(1) sscanf_showRange[OF r ws] unfolding Upto
    by (subst parseTokens.simps) (simp add: tok[unfolded Upto])
  then show ?thesis using s'(2) Upto by auto
qed

lemma parse_show:
  "rs \<noteq> [] \<Longrightarrow> \<forall>r\<in>set rs. rangeOk r \<Longrightarrow> list_all isspace ws
   \<Longrightarrow> \<exists>s'. parseTokens (ws @ showAffinity rs) s = Some (Inr s')
     \<and> (\<forall>c. bit s' c \<longleftrightarrow> bit s c \<or> c < 1024 \<and> (\<exists>r\<in>set rs. covers r c))"
proof (induction rs arbitrary: ws s rule: showAffinity.induct)
  case (2 r)
  have t: "ws @ showRange r \<noteq> []" "CHR '','' \<notin> set (ws @ showRange r)"
    using showRange_token[of r] space_no_comma[OF "2.prems"(3)] by auto
  have "rangeOk r" using "2.prems"(2) by simp
  from parse_range[OF strtok_token(2)[OF t] this "2.prems"(3), of s] obtain s' where
    "parseTokens (ws @ showRange r) s = parseTokens [] s'" "\<forall>c. bit s' c \<longleftrightarrow> bit s c \<or> c < 1024 \<and> covers r c" by blast
  moreover have "parseTokens [] s' = Some (Inr s')" by (subst parseTokens.simps) (simp add: strtok_def)
  ultimately show ?case by simp
next
  case (3 r r' rs)
  have t: "ws @ showRange r \<noteq> []" "CHR '','' \<notin> set (ws @ showRange r)"
    using showRange_token[of r] space_no_comma[OF "3.prems"(3)] by auto
  have "rangeOk r" using "3.prems"(2) by simp
  from parse_range[OF strtok_token(1)[OF t] this "3.prems"(3), of _ s] obtain s1 where
    s1: "parseTokens ((ws @ showRange r) @ CHR '','' # ([CHR '' ''] @ showAffinity (r' # rs))) s
      = parseTokens ([CHR '' ''] @ showAffinity (r' # rs)) s1"
    "\<forall>c. bit s1 c \<longleftrightarrow> bit s c \<or> c < 1024 \<and> covers r c" by blast
  have sp: "list_all isspace [CHR '' '']" by (simp add: isspace_def)
  obtain s2 where s2: "parseTokens ([CHR '' ''] @ showAffinity (r' # rs)) s1 = Some (Inr s2)"
    "\<forall>c. bit s2 c \<longleftrightarrow> bit s1 c \<or> c < 1024 \<and> (\<exists>q\<in>set (r' # rs). covers q c)"
    using "3.IH"[OF _ _ sp, of s1] "3.prems"(2) by auto
  then show ?case using s1 by auto
qed simp

theorem parse_showAffinity:
  assumes "\<forall>r\<in>set rs. rangeOk r"
  shows "\<exists>s. parseAffinityStr (showAffinity rs) = Some (Inr s)
    \<and> (\<forall>c. CPU_ISSET c s \<longleftrightarrow> c < 1024 \<and> (\<exists>r\<in>set rs. covers r c))"
proof (cases "rs = []")
  case True
  have "parseTokens [] 0 = Some (Inr 0)" by (subst parseTokens.simps) (simp add: strtok_def)
  then show ?thesis using True by (simp add: parseAffinityStr_def CPU_ISSET_def)
next
  case False
  from parse_show[OF False assms, of "[]" 0] show ?thesis by (auto simp: parseAffinityStr_def CPU_ISSET_def)
qed

text \<open>A range that ends at \<open>UINT_MAX\<close> keeps the caller in the loop for ever.\<close>

theorem parse_UINT_MAX:
  assumes "a < 2 ^ 32"
  shows "parseAffinityStr (showRange (Upto a (2 ^ 32 - 1))) = None"
proof -
  let ?t = "decimal a @ CHR ''-'' # decimal (2 ^ 32 - 1)"
  have t: "?t \<noteq> []" "CHR '','' \<notin> set ?t" using decimal_no_comma by auto
  have "scanUnsigned ([] @ decimal a @ CHR ''-'' # decimal (2 ^ 32 - 1)) = Some (word_of_nat a, CHR ''-'' # decimal (2 ^ 32 - 1))"
    using assms not_isdigit by (intro scan_decimal) auto
  moreover have "scanUnsigned ([] @ decimal (2 ^ 32 - 1) @ []) = Some (word_of_nat (2 ^ 32 - 1), [])"
    by (rule scan_decimal) simp_all
  moreover have "(word_of_nat (2 ^ 32 - 1) :: 32 word) = - 1" by simp
  ultimately have "sscanfRange ?t = [word_of_nat a, - 1]" by (simp add: sscanfRange_def)
  then show ?thesis
    using strtok_token(2)[OF t] setRange_diverges
    unfolding parseAffinityStr_def showRange.simps by (subst parseTokens.simps) simp
qed

section \<open>Placing the workers\<close>

definition workersOn :: "nat \<Rightarrow> nat list \<Rightarrow> threadPoolWorkerInfo list" where
  "workersOn t cs = map (\<lambda>(t, c). \<lparr>wi_cpu = c, wi_threadNum = t\<rparr>) (enumerate t cs)"

lemma workersOn_simps [simp]:
  "workersOn t [] = []" "workersOn t (c # cs) = \<lparr>wi_cpu = c, wi_threadNum = t\<rparr> # workersOn (Suc t) cs"
  by (simp_all add: workersOn_def)

lemma workersOn_fields:
  "length (workersOn t cs) = length cs" "map wi_cpu (workersOn t cs) = cs" "map wi_threadNum (workersOn t cs) = [t..<t + length cs]"
  by (induction cs arbitrary: t) (simp_all add: upt_conv_Cons del: upt_Suc)

lemma placeOnCpus_eq:
  "length ws \<le> n \<Longrightarrow> placeOnCpus n k cpus i ws
    = ws @ workersOn (length ws) (take (n - length ws) (filter (\<lambda>c. CPU_ISSET c cpus) [i..<k]))"
proof (induction n k cpus i ws rule: placeOnCpus.induct)
  case (1 n k cpus i ws)
  show ?case
  proof (cases "i < k \<and> length ws < n")
    case True
    then have r: "[i..<k] = i # [Suc i..<k]" by (simp add: upt_rec)
    have n: "n - length ws = Suc (n - Suc (length ws))" using True by linarith
    show ?thesis
      using "1.IH"[OF True] True n by (subst placeOnCpus.simps) (simp add: r)
  next
    case False
    then show ?thesis using "1.prems" by (subst placeOnCpus.simps) auto
  qed
qed

lemma placeByNumber_eq: "placeByNumber (length ws + m) i ws = ws @ workersOn (length ws) [i..<i + m]"
proof (induction m arbitrary: i ws)
  case 0
  show ?case by (subst placeByNumber.simps) simp
next
  case (Suc m)
  have "[i..<i + Suc m] = i # [Suc i..<Suc i + m]" by (simp add: upt_conv_Cons del: upt_Suc)
  then show ?case
    using Suc.IH[of "ws @ [\<lparr>wi_cpu = i, wi_threadNum = length ws\<rparr>]" "Suc i"]
    by (subst placeByNumber.simps) (simp del: upt_Suc)
qed

text \<open>
  With an affinity string the CPUs are numbered up to their count only: a chosen CPU whose number is
  not below the number of chosen CPUs gets no worker.
\<close>

theorem createThreadPool_affinity:
  assumes "parseAffinityStr str = Some (Inr cpus)" "n \<noteq> 0"
  shows "\<exists>pool. createThreadPool nProcs n (Some str) = Some (Inr pool) \<and> tp_numThreads pool = n
    \<and> map wi_cpu (tp_workers pool) = take n (filter (\<lambda>c. CPU_ISSET c cpus) [0..<CPU_COUNT cpus])
    \<and> map wi_threadNum (tp_workers pool) = [0..<length (tp_workers pool)]"
  using assms placeOnCpus_eq[of "[]" n "CPU_COUNT cpus" cpus 0]
  by (simp add: createThreadPool_def Let_def workersOn_fields)

theorem createThreadPool_default:
  assumes "n \<noteq> 0 \<or> nProcs \<noteq> 0"
  shows "\<exists>pool. createThreadPool nProcs n None = Some (Inr pool) \<and> tp_numThreads pool = (if n = 0 then nProcs else n)
    \<and> map wi_cpu (tp_workers pool) = [0..<tp_numThreads pool] \<and> map wi_threadNum (tp_workers pool) = [0..<tp_numThreads pool]"
  using placeByNumber_eq[of "[]"] by (auto simp: createThreadPool_def Let_def workersOn_fields)

lemma CPU_COUNT_range:
  assumes s: "\<forall>c. CPU_ISSET c s \<longleftrightarrow> c < 1024 \<and> a \<le> c \<and> c \<le> b" and "a \<le> b" "b < 1024"
  shows "CPU_COUNT s = Suc b - a"
proof -
  have "bit s c \<longleftrightarrow> a \<le> c \<and> c \<le> b" if "c < 1024" for c using s that by (auto simp: CPU_ISSET_def)
  then have "{c. c < 1024 \<and> bit s c} = {a..b}" using assms(3) by auto
  moreover have "CPU_COUNT s = card {c. c < 1024 \<and> bit s c}"
    unfolding CPU_COUNT_def using length_filter_conv_card[of "bit s" "[0..<1024]"] by (auto intro: arg_cong[where f = card] cong: conj_cong)
  ultimately show ?thesis by simp
qed

text \<open>\<open>"a-b"\<close>: how many of the \<open>b - a + 1\<close> CPUs get a worker; none when \<open>a\<close> is not below their number.\<close>

theorem createThreadPool_range:
  assumes ab: "a \<le> b" "b < 1024" and n: "n \<noteq> 0"
  shows "\<exists>pool. createThreadPool nProcs n (Some (showRange (Upto a b))) = Some (Inr pool) \<and> tp_numThreads pool = n
    \<and> map wi_cpu (tp_workers pool) = take n [a..<Suc b - a]"
proof -
  have "\<forall>r\<in>set [Upto a b]. rangeOk r" using ab by simp
  from parse_showAffinity[OF this] obtain s where s: "parseAffinityStr (showRange (Upto a b)) = Some (Inr s)"
    "\<forall>c. CPU_ISSET c s \<longleftrightarrow> c < 1024 \<and> a \<le> c \<and> c \<le> b" by auto
  have "filter (\<lambda>c. CPU_ISSET c s) [0..<Suc b - a] = [a..<Suc b - a]"
  proof (cases "a \<le> Suc b - a")
    case True
    have "[0..<Suc b - a] = [0..<a] @ [a..<Suc b - a]" using upt_add_eq_append[of 0 a "Suc b - a - a"] True by simp
    moreover have "filter (\<lambda>c. CPU_ISSET c s) [0..<a] = []" using s(2) by (simp add: filter_empty_conv)
    moreover have "filter (\<lambda>c. CPU_ISSET c s) [a..<Suc b - a] = [a..<Suc b - a]"
    proof -
      have "CPU_ISSET c s" if "a \<le> c" "c < Suc b - a" for c
        unfolding s(2)[rule_format] using that ab by linarith
      then show ?thesis by (simp add: filter_id_conv)
    qed
    ultimately show ?thesis by (simp del: upt_Suc)
  next
    case False
    then show ?thesis using s(2) by (simp add: filter_empty_conv)
  qed
  with createThreadPool_affinity[OF s(1) n, of nProcs] show ?thesis
    unfolding CPU_COUNT_range[OF s(2) ab] by metis
qed

end
