(* ===== verification/ThreadPool.thy ===== *)
theory ThreadPool
  imports Affinity
begin

text \<open>
  The pool at work: \<open>executeOnThreadPool\<close>, \<open>_threadPoolWorker\<close> and the queries of
  \<open>src/pumathreadpool.c\<close> (the build without OpenMP). The threads are interleaved: a state has the
  program counter of the caller and of every worker, the lock, and what each worker has run. A
  barrier of count \<open>N + 1\<close> lets all its threads go in one step, once that many have arrived.
\<close>

section \<open>Threads and their steps\<close>

text \<open>
  The caller: outside the function; before the write lock; before the two stores; before and in the
  first barrier; before the unlock; before and in the second barrier.
\<close>

datatype callerPc = MIdle | MWantLock | MStore | MArrive | MAtWork | MUnlock | MDone | MAtDone

text \<open>
  A worker: before and in the first barrier; before the read lock; before the two loads; before the
  unlock; before the call of the work function; before and in the second barrier.
\<close>

datatype workerPc = WStart | WAtWork | WLock | WRead | WUnlock | WRun | WDone | WAtDone

text \<open>
  \<open>workFunction\<close> stands for the two fields \<open>workFunction\<close> and \<open>arg\<close>, \<open>request\<close> for the caller's
  arguments, \<open>myWork\<close> for a worker's copies. \<open>hasRun\<close> and \<open>calls\<close> record what was run and asked for.
\<close>

record 'j poolState =
  callerAt :: callerPc
  workerAt :: "nat \<Rightarrow> workerPc"
  writeLocked :: bool
  readers :: "nat set"
  workFunction :: "'j option"
  request :: "'j option"
  myWork :: "nat \<Rightarrow> 'j option"
  hasRun :: "nat \<Rightarrow> 'j option list"
  calls :: "'j list"

definition startPool :: "'j poolState" where
  "startPool = \<lparr>callerAt = MIdle, workerAt = (\<lambda>_. WStart), writeLocked = False, readers = {}, workFunction = None,
     request = None, myWork = (\<lambda>_. None), hasRun = (\<lambda>_. []), calls = []\<rparr>"

definition atWorkBarrier :: "nat \<Rightarrow> 'j poolState \<Rightarrow> nat" where
  "atWorkBarrier C s = card {w. w < C \<and> workerAt s w = WAtWork} + of_bool (callerAt s = MAtWork)"

definition atDoneBarrier :: "nat \<Rightarrow> 'j poolState \<Rightarrow> nat" where
  "atDoneBarrier C s = card {w. w < C \<and> workerAt s w = WAtDone} + of_bool (callerAt s = MAtDone)"

definition releaseWork :: "nat \<Rightarrow> 'j poolState \<Rightarrow> 'j poolState" where
  "releaseWork C s = s\<lparr>callerAt := (if callerAt s = MAtWork then MUnlock else callerAt s),
     workerAt := (\<lambda>w. if w < C \<and> workerAt s w = WAtWork then WLock else workerAt s w)\<rparr>"

definition releaseDone :: "nat \<Rightarrow> 'j poolState \<Rightarrow> 'j poolState" where
  "releaseDone C s = s\<lparr>callerAt := (if callerAt s = MAtDone then MIdle else callerAt s),
     workerAt := (\<lambda>w. if w < C \<and> workerAt s w = WAtDone then WStart else workerAt s w)\<rparr>"

text \<open>\<open>N\<close> is the pool's number of threads, \<open>C\<close> how many were created; \<open>t\<close> is the next state.\<close>

inductive poolStep :: "nat \<Rightarrow> nat \<Rightarrow> 'j poolState \<Rightarrow> 'j poolState \<Rightarrow> bool" for N C where
  call: "callerAt s = MIdle \<Longrightarrow>
    poolStep N C s (s\<lparr>callerAt := MWantLock, request := Some j, calls := calls s @ [j]\<rparr>)"
| wrlock: "callerAt s = MWantLock \<Longrightarrow> \<not> writeLocked s \<Longrightarrow> readers s = {} \<Longrightarrow>
    poolStep N C s (s\<lparr>callerAt := MStore, writeLocked := True\<rparr>)"
| store: "callerAt s = MStore \<Longrightarrow> poolStep N C s (s\<lparr>callerAt := MArrive, workFunction := request s\<rparr>)"
| arriveWork: "callerAt s = MArrive \<Longrightarrow> poolStep N C s (s\<lparr>callerAt := MAtWork\<rparr>)"
| unlock: "callerAt s = MUnlock \<Longrightarrow> poolStep N C s (s\<lparr>callerAt := MDone, writeLocked := False\<rparr>)"
| arriveDone: "callerAt s = MDone \<Longrightarrow> poolStep N C s (s\<lparr>callerAt := MAtDone\<rparr>)"
| workerArriveWork: "w < C \<Longrightarrow> workerAt s w = WStart \<Longrightarrow>
    poolStep N C s (s\<lparr>workerAt := (workerAt s)(w := WAtWork)\<rparr>)"
| workerRdlock: "w < C \<Longrightarrow> workerAt s w = WLock \<Longrightarrow> \<not> writeLocked s \<Longrightarrow>
    poolStep N C s (s\<lparr>workerAt := (workerAt s)(w := WRead), readers := insert w (readers s)\<rparr>)"
| workerRead: "w < C \<Longrightarrow> workerAt s w = WRead \<Longrightarrow>
    poolStep N C s (s\<lparr>workerAt := (workerAt s)(w := WUnlock), myWork := (myWork s)(w := workFunction s)\<rparr>)"
| workerUnlock: "w < C \<Longrightarrow> workerAt s w = WUnlock \<Longrightarrow>
    poolStep N C s (s\<lparr>workerAt := (workerAt s)(w := WRun), readers := readers s - {w}\<rparr>)"
| workerRun: "w < C \<Longrightarrow> workerAt s w = WRun \<Longrightarrow>
    poolStep N C s (s\<lparr>workerAt := (workerAt s)(w := WDone), hasRun := (hasRun s)(w := hasRun s w @ [myWork s w])\<rparr>)"
| workerArriveDone: "w < C \<Longrightarrow> workerAt s w = WDone \<Longrightarrow>
    poolStep N C s (s\<lparr>workerAt := (workerAt s)(w := WAtDone)\<rparr>)"
| tripWork: "atWorkBarrier C s = N + 1 \<Longrightarrow> poolStep N C s (releaseWork C s)"
| tripDone: "atDoneBarrier C s = N + 1 \<Longrightarrow> poolStep N C s (releaseDone C s)"

inductive poolReachable :: "nat \<Rightarrow> nat \<Rightarrow> 'j poolState \<Rightarrow> bool" for N C where
  pool_start: "poolReachable N C startPool"
| pool_step: "poolReachable N C s \<Longrightarrow> poolStep N C s s' \<Longrightarrow> poolReachable N C s'"

section \<open>The invariant\<close>

definition beforeWork :: "callerPc set" where
  "beforeWork = {MIdle, MWantLock, MStore, MArrive, MAtWork}"

definition workerOk :: "'j poolState \<Rightarrow> nat \<Rightarrow> bool" where
  "workerOk s w \<longleftrightarrow>
     (callerAt s \<in> beforeWork \<longrightarrow> workerAt s w \<in> {WStart, WAtWork})
   \<and> (callerAt s = MUnlock \<longrightarrow> workerAt s w = WLock)
   \<and> (callerAt s \<in> {MDone, MAtDone} \<longrightarrow> workerAt s w \<notin> {WStart, WAtWork})
   \<and> (workerAt s w \<in> {WUnlock, WRun} \<longrightarrow> myWork s w = workFunction s)
   \<and> hasRun s w = map Some (if callerAt s = MIdle \<or> workerAt s w \<in> {WDone, WAtDone} then calls s else butlast (calls s))"

definition poolInv :: "nat \<Rightarrow> 'j poolState \<Rightarrow> bool" where
  "poolInv C s \<longleftrightarrow>
     (callerAt s \<noteq> MIdle \<longrightarrow> calls s \<noteq> [] \<and> request s = Some (last (calls s)))
   \<and> (callerAt s \<in> {MArrive, MAtWork, MUnlock, MDone, MAtDone} \<longrightarrow> workFunction s = request s)
   \<and> (writeLocked s \<longleftrightarrow> callerAt s \<in> {MStore, MArrive, MAtWork, MUnlock})
   \<and> readers s = {w. w < C \<and> workerAt s w \<in> {WRead, WUnlock}}
   \<and> (\<forall>w<C. workerOk s w)"

lemma poolInvD:
  assumes "poolInv C s"
  shows "callerAt s \<noteq> MIdle \<Longrightarrow> calls s \<noteq> []" "callerAt s \<noteq> MIdle \<Longrightarrow> request s = Some (last (calls s))"
    "callerAt s \<in> {MArrive, MAtWork, MUnlock, MDone, MAtDone} \<Longrightarrow> workFunction s = request s"
    "writeLocked s \<longleftrightarrow> callerAt s \<in> {MStore, MArrive, MAtWork, MUnlock}"
    "readers s = {w. w < C \<and> workerAt s w \<in> {WRead, WUnlock}}" "\<And>w. w < C \<Longrightarrow> workerOk s w"
  using assms unfolding poolInv_def by blast+

text \<open>A barrier trips only when the caller and all workers wait at it.\<close>

lemma all_waiting:
  assumes "C \<le> N" "card {w. w < C \<and> P w} + of_bool b = N + 1"
  shows "b" "C = N" "\<forall>w<C. P w"
proof -
  have sub: "{w. w < C \<and> P w} \<subseteq> {..<C}" by auto
  then have le: "card {w. w < C \<and> P w} \<le> C" using card_mono[of "{..<C}"] by simp
  then show "b" using assms by (cases b) auto
  then show "C = N" using assms le by simp
  then have "card {w. w < C \<and> P w} = card {..<C}" using assms \<open>b\<close> by simp
  then have "{w. w < C \<and> P w} = {..<C}" using sub by (intro card_subset_eq) auto
  then show "\<forall>w<C. P w" by blast
qed

lemma waiting_all: "(\<forall>w<C. P w) \<Longrightarrow> card {w. w < C \<and> P w} = C"
proof -
  assume "\<forall>w<C. P w"
  then have "{w. w < C \<and> P w} = {..<C}" by auto
  then show ?thesis by simp
qed

lemma poolInv_start: "poolInv C startPool"
  by (simp add: poolInv_def startPool_def workerOk_def)

lemma poolInv_worker:
  assumes inv: "poolInv C s" and same: "callerAt s' = callerAt s" "calls s' = calls s" "request s' = request s"
      "workFunction s' = workFunction s" "writeLocked s' = writeLocked s"
    and r: "readers s' = {w. w < C \<and> workerAt s' w \<in> {WRead, WUnlock}}" and w: "\<And>v. v < C \<Longrightarrow> workerOk s' v"
  shows "poolInv C s'"
  unfolding poolInv_def same using poolInvD(1-4)[OF inv] r w by blast

lemma poolInv_step: "poolStep N C s s' \<Longrightarrow> C \<le> N \<Longrightarrow> poolInv C s \<Longrightarrow> poolInv C s'"
proof (induction rule: poolStep.induct)
  case (call s j)
  have "workerOk (s\<lparr>callerAt := MWantLock, request := Some j, calls := calls s @ [j]\<rparr>) w" if "w < C" for w
    using poolInvD(6)[OF call.prems(2) that] call.hyps(1) by (cases "workerAt s w") (simp_all add: workerOk_def beforeWork_def)
  then show ?case using poolInvD(1-5)[OF call.prems(2)] call.hyps by (simp add: poolInv_def)
next
  case (wrlock s)
  have "workerOk (s\<lparr>callerAt := MStore, writeLocked := True\<rparr>) w" if "w < C" for w
    using poolInvD(6)[OF wrlock.prems(2) that] wrlock.hyps(1) by (cases "workerAt s w") (simp_all add: workerOk_def beforeWork_def)
  then show ?case using poolInvD(1-5)[OF wrlock.prems(2)] wrlock.hyps by (simp add: poolInv_def)
next
  case (store s)
  have "workerOk (s\<lparr>callerAt := MArrive, workFunction := request s\<rparr>) w" if "w < C" for w
    using poolInvD(6)[OF store.prems(2) that] store.hyps(1) by (cases "workerAt s w") (simp_all add: workerOk_def beforeWork_def)
  then show ?case using poolInvD(1-5)[OF store.prems(2)] store.hyps by (simp add: poolInv_def)
next
  case (arriveWork s)
  have "workerOk (s\<lparr>callerAt := MAtWork\<rparr>) w" if "w < C" for w
    using poolInvD(6)[OF arriveWork.prems(2) that] arriveWork.hyps(1) by (cases "workerAt s w") (simp_all add: workerOk_def beforeWork_def)
  then show ?case using poolInvD(1-5)[OF arriveWork.prems(2)] arriveWork.hyps by (simp add: poolInv_def)
next
  case (unlock s)
  have "workerOk (s\<lparr>callerAt := MDone, writeLocked := False\<rparr>) w" if "w < C" for w
    using poolInvD(6)[OF unlock.prems(2) that] unlock.hyps(1) by (cases "workerAt s w") (simp_all add: workerOk_def beforeWork_def)
  then show ?case using poolInvD(1-5)[OF unlock.prems(2)] unlock.hyps by (simp add: poolInv_def)
next
  case (arriveDone s)
  have "workerOk (s\<lparr>callerAt := MAtDone\<rparr>) w" if "w < C" for w
    using poolInvD(6)[OF arriveDone.prems(2) that] arriveDone.hyps(1) by (cases "workerAt s w") (simp_all add: workerOk_def beforeWork_def)
  then show ?case using poolInvD(1-5)[OF arriveDone.prems(2)] arriveDone.hyps by (simp add: poolInv_def)
next
  case (workerArriveWork w s)
  let ?s = "s\<lparr>workerAt := (workerAt s)(w := WAtWork)\<rparr>"
  have W: "workerOk ?s v" if "v < C" for v
    using poolInvD(4)[OF workerArriveWork.prems(2)] poolInvD(6)[OF workerArriveWork.prems(2) that] workerArriveWork.hyps by (cases "v = w") (auto simp: workerOk_def beforeWork_def)
  have R: "readers ?s = {v. v < C \<and> workerAt ?s v \<in> {WRead, WUnlock}}"
  proof (rule set_eqI)
    show "v \<in> readers ?s \<longleftrightarrow> v \<in> {v. v < C \<and> workerAt ?s v \<in> {WRead, WUnlock}}" for v
      using workerArriveWork.hyps(1,2) poolInvD(5)[OF workerArriveWork.prems(2)] by (cases "v = w") simp_all
  qed
  show ?case by (rule poolInv_worker[OF workerArriveWork.prems(2) _ _ _ _ _ R W]) simp_all
next
  case (workerRdlock w s)
  let ?s = "s\<lparr>workerAt := (workerAt s)(w := WRead), readers := insert w (readers s)\<rparr>"
  have W: "workerOk ?s v" if "v < C" for v
    using poolInvD(4)[OF workerRdlock.prems(2)] poolInvD(6)[OF workerRdlock.prems(2) that] workerRdlock.hyps by (cases "v = w") (auto simp: workerOk_def beforeWork_def)
  have R: "readers ?s = {v. v < C \<and> workerAt ?s v \<in> {WRead, WUnlock}}"
  proof (rule set_eqI)
    show "v \<in> readers ?s \<longleftrightarrow> v \<in> {v. v < C \<and> workerAt ?s v \<in> {WRead, WUnlock}}" for v
      using workerRdlock.hyps(1,2) poolInvD(5)[OF workerRdlock.prems(2)] by (cases "v = w") simp_all
  qed
  show ?case by (rule poolInv_worker[OF workerRdlock.prems(2) _ _ _ _ _ R W]) simp_all
next
  case (workerRead w s)
  let ?s = "s\<lparr>workerAt := (workerAt s)(w := WUnlock), myWork := (myWork s)(w := workFunction s)\<rparr>"
  have W: "workerOk ?s v" if "v < C" for v
    using poolInvD(4)[OF workerRead.prems(2)] poolInvD(6)[OF workerRead.prems(2) that] workerRead.hyps by (cases "v = w") (auto simp: workerOk_def beforeWork_def)
  have R: "readers ?s = {v. v < C \<and> workerAt ?s v \<in> {WRead, WUnlock}}"
  proof (rule set_eqI)
    show "v \<in> readers ?s \<longleftrightarrow> v \<in> {v. v < C \<and> workerAt ?s v \<in> {WRead, WUnlock}}" for v
      using workerRead.hyps(1,2) poolInvD(5)[OF workerRead.prems(2)] by (cases "v = w") simp_all
  qed
  show ?case by (rule poolInv_worker[OF workerRead.prems(2) _ _ _ _ _ R W]) simp_all
next
  case (workerUnlock w s)
  let ?s = "s\<lparr>workerAt := (workerAt s)(w := WRun), readers := readers s - {w}\<rparr>"
  have W: "workerOk ?s v" if "v < C" for v
    using poolInvD(4)[OF workerUnlock.prems(2)] poolInvD(6)[OF workerUnlock.prems(2) that] workerUnlock.hyps by (cases "v = w") (auto simp: workerOk_def beforeWork_def)
  have R: "readers ?s = {v. v < C \<and> workerAt ?s v \<in> {WRead, WUnlock}}"
  proof (rule set_eqI)
    show "v \<in> readers ?s \<longleftrightarrow> v \<in> {v. v < C \<and> workerAt ?s v \<in> {WRead, WUnlock}}" for v
      using workerUnlock.hyps(1,2) poolInvD(5)[OF workerUnlock.prems(2)] by (cases "v = w") simp_all
  qed
  show ?case by (rule poolInv_worker[OF workerUnlock.prems(2) _ _ _ _ _ R W]) simp_all
next
  case (workerRun w s)
  let ?s = "s\<lparr>workerAt := (workerAt s)(w := WDone), hasRun := (hasRun s)(w := hasRun s w @ [myWork s w])\<rparr>"
  have "callerAt s \<in> {MDone, MAtDone}"
    using poolInvD(6)[OF workerRun.prems(2) workerRun.hyps(1)] workerRun.hyps(2)
    by (cases "callerAt s") (simp_all add: workerOk_def beforeWork_def)
  then have l: "map Some (butlast (calls s)) @ [workFunction s] = map Some (calls s)"
  proof -
    assume m: "callerAt s \<in> {MDone, MAtDone}"
    then have "workFunction s = Some (last (calls s))" "calls s \<noteq> []" using poolInvD(1-3)[OF workerRun.prems(2)] by auto
    then show ?thesis using append_butlast_last_id[of "calls s"] by (metis list.simps(8,9) map_append)
  qed
  have W: "workerOk ?s v" if "v < C" for v
    using poolInvD(4)[OF workerRun.prems(2)] poolInvD(6)[OF workerRun.prems(2) that] workerRun.hyps l
    by (cases "v = w") (auto simp: workerOk_def beforeWork_def)
  have R: "readers ?s = {v. v < C \<and> workerAt ?s v \<in> {WRead, WUnlock}}"
  proof (rule set_eqI)
    show "v \<in> readers ?s \<longleftrightarrow> v \<in> {v. v < C \<and> workerAt ?s v \<in> {WRead, WUnlock}}" for v
      using workerRun.hyps(1,2) poolInvD(5)[OF workerRun.prems(2)] by (cases "v = w") simp_all
  qed
  show ?case by (rule poolInv_worker[OF workerRun.prems(2) _ _ _ _ _ R W]) simp_all
next
  case (workerArriveDone w s)
  let ?s = "s\<lparr>workerAt := (workerAt s)(w := WAtDone)\<rparr>"
  have W: "workerOk ?s v" if "v < C" for v
    using poolInvD(4)[OF workerArriveDone.prems(2)] poolInvD(6)[OF workerArriveDone.prems(2) that] workerArriveDone.hyps by (cases "v = w") (auto simp: workerOk_def beforeWork_def)
  have R: "readers ?s = {v. v < C \<and> workerAt ?s v \<in> {WRead, WUnlock}}"
  proof (rule set_eqI)
    show "v \<in> readers ?s \<longleftrightarrow> v \<in> {v. v < C \<and> workerAt ?s v \<in> {WRead, WUnlock}}" for v
      using workerArriveDone.hyps(1,2) poolInvD(5)[OF workerArriveDone.prems(2)] by (cases "v = w") simp_all
  qed
  show ?case by (rule poolInv_worker[OF workerArriveDone.prems(2) _ _ _ _ _ R W]) simp_all
next
  case (tripWork s)
  note A = all_waiting[OF tripWork.prems(1) tripWork.hyps[unfolded atWorkBarrier_def]]
  have "workerOk (releaseWork C s) w" if "w < C" for w
    using poolInvD(6)[OF tripWork.prems(2) that] A(1,3) that by (simp add: workerOk_def beforeWork_def releaseWork_def)
  then show ?case using poolInvD(1-5)[OF tripWork.prems(2)] A by (auto simp: poolInv_def releaseWork_def)
next
  case (tripDone s)
  note A = all_waiting[OF tripDone.prems(1) tripDone.hyps[unfolded atDoneBarrier_def]]
  have "workerOk (releaseDone C s) w" if "w < C" for w
    using poolInvD(6)[OF tripDone.prems(2) that] A(1,3) that by (simp add: workerOk_def beforeWork_def releaseDone_def)
  then show ?case using poolInvD(1-5)[OF tripDone.prems(2)] A by (auto simp: poolInv_def releaseDone_def)
qed

lemma poolInv_reachable: "poolReachable N C s \<Longrightarrow> C \<le> N \<Longrightarrow> poolInv C s"
  by (induction rule: poolReachable.induct) (auto intro: poolInv_start poolInv_step)

section \<open>Every call runs its work once on every worker\<close>

theorem pool_runs_once:
  assumes "poolReachable N C s" "C \<le> N" "callerAt s = MIdle" "w < C"
  shows "hasRun s w = map Some (calls s)" "workerAt s w \<in> {WStart, WAtWork}"
  using poolInvD(6)[OF poolInv_reachable[OF assms(1,2)] assms(4)] assms(3) by (auto simp: workerOk_def beforeWork_def)

text \<open>During a call no worker is more than this one call behind.\<close>

theorem pool_runs_during:
  assumes "poolReachable N C s" "C \<le> N" "w < C"
  shows "hasRun s w = map Some (calls s) \<or> hasRun s w = map Some (butlast (calls s))"
  using poolInvD(6)[OF poolInv_reachable[OF assms(1,2)] assms(3)] by (auto simp: workerOk_def)

text \<open>Loads and stores of the work function exclude each other.\<close>

theorem pool_no_race:
  assumes "poolReachable N C s" "C \<le> N" "callerAt s = MStore" "w < C"
  shows "workerAt s w \<noteq> WRead"
  using poolInvD(6)[OF poolInv_reachable[OF assms(1,2)] assms(4)] assms(3) by (auto simp: workerOk_def beforeWork_def)

section \<open>A call returns\<close>

fun callerRank :: "callerPc \<Rightarrow> nat" where
  "callerRank MIdle = 0"
| "callerRank MWantLock = 7"
| "callerRank MStore = 6"
| "callerRank MArrive = 5"
| "callerRank MAtWork = 4"
| "callerRank MUnlock = 3"
| "callerRank MDone = 2"
| "callerRank MAtDone = 1"

fun workerRank :: "workerPc \<Rightarrow> nat" where
  "workerRank WStart = 7"
| "workerRank WAtWork = 6"
| "workerRank WLock = 5"
| "workerRank WRead = 4"
| "workerRank WUnlock = 3"
| "workerRank WRun = 2"
| "workerRank WDone = 1"
| "workerRank WAtDone = 0"

definition poolMeasure :: "nat \<Rightarrow> 'j poolState \<Rightarrow> nat" where
  "poolMeasure C s = (if callerAt s = MIdle then 0 else 7 * C + callerRank (callerAt s))
     + (\<Sum>w<C. workerRank (workerAt s w))"

lemma poolMeasure_worker:
  assumes "w < C" "workerRank p < workerRank (workerAt s w)" "callerAt s' = callerAt s" "workerAt s' = (workerAt s)(w := p)"
  shows "poolMeasure C s' < poolMeasure C s"
proof -
  have "(\<Sum>v<C. workerRank (workerAt s' v)) < (\<Sum>v<C. workerRank (workerAt s v))"
    by (rule sum_strict_mono_ex1) (use assms in auto)
  then show ?thesis using assms(3) by (simp add: poolMeasure_def)
qed

text \<open>Every step but a new call comes nearer to the end of the call.\<close>

lemma poolMeasure_drop:
  "poolStep N C s s' \<Longrightarrow> C \<le> N \<Longrightarrow> callerAt s \<noteq> MIdle \<Longrightarrow> poolMeasure C s' < poolMeasure C s"
proof (induction rule: poolStep.induct)
  case (workerArriveWork w s)
  then show ?case by (intro poolMeasure_worker) simp_all
next
  case (workerRdlock w s)
  then show ?case by (intro poolMeasure_worker) simp_all
next
  case (workerRead w s)
  then show ?case by (intro poolMeasure_worker) simp_all
next
  case (workerUnlock w s)
  then show ?case by (intro poolMeasure_worker) simp_all
next
  case (workerRun w s)
  then show ?case by (intro poolMeasure_worker) simp_all
next
  case (workerArriveDone w s)
  then show ?case by (intro poolMeasure_worker) simp_all
next
  case (tripWork s)
  note A = all_waiting[OF tripWork.prems(1) tripWork.hyps[unfolded atWorkBarrier_def]]
  have "(\<Sum>w<C. workerRank (workerAt (releaseWork C s) w)) \<le> (\<Sum>w<C. workerRank (workerAt s w))"
    by (rule sum_mono) (simp add: releaseWork_def)
  then show ?case using A(1) by (simp add: poolMeasure_def releaseWork_def)
next
  case (tripDone s)
  note A = all_waiting[OF tripDone.prems(1) tripDone.hyps[unfolded atDoneBarrier_def]]
  have "(\<Sum>w<C. workerRank (workerAt (releaseDone C s) w)) = (\<Sum>w<C. 7)"
    by (rule sum.cong) (use A(3) in \<open>simp_all add: releaseDone_def\<close>)
  then show ?case using A(1) by (simp add: poolMeasure_def releaseDone_def)
qed (simp_all add: poolMeasure_def)

lemma pool_progress:
  assumes inv: "poolInv N s" and busy: "callerAt s \<noteq> MIdle"
  shows "\<exists>s'. poolStep N N s s'"
proof (cases "callerAt s")
  case MWantLock
  have "workerAt s w \<in> {WStart, WAtWork}" if "w < N" for w
    using poolInvD(6)[OF inv that] MWantLock by (simp add: workerOk_def beforeWork_def)
  then have "readers s = {}" unfolding poolInvD(5)[OF inv] by fastforce
  then show ?thesis using poolInvD(4)[OF inv] MWantLock poolStep.wrlock[of s N N] by auto
next
  case MAtWork
  show ?thesis
  proof (cases "\<forall>w<N. workerAt s w = WAtWork")
    case True
    then have "atWorkBarrier N s = N + 1" using MAtWork by (simp add: atWorkBarrier_def waiting_all)
    then show ?thesis by (blast intro: poolStep.tripWork)
  next
    case False
    then obtain w where "w < N" "workerAt s w = WStart"
      using poolInvD(6)[OF inv] MAtWork by (auto simp: workerOk_def beforeWork_def)
    then show ?thesis by (blast intro: poolStep.workerArriveWork)
  qed
next
  case MAtDone
  show ?thesis
  proof (cases "\<forall>w<N. workerAt s w = WAtDone")
    case True
    then have "atDoneBarrier N s = N + 1" using MAtDone by (simp add: atDoneBarrier_def waiting_all)
    then show ?thesis by (blast intro: poolStep.tripDone)
  next
    case False
    then obtain w where w: "w < N" "workerAt s w \<noteq> WAtDone" by blast
    then have "workerAt s w \<notin> {WStart, WAtWork}"
      using poolInvD(6)[OF inv] MAtDone by (auto simp: workerOk_def)
    moreover have "\<not> writeLocked s" using poolInvD(4)[OF inv] MAtDone by simp
    ultimately show ?thesis using w by (cases "workerAt s w") (auto intro: poolStep.intros)
  qed
qed (use busy in \<open>blast intro: poolStep.intros\<close>)+

text \<open>A state from which the caller returns whatever the scheduler does.\<close>

inductive callReturns :: "nat \<Rightarrow> nat \<Rightarrow> 'j poolState \<Rightarrow> bool" for N C where
  returned: "callerAt s = MIdle \<Longrightarrow> callReturns N C s"
| running: "\<exists>s'. poolStep N C s s' \<Longrightarrow> \<forall>s'. poolStep N C s s' \<longrightarrow> callReturns N C s' \<Longrightarrow> callReturns N C s"

theorem pool_call_returns:
  assumes "poolReachable N N s"
  shows "callReturns N N s"
  using assms
proof (induction "poolMeasure N s" arbitrary: s rule: less_induct)
  case less
  show ?case
  proof (cases "callerAt s = MIdle")
    case True
    then show ?thesis by (rule callReturns.returned)
  next
    case False
    have "\<exists>s'. poolStep N N s s'" by (rule pool_progress[OF poolInv_reachable[OF less.prems le_refl] False])
    moreover have "callReturns N N s'" if st: "poolStep N N s s'" for s'
      using less.hyps[OF poolMeasure_drop[OF st le_refl False] pool_step[OF less.prems st]] .
    ultimately show ?thesis by (blast intro: callReturns.running)
  qed
qed

text \<open>With fewer threads than the barriers count, the first call waits for ever.\<close>

theorem pool_call_hangs:
  assumes "poolReachable N C s" "C < N"
  shows "hasRun s w = []" "calls s = [] \<longleftrightarrow> callerAt s = MIdle" "length (calls s) \<le> 1"
proof -
  have "callerAt s \<in> {MIdle, MWantLock, MStore, MArrive, MAtWork} \<and> (calls s = [] \<longleftrightarrow> callerAt s = MIdle) \<and> length (calls s) \<le> 1
      \<and> (\<forall>w<C. workerAt s w \<in> {WStart, WAtWork}) \<and> (\<forall>w. hasRun s w = [])"
    using assms
  proof (induction rule: poolReachable.induct)
    case pool_start
    then show ?case by (simp add: startPool_def)
  next
    case (pool_step s s')
    have no: "\<not> card {w. w < C \<and> P w} + of_bool b = N + 1" for P b
      using all_waiting(2)[of C N P b] pool_step.prems by auto
    from pool_step.hyps(2) show ?case
    proof cases
      case tripWork
      then show ?thesis using no[of "\<lambda>w. workerAt s w = WAtWork" "callerAt s = MAtWork"] by (simp add: atWorkBarrier_def)
    next
      case tripDone
      then show ?thesis using no[of "\<lambda>w. workerAt s w = WAtDone" "callerAt s = MAtDone"] by (simp add: atDoneBarrier_def)
    qed (use pool_step.IH[OF pool_step.prems] in auto)
  qed
  then show "hasRun s w = []" "calls s = [] \<longleftrightarrow> callerAt s = MIdle" "length (calls s) \<le> 1" by blast+
qed

lemma callReturns_reaches:
  "callReturns N C s \<Longrightarrow> poolReachable N C s \<Longrightarrow> \<exists>s'. poolReachable N C s' \<and> callerAt s' = MIdle \<and> calls s' = calls s"
proof (induction rule: callReturns.induct)
  case (running s)
  show ?case
  proof (cases "callerAt s = MIdle")
    case False
    from running.hyps(1) obtain s1 where s1: "poolStep N C s s1" by blast
    then have "calls s1 = calls s" by cases (use False in \<open>simp_all add: releaseWork_def releaseDone_def\<close>)
    moreover obtain s' where "poolReachable N C s'" "callerAt s' = MIdle" "calls s' = calls s1"
      using running.IH s1 pool_step[OF running.prems s1] by blast
    ultimately show ?thesis by auto
  qed (use running.prems in blast)
qed blast

section \<open>Queries and release\<close>

text \<open>The three keys of a thread; a thread of no pool has none of them set.\<close>

record threadKeys =
  numThreadsKey :: "nat option"
  threadNumKey :: "nat option"
  cpuNumKey :: "nat option"

definition noKeys :: threadKeys where
  "noKeys = \<lparr>numThreadsKey = None, threadNumKey = None, cpuNumKey = None\<rparr>"

definition workerKeys :: "threadPool \<Rightarrow> threadPoolWorkerInfo \<Rightarrow> threadKeys" where
  "workerKeys pool info = \<lparr>numThreadsKey = Some (tp_numThreads pool), threadNumKey = Some (wi_threadNum info),
     cpuNumKey = Some (wi_cpu info)\<rparr>"

definition pumaGetThreadNum :: "threadKeys \<Rightarrow> nat" where
  "pumaGetThreadNum keys = (case threadNumKey keys of Some n \<Rightarrow> n | None \<Rightarrow> 0)"

definition pumaGetCPUNum :: "threadKeys \<Rightarrow> nat" where
  "pumaGetCPUNum keys = (case cpuNumKey keys of Some n \<Rightarrow> n | None \<Rightarrow> 0)"

definition pumaGetNumThreads :: "threadPool option \<Rightarrow> threadKeys \<Rightarrow> c_fault + nat" where
  "pumaGetNumThreads pool keys =
     (case pool of
        Some p \<Rightarrow> Inr (tp_numThreads p)
      | None \<Rightarrow> (case numThreadsKey keys of Some n \<Rightarrow> Inr n | None \<Rightarrow> Inl NullDeref))"

text \<open>
  \<open>freeThreadPool\<close> cancels as many threads as the pool should have: the handle of one that was not
  created is zero. The result is the cancelled threads.
\<close>

fun cancelThreads :: "threadPool \<Rightarrow> nat \<Rightarrow> c_fault + threadPoolWorkerInfo list" where
  "cancelThreads pool 0 = Inr []"
| "cancelThreads pool (Suc i) =
     bindE (cancelThreads pool i) (\<lambda>ws.
       if i < length (tp_workers pool) then Inr (ws @ [tp_workers pool ! i]) else Inl NullDeref)"

definition freeThreadPool :: "threadPool \<Rightarrow> c_fault + threadPoolWorkerInfo list" where
  "freeThreadPool pool = cancelThreads pool (tp_numThreads pool)"

lemma cancelThreads_eq:
  "cancelThreads pool n = (if n \<le> length (tp_workers pool) then Inr (take n (tp_workers pool)) else Inl NullDeref)"
  by (induction n) (auto simp: take_Suc_conv_app_nth)

theorem freeThreadPool_eq:
  "freeThreadPool pool = (if tp_numThreads pool \<le> length (tp_workers pool)
     then Inr (take (tp_numThreads pool) (tp_workers pool)) else Inl NullDeref)"
  by (simp add: freeThreadPool_def cancelThreads_eq)

theorem default_pool_keys:
  assumes "createThreadPool nProcs n None = Some (Inr pool)" "i < tp_numThreads pool"
  shows "pumaGetThreadNum (workerKeys pool (tp_workers pool ! i)) = i" "pumaGetCPUNum (workerKeys pool (tp_workers pool ! i)) = i"
    "pumaGetNumThreads None (workerKeys pool (tp_workers pool ! i)) = Inr (tp_numThreads pool)"
proof -
  have n: "n \<noteq> 0 \<or> nProcs \<noteq> 0" using assms by (auto simp: createThreadPool_def Let_def split: if_splits)
  have m: "map wi_cpu (tp_workers pool) = [0..<tp_numThreads pool]" "map wi_threadNum (tp_workers pool) = [0..<tp_numThreads pool]"
    using createThreadPool_default[OF n] assms(1) by auto
  then have l: "length (tp_workers pool) = tp_numThreads pool" using length_map[of wi_cpu "tp_workers pool"] by simp
  have "wi_threadNum (tp_workers pool ! i) = i" "wi_cpu (tp_workers pool ! i) = i"
    using m l assms(2) by (metis add.left_neutral nth_map nth_upt)+
  then show "pumaGetThreadNum (workerKeys pool (tp_workers pool ! i)) = i" "pumaGetCPUNum (workerKeys pool (tp_workers pool ! i)) = i"
    "pumaGetNumThreads None (workerKeys pool (tp_workers pool ! i)) = Inr (tp_numThreads pool)"
    by (simp_all add: pumaGetThreadNum_def pumaGetCPUNum_def pumaGetNumThreads_def workerKeys_def)
qed

end
