(* ===== verification/ManyCallers.thy ===== *)
theory ManyCallers
  imports ThreadPool
begin

text \<open>
  \<open>executeOnThreadPool\<close> called by several threads on one pool, which the build with a static pool makes
  every set share. The steps are those of \<open>poolStep\<close> with a program counter and arguments for each
  caller; nobody arrives at a barrier that is about to let its threads go.
\<close>

section \<open>Steps\<close>

record 'j callersState =
  callersAt :: "nat \<Rightarrow> callerPc"
  poolWorkerAt :: "nat \<Rightarrow> workerPc"
  writeLockedBy :: "nat option"
  poolReaders :: "nat set"
  poolWork :: "'j option"
  requests :: "nat \<Rightarrow> 'j option"
  workerWork :: "nat \<Rightarrow> 'j option"
  workerRan :: "nat \<Rightarrow> 'j option list"

definition startCallers :: "'j callersState" where
  "startCallers = \<lparr>callersAt = (\<lambda>_. MIdle), poolWorkerAt = (\<lambda>_. WStart), writeLockedBy = None, poolReaders = {},
     poolWork = None, requests = (\<lambda>_. None), workerWork = (\<lambda>_. None), workerRan = (\<lambda>_. [])\<rparr>"

definition atBarrier :: "nat \<Rightarrow> nat \<Rightarrow> callerPc \<Rightarrow> workerPc \<Rightarrow> 'j callersState \<Rightarrow> nat" where
  "atBarrier N K mpc wpc s = card {c. c < K \<and> callersAt s c = mpc} + card {w. w < N \<and> poolWorkerAt s w = wpc}"

definition letGo :: "callerPc \<Rightarrow> callerPc \<Rightarrow> workerPc \<Rightarrow> workerPc \<Rightarrow> 'j callersState \<Rightarrow> 'j callersState" where
  "letGo mpc mpc' wpc wpc' s = s\<lparr>callersAt := (\<lambda>c. if callersAt s c = mpc then mpc' else callersAt s c),
     poolWorkerAt := (\<lambda>w. if poolWorkerAt s w = wpc then wpc' else poolWorkerAt s w)\<rparr>"

abbreviation moveCaller :: "nat \<Rightarrow> callerPc \<Rightarrow> 'j callersState \<Rightarrow> 'j callersState" where
  "moveCaller c pc s \<equiv> s\<lparr>callersAt := (callersAt s)(c := pc)\<rparr>"

abbreviation moveWorker :: "nat \<Rightarrow> workerPc \<Rightarrow> 'j callersState \<Rightarrow> 'j callersState" where
  "moveWorker w pc s \<equiv> s\<lparr>poolWorkerAt := (poolWorkerAt s)(w := pc)\<rparr>"

inductive callersStep :: "nat \<Rightarrow> nat \<Rightarrow> 'j callersState \<Rightarrow> 'j callersState \<Rightarrow> bool" for N K where
  cs_call: "c < K \<Longrightarrow> callersAt s c = MIdle \<Longrightarrow>
    callersStep N K s (moveCaller c MWantLock (s\<lparr>requests := (requests s)(c := Some j)\<rparr>))"
| cs_wrlock: "c < K \<Longrightarrow> callersAt s c = MWantLock \<Longrightarrow> writeLockedBy s = None \<Longrightarrow> poolReaders s = {} \<Longrightarrow>
    callersStep N K s (moveCaller c MStore (s\<lparr>writeLockedBy := Some c\<rparr>))"
| cs_store: "c < K \<Longrightarrow> callersAt s c = MStore \<Longrightarrow>
    callersStep N K s (moveCaller c MArrive (s\<lparr>poolWork := requests s c\<rparr>))"
| cs_arriveWork: "c < K \<Longrightarrow> callersAt s c = MArrive \<Longrightarrow> atBarrier N K MAtWork WAtWork s \<le> N \<Longrightarrow>
    callersStep N K s (moveCaller c MAtWork s)"
| cs_unlock: "c < K \<Longrightarrow> callersAt s c = MUnlock \<Longrightarrow>
    callersStep N K s (moveCaller c MDone (s\<lparr>writeLockedBy := None\<rparr>))"
| cs_arriveDone: "c < K \<Longrightarrow> callersAt s c = MDone \<Longrightarrow> atBarrier N K MAtDone WAtDone s \<le> N \<Longrightarrow>
    callersStep N K s (moveCaller c MAtDone s)"
| cs_workerArriveWork: "w < N \<Longrightarrow> poolWorkerAt s w = WStart \<Longrightarrow> atBarrier N K MAtWork WAtWork s \<le> N \<Longrightarrow>
    callersStep N K s (moveWorker w WAtWork s)"
| cs_workerRdlock: "w < N \<Longrightarrow> poolWorkerAt s w = WLock \<Longrightarrow> writeLockedBy s = None \<Longrightarrow>
    callersStep N K s (moveWorker w WRead (s\<lparr>poolReaders := insert w (poolReaders s)\<rparr>))"
| cs_workerRead: "w < N \<Longrightarrow> poolWorkerAt s w = WRead \<Longrightarrow>
    callersStep N K s (moveWorker w WUnlock (s\<lparr>workerWork := (workerWork s)(w := poolWork s)\<rparr>))"
| cs_workerUnlock: "w < N \<Longrightarrow> poolWorkerAt s w = WUnlock \<Longrightarrow>
    callersStep N K s (moveWorker w WRun (s\<lparr>poolReaders := poolReaders s - {w}\<rparr>))"
| cs_workerRun: "w < N \<Longrightarrow> poolWorkerAt s w = WRun \<Longrightarrow>
    callersStep N K s (moveWorker w WDone (s\<lparr>workerRan := (workerRan s)(w := workerRan s w @ [workerWork s w])\<rparr>))"
| cs_workerArriveDone: "w < N \<Longrightarrow> poolWorkerAt s w = WDone \<Longrightarrow> atBarrier N K MAtDone WAtDone s \<le> N \<Longrightarrow>
    callersStep N K s (moveWorker w WAtDone s)"
| cs_tripWork: "atBarrier N K MAtWork WAtWork s = N + 1 \<Longrightarrow> callersStep N K s (letGo MAtWork MUnlock WAtWork WLock s)"
| cs_tripDone: "atBarrier N K MAtDone WAtDone s = N + 1 \<Longrightarrow> callersStep N K s (letGo MAtDone MIdle WAtDone WStart s)"

inductive callersReachable :: "nat \<Rightarrow> nat \<Rightarrow> 'j callersState \<Rightarrow> bool" for N K where
  cr_start: "callersReachable N K startCallers"
| cr_step: "callersReachable N K s \<Longrightarrow> callersStep N K s s' \<Longrightarrow> callersReachable N K s'"

section \<open>A deadlock of two callers\<close>

text \<open>
  A second caller takes the write lock as soon as the first one gives it back, before the workers
  have read their work: it then waits for them in the first barrier with the lock that they need,
  and the first caller waits for them in the second.
\<close>

definition stuckCallers :: "nat \<Rightarrow> 'j \<Rightarrow> 'j \<Rightarrow> 'j callersState \<Rightarrow> bool" where
  "stuckCallers N i j s \<longleftrightarrow> callersAt s 0 = MAtDone \<and> callersAt s 1 = MAtWork \<and> writeLockedBy s = Some 1
     \<and> (\<forall>w<N. poolWorkerAt s w = WLock \<and> workerRan s w = [])
     \<and> requests s 0 = Some i \<and> requests s 1 = Some j"

lemma less_two_iff: "c < 2 \<longleftrightarrow> c = 0 \<or> c = (1 :: nat)"
  by auto

lemma callers_card:
  "card {c. c < 2 \<and> f c = pc} = of_bool (f 0 = pc) + of_bool (f (1 :: nat) = pc)"
proof -
  have "{c. c < 2 \<and> f c = pc} = (if f 0 = pc then {0} else {}) \<union> (if f (1 :: nat) = pc then {1} else {})"
  proof (rule set_eqI)
    fix c show "c \<in> {c. c < 2 \<and> f c = pc} \<longleftrightarrow> c \<in> (if f 0 = pc then {0} else {}) \<union> (if f (1 :: nat) = pc then {1} else {})"
      by (cases "c = 0"; cases "c = 1") (auto simp: less_two_iff)
  qed
  then show ?thesis by simp
qed

lemma stuckCallers_no_step:
  assumes "stuckCallers N i j s" "0 < N"
  shows "\<not> callersStep N 2 s s'"
proof
  note st = assms(1)[unfolded stuckCallers_def]
  have none: "{w. w < N \<and> poolWorkerAt s w = pc} = {}" if "pc \<noteq> WLock" for pc using st that by auto
  have b: "atBarrier N 2 MAtWork WAtWork s = 1" "atBarrier N 2 MAtDone WAtDone s = 1"
    unfolding atBarrier_def callers_card using st none by simp_all
  assume "callersStep N 2 s s'"
  then show False
    by cases (use st assms(2) in \<open>auto simp: less_two_iff b\<close>)
qed

text \<open>A reachable state with the two callers at \<open>a\<close> and \<open>b\<close> and all workers at \<open>p\<close>, the work not yet read.\<close>

definition twoAt :: "nat \<Rightarrow> callerPc \<Rightarrow> callerPc \<Rightarrow> workerPc \<Rightarrow> nat option \<Rightarrow> 'j option \<Rightarrow> 'j option \<Rightarrow> 'j callersState \<Rightarrow> bool" where
  "twoAt N a b p wl i j s \<longleftrightarrow> callersReachable N 2 s \<and> callersAt s 0 = a \<and> callersAt s 1 = b
     \<and> (\<forall>w<N. poolWorkerAt s w = p \<and> workerRan s w = []) \<and> writeLockedBy s = wl \<and> poolReaders s = {}
     \<and> requests s 0 = i \<and> requests s 1 = j"

lemma twoAt_barrier:
  assumes "twoAt N a b p wl i j s"
  shows "atBarrier N 2 mpc wpc s = of_bool (a = mpc) + of_bool (b = mpc) + (if p = wpc then N else 0)"
proof -
  have "{w. w < N \<and> poolWorkerAt s w = wpc} = (if p = wpc then {..<N} else {})"
    using assms by (auto simp: twoAt_def)
  then show ?thesis using assms by (simp add: twoAt_def atBarrier_def callers_card)
qed

lemma twoAt_step:
  assumes "twoAt N a b p wl i j s" "callersStep N 2 s s'" "callersAt s' 0 = a'" "callersAt s' 1 = b'"
    "\<forall>w<N. poolWorkerAt s' w = p' \<and> workerRan s' w = []" "writeLockedBy s' = wl'" "poolReaders s' = {}"
    "requests s' 0 = i'" "requests s' 1 = j'"
  shows "twoAt N a' b' p' wl' i' j' s'"
  using assms unfolding twoAt_def by (blast intro: cr_step)

lemma workers_arrive:
  assumes t: "twoAt N MAtWork b WStart wl i j s" and b: "b \<noteq> MAtWork" and k: "k \<le> N"
  shows "callersReachable N 2 (s\<lparr>poolWorkerAt := (\<lambda>w. if w < k then WAtWork else poolWorkerAt s w)\<rparr>)"
  using k
proof (induction k)
  case 0
  then show ?case using t by (simp add: twoAt_def)
next
  case (Suc k)
  let ?s = "s\<lparr>poolWorkerAt := (\<lambda>w. if w < k then WAtWork else poolWorkerAt s w)\<rparr>"
  have "{w. w < N \<and> poolWorkerAt ?s w = WAtWork} = {..<k}" using t Suc.prems by (auto simp: twoAt_def)
  then have "atBarrier N 2 MAtWork WAtWork ?s \<le> N"
    using t b Suc.prems by (simp add: twoAt_def atBarrier_def callers_card)
  then have "callersStep N 2 ?s (moveWorker k WAtWork ?s)"
    using t Suc.prems by (intro cs_workerArriveWork) (simp_all add: twoAt_def)
  moreover have "moveWorker k WAtWork ?s = s\<lparr>poolWorkerAt := (\<lambda>w. if w < Suc k then WAtWork else poolWorkerAt s w)\<rparr>"
    by (simp add: fun_eq_iff less_Suc_eq)
  ultimately show ?case using Suc by (metis cr_step Suc_leD)
qed

lemma all_arrive:
  assumes t: "twoAt N MAtWork b WStart wl i j s" and b: "b \<noteq> MAtWork"
  shows "\<exists>s'. twoAt N MAtWork b WAtWork wl i j s'"
  using workers_arrive[OF assms order_refl] t
  by (intro exI[of _ "s\<lparr>poolWorkerAt := (\<lambda>w. if w < N then WAtWork else poolWorkerAt s w)\<rparr>"]) (simp add: twoAt_def)

theorem two_callers_stuck:
  assumes N: "0 < N"
  shows "\<exists>s. callersReachable N 2 s \<and> stuckCallers N i j s \<and> (\<forall>s'. \<not> callersStep N 2 s s')"
proof -
  note sm = twoAt_def letGo_def
  have s0: "twoAt N MIdle MIdle WStart None None None startCallers"
    by (simp add: twoAt_def startCallers_def cr_start[unfolded startCallers_def])
  have "\<exists>s'. twoAt N MWantLock MIdle WStart None (Some i) None s'"
    by (rule exI, rule twoAt_step[OF s0 cs_call[where c = 0 and K = 2 and j = i]]) (use s0 in \<open>auto simp: sm\<close>)
  then obtain s1 where s1: "twoAt N MWantLock MIdle WStart None (Some i) None s1" by blast
  have "\<exists>s'. twoAt N MWantLock MWantLock WStart None (Some i) (Some j) s'"
    by (rule exI, rule twoAt_step[OF s1 cs_call[where c = 1 and K = 2 and j = j]]) (use s1 in \<open>auto simp: sm\<close>)
  then obtain s2 where s2: "twoAt N MWantLock MWantLock WStart None (Some i) (Some j) s2" by blast
  have "\<exists>s'. twoAt N MStore MWantLock WStart (Some 0) (Some i) (Some j) s'"
    by (rule exI, rule twoAt_step[OF s2 cs_wrlock[where c = 0 and K = 2]]) (use s2 in \<open>auto simp: sm\<close>)
  then obtain s3 where s3: "twoAt N MStore MWantLock WStart (Some 0) (Some i) (Some j) s3" by blast
  have "\<exists>s'. twoAt N MArrive MWantLock WStart (Some 0) (Some i) (Some j) s'"
    by (rule exI, rule twoAt_step[OF s3 cs_store[where c = 0 and K = 2]]) (use s3 in \<open>auto simp: sm\<close>)
  then obtain s4 where s4: "twoAt N MArrive MWantLock WStart (Some 0) (Some i) (Some j) s4" by blast
  have "\<exists>s'. twoAt N MAtWork MWantLock WStart (Some 0) (Some i) (Some j) s'"
    by (rule exI, rule twoAt_step[OF s4 cs_arriveWork[where c = 0 and K = 2]]) (use s4 twoAt_barrier[OF s4] in \<open>auto simp: sm\<close>)
  then obtain s5 where s5: "twoAt N MAtWork MWantLock WStart (Some 0) (Some i) (Some j) s5" by blast
  obtain s6 where s6: "twoAt N MAtWork MWantLock WAtWork (Some 0) (Some i) (Some j) s6"
    using all_arrive[OF s5] by auto
  have "\<exists>s'. twoAt N MUnlock MWantLock WLock (Some 0) (Some i) (Some j) s'"
    by (rule exI, rule twoAt_step[OF s6 cs_tripWork[of N 2]]) (use s6 twoAt_barrier[OF s6] in \<open>auto simp: sm\<close>)
  then obtain s7 where s7: "twoAt N MUnlock MWantLock WLock (Some 0) (Some i) (Some j) s7" by blast
  have "\<exists>s'. twoAt N MDone MWantLock WLock None (Some i) (Some j) s'"
    by (rule exI, rule twoAt_step[OF s7 cs_unlock[where c = 0 and K = 2]]) (use s7 in \<open>auto simp: sm\<close>)
  then obtain s8 where s8: "twoAt N MDone MWantLock WLock None (Some i) (Some j) s8" by blast
  have "\<exists>s'. twoAt N MDone MStore WLock (Some 1) (Some i) (Some j) s'"
    by (rule exI, rule twoAt_step[OF s8 cs_wrlock[where c = 1 and K = 2]]) (use s8 in \<open>auto simp: sm\<close>)
  then obtain s9 where s9: "twoAt N MDone MStore WLock (Some 1) (Some i) (Some j) s9" by blast
  have "\<exists>s'. twoAt N MDone MArrive WLock (Some 1) (Some i) (Some j) s'"
    by (rule exI, rule twoAt_step[OF s9 cs_store[where c = 1 and K = 2]]) (use s9 in \<open>auto simp: sm\<close>)
  then obtain s10 where s10: "twoAt N MDone MArrive WLock (Some 1) (Some i) (Some j) s10" by blast
  have "\<exists>s'. twoAt N MDone MAtWork WLock (Some 1) (Some i) (Some j) s'"
    by (rule exI, rule twoAt_step[OF s10 cs_arriveWork[where c = 1 and K = 2]]) (use s10 twoAt_barrier[OF s10] in \<open>auto simp: sm\<close>)
  then obtain s11 where s11: "twoAt N MDone MAtWork WLock (Some 1) (Some i) (Some j) s11" by blast
  have "\<exists>s'. twoAt N MAtDone MAtWork WLock (Some 1) (Some i) (Some j) s'"
    by (rule exI, rule twoAt_step[OF s11 cs_arriveDone[where c = 0 and K = 2]]) (use s11 twoAt_barrier[OF s11] N in \<open>auto simp: sm\<close>)
  then obtain s12 where s12: "twoAt N MAtDone MAtWork WLock (Some 1) (Some i) (Some j) s12" by blast
  have st: "stuckCallers N i j s12" using s12 by (simp add: stuckCallers_def twoAt_def)
  have "callersReachable N 2 s12" using s12 by (simp add: twoAt_def)
  then show ?thesis using st stuckCallers_no_step[OF st N] by blast
qed

end
