(* ===== verification/Stranded.thy ===== *)
theory Stranded
  imports Demo
begin

text \<open>
  What \<open>tailSafe\<close> excludes: the tail is empty and due for compaction, and so is the node before it.
  The compaction gives both back, and \<open>_pumallocOnThreadList\<close> (\<open>src/pumalloc.c\<close>) makes only the
  tail active again. When they are the nodes of the whole list, a kernel stops at its inactive head.
\<close>

section \<open>The compaction of an empty list\<close>

text \<open>The search for the last element gives back all the nodes of a list without elements.\<close>

lemma getLastElement_empty:
  assumes inv: "tl_inv s t xs ys" and e: "\<And>m. m \<in> set xs \<Longrightarrow> n_numElements (the (nodeAt s m)) = 0"
  obtains s' where "getLastElement t s = Inr (0, s')" "searched t s s' [] xs ys"
proof -
  obtain r s' zs ws where g: "getLastElement t s = Inr (r, s')" "xs = zs @ ws"
    "searched t s s' zs ws ys" "lastResult (nodeAt s) zs r" by (rule getLastElement_list[OF inv])
  from inv obtain l where ok: "list_ok (nodeBytes s) t l (nodeAt s) xs ys" by (rule tl_invE)
  have geom: "\<exists>nd. nodeAt s n = Some nd \<and> node_geom (nodeBytes s) n nd" if "n \<in> set zs" for n
    using list_ok_node[OF ok, of n] that g(2) by (metis UnI1 node_ok_geom set_append)
  show thesis
  proof (rule lastResult_cases[OF g(4) geom])
    assume "zs = []" "r = 0"
    then show thesis using that g by simp
  next
    fix vs n nd i assume c: "zs = vs @ [n]" "nodeAt s n = Some nd" "i \<in> used nd"
    have nok: "node_ok (nodeBytes s) t (tl_elementSize l) n nd" using list_okD(3)[OF ok, of n] c g(2) by simp
    have "n_numElements nd = 0" using e[of n] c g(2) by simp
    then have "used nd = {}" using node_okD(6)[OF nok] finite_subset[of "used nd" "{..<n_capacity nd}"] used_less[of _ nd] by auto
    then show thesis using c(3) by simp
  qed
qed

lemma cleanupNode_empty:
  assumes inv: "tl_inv s t xs ys" and e: "\<And>m. m \<in> set xs \<Longrightarrow> n_numElements (the (nodeAt s m)) = 0"
    and n: "n \<in> set xs" "nodeAt s n = Some nd"
  obtains s' where "cleanupNode n t s = Inr (putNode n (nd\<lparr>n_active := False, n_dirty := False, n_firstKnownFree := 0\<rparr>) s')"
    "searched t s s' [] xs ys"
proof -
  from inv obtain l where ok: "list_ok (nodeBytes s) t l (nodeAt s) xs ys" by (rule tl_invE)
  have nok: "node_ok (nodeBytes s) t (tl_elementSize l) n nd" using list_okD(3)[OF ok, of n] n by simp
  note E = node_okD[OF nok]
  have n0: "n_numElements nd = 0" using e[OF n(1)] n(2) by simp
  have cap: "0 < n_capacity nd" using E(1) by (simp add: node_geom_def)
  obtain s' where g: "getLastElement t s = Inr (0, s')" "searched t s s' [] xs ys"
    using getLastElement_empty[OF inv e] by blast
  have n': "nodeAt s' n = Some (nd\<lparr>n_active := False\<rparr>)" using g(2) n by (auto simp: searched_def)
  obtain p where ff: "pumaFirstIndexOfValue (n_freeMask nd) MASKFREE = Inr p"
    using fm.first_free[of "n_freeMask nd"] E(4,5) cap by (metis (no_types))
  have "cleanupLoop (Suc (n_capacity nd)) n t s = Inr s'"
    using n(2) n0 cap ff g(1) by (cases p) (simp add: cleanupLoop.simps(2) mem_simps)
  then have "cleanupNode n t s = Inr (putNode n (nd\<lparr>n_active := False, n_dirty := False, n_firstKnownFree := 0\<rparr>) s')"
    using n(2) n' n0 by (simp add: cleanupNode_def mem_simps)
  then show thesis using g(2) by (rule that)
qed

section \<open>The allocation and a kernel after it\<close>

theorem stranded_after_pumalloc:
  fixes s :: "'e mem"
  assumes inv: "tl_inv s t [b, n] ys" and n: "nodeAt s n = Some nd"
    and e: "n_numElements (the (nodeAt s b)) = 0" "n_numElements nd = 0"
    and full: "n_capacity nd \<le> n_firstKnownFree nd"
  shows "\<exists>s' l'. pumallocOnThreadList ma t s = Inr (slotAddr nd 0, s') \<and> tlists s' t = Some l'
    \<and> tl_numElements l' = 1 \<and> slotAddr nd 0 \<in> liveOf (the (nodeAt s' n))
    \<and> (\<forall>(k :: ('e, 'x) kernel) x. runKernelThread k t x s' = Inr (x, s'))"
proof -
  from inv obtain l where B: "cfg_ok (nodeBytes s)" and l: "tlists s t = Some l"
    and ok: "list_ok (nodeBytes s) t l (nodeAt s) [b, n] ys" by (rule tl_invE)
  have nok: "node_ok (nodeBytes s) t (tl_elementSize l) n nd" using list_okD(3)[OF ok, of n] n by simp
  note E = node_okD[OF nok]
  have bn: "b \<noteq> n" "n \<noteq> 0" "b \<noteq> 0" using list_okD(1)[OF ok] list_ok_nz[OF ok] by auto
  have cap: "0 < n_capacity nd" using E(1) by (simp add: node_geom_def)
  have tail: "tl_tail l = n" using list_okD(9)[OF ok] by simp
  let ?s1 = "putNode n (nd\<lparr>n_firstKnownFree := sz_add (n_firstKnownFree nd) 1\<rparr>) s"
  let ?nd2 = "nd\<lparr>n_active := False, n_dirty := False, n_firstKnownFree := 0\<rparr>"
  obtain s2 where cl: "cleanupNode n t s = Inr (putNode n ?nd2 s2)" and sr: "searched t s s2 [] [b, n] ys"
    by (rule cleanupNode_empty[OF inv, of n nd]) (use e n in auto)
  have "?s1 = setF n (sz_add (n_firstKnownFree nd) 1) s" by (rule setF_putNode[OF n, symmetric])
  then have cl1: "cleanupNode n t ?s1 = Inr (putNode n ?nd2 s2)" using cl by simp
  from sr have S: "tl_inv s2 t [] (b # n # ys)" "nodeAt s2 b = Some ((the (nodeAt s b))\<lparr>n_active := False\<rparr>)"
    by (auto simp: searched_def)
  from S(1) obtain l2 where l2: "tlists s2 t = Some l2"
    and ok2: "list_ok (nodeBytes s2) t l2 (nodeAt s2) [] (b # n # ys)" by (rule tl_invE)
  have L: "tl_head l2 = b" "tl_numElements l2 = 0" using list_okD(8,11)[OF ok2] by simp_all
  let ?nd3 = "nd\<lparr>n_dirty := False, n_firstKnownFree := 1, n_active := True\<rparr>"
  let ?l3 = "l2\<lparr>tl_numNodes := sz_add (tl_numNodes l2) 1, tl_tail := n\<rparr>"
  let ?s3 = "putNode n ?nd3 (putList t ?l3 s2)"
  have g3: "node_geom (nodeBytes s) n ?nd3" "node_mask_ok ?nd3"
    using E(1,4,5) by (simp_all add: node_geom_def node_mask_ok_def)
  have thr: "n_threadList ?nd3 = t" using E by simp
  obtain fm where al: "allocElementOnNode n (slotAddr ?nd3 0) ?s3
      = Inr (putList t (?l3\<lparr>tl_numElements := 1\<rparr>) (putNode n (?nd3\<lparr>n_freeMask := fm, n_numElements := 1\<rparr>) ?s3))"
    "usedSlots (maskBit fm) (n_capacity ?nd3) = insert 0 (used ?nd3)"
    by (rule allocElementOnNode_effect[of ?s3 n ?nd3 "nodeBytes s" 0 ?l3])
      (use g3 thr cap e(2) L(2) in \<open>auto simp: mem_simps\<close>)
  let ?s' = "putList t (?l3\<lparr>tl_numElements := 1\<rparr>) (putNode n (?nd3\<lparr>n_freeMask := fm, n_numElements := 1\<rparr>) ?s3)"
  have ge: "getElement ?nd3 0 = slotAddr nd 0"
    using getElement_slot[OF g3(1), of 0] cap by simp
  have nn: "putNode n ?nd3 (putList t ?l3 (putNode n (?nd2\<lparr>n_firstKnownFree := 1\<rparr>) (putNode n ?nd2 s2))) = ?s3"
    by (simp add: putNode_putList)
  have "claimSlot t n 0 (putNode n (?nd2\<lparr>n_firstKnownFree := 1\<rparr>) (putNode n ?nd2 s2)) = Inr (slotAddr nd 0, ?s')"
    by (subst claimSlot_eq[where nd = "?nd2\<lparr>n_firstKnownFree := 1\<rparr>" and l = l2])
      (use l2 al(1) ge nn in \<open>simp_all add: mem_simps getElement_def\<close>)
  then have "allocOnTail t n s = Inr (slotAddr nd 0, ?s')"
    using n full cl1 e(2) by (simp add: allocOnTail_def mem_simps sz_add_exact)
  moreover have "pumallocOnThreadList ma t s = allocOnTail t n s"
    using l tail bn n e(2) cap by (simp add: pumallocOnThreadList_def mem_simps)
  ultimately have run: "pumallocOnThreadList ma t s = Inr (slotAddr nd 0, ?s')" by simp
  have l': "tlists ?s' t = Some (?l3\<lparr>tl_numElements := 1\<rparr>)" by (simp add: mem_simps)
  have b': "nodeAt ?s' b = Some ((the (nodeAt s b))\<lparr>n_active := False\<rparr>)" using S(2) bn by (simp add: mem_simps)
  have "runKernelThread k t x ?s' = Inr (x, ?s')" for k :: "('e, 'x) kernel" and x
    unfolding runKernelThread_def kernelNodes.simps
    using l' b' L(1) bn by (simp add: mem_simps)
  then have idle: "\<forall>(k :: ('e, 'x) kernel) x. runKernelThread k t x ?s' = Inr (x, ?s')" by (intro allI)
  have "slotAddr nd 0 \<in> liveOf (the (nodeAt ?s' n))"
    using al(2) by (auto simp: mem_simps liveOf_def used_def slotAddr_def)
  moreover have "tl_numElements (?l3\<lparr>tl_numElements := 1\<rparr>) = 1" by simp
  ultimately show ?thesis using run l' idle by blast
qed

section \<open>A list of two nodes that were full and were emptied\<close>

definition memE :: "nat mem" where
  "memE = mem0\<lparr>nodes := fmap_of_list
       [(nodeA, demoNode nodeA 0 0 nodeB (- 1) 0 True),
        (nodeB, demoNode nodeB 1 nodeA 0 (- 1) 0 True)],
     tlists := (\<lambda>a. if a = listAddr then Some (emptyList\<lparr>tl_head := nodeA, tl_tail := nodeB,
       tl_numElements := 0, tl_numNodes := 2\<rparr>) else None)\<rparr>"

abbreviation emptyA :: pumaNode where
  "emptyA \<equiv> demoNode 8192 0 0 16384 (- 1) 0 True"

abbreviation emptyB :: pumaNode where
  "emptyB \<equiv> demoNode 16384 1 8192 0 (- 1) 0 True"

lemma memE_nodes: "nodeAt memE 8192 = Some emptyA" "nodeAt memE 16384 = Some emptyB"
  by (simp_all add: memE_def nodeA_def nodeB_def fmlookup_of_list)

lemma emptied_mask: "used (demoNode a idx prv nxt (- 1) num dirty) = {}"
  by (auto simp: demo_used less_two)

lemma memE_inv: "tl_inv memE listAddr [8192, 16384] []"
proof -
  let ?l = "emptyList\<lparr>tl_head := nodeA, tl_tail := nodeB, tl_numElements := 0, tl_numNodes := 2\<rparr>"
  have l: "tlists memE listAddr = Some ?l" "nodeBytes memE = 8192"
    by (simp_all add: memE_def mem0_def nodeBytes_def sz_mul_def)
  have A: "node_ok 8192 listAddr 4000 8192 emptyA" "node_ok 8192 listAddr 4000 16384 emptyB"
    by (rule demo_node_ok[where U = "{}"]; simp add: emptied_mask)+
  have f: "n_active emptyA" "n_active emptyB" "n_index emptyA = 0" "n_index emptyB = 1"
    "n_prev emptyA = 0" "n_next emptyA = 16384" "n_prev emptyB = 8192" "n_next emptyB = 0"
    "n_numElements emptyA = 0" "n_numElements emptyB = 0"
    by (simp_all add: demoNode_def)
  have "list_ok 8192 listAddr ?l (nodeAt memE) [8192, 16384] []"
    by (rule list_okI) (use A f in \<open>auto simp: memE_nodes emptyList_def nodeA_def nodeB_def\<close>)
  then show ?thesis using l demo_cfg by (simp add: tl_inv_def)
qed

end
