(* ===== verification/EmptyList.thy ===== *)
theory EmptyList
  imports PumaAlloc
begin

text \<open>
  \<open>_emptyThreadList\<close> of \<open>src/internal/pumathreadlist.c\<close>: all the nodes of a list are freed, from its
  head. The loop has fuel, one unit for a node; \<open>emptyThreadList\<close> starts it with one more than the
  number of nodes of the memory, and \<open>emptyLoop_ok\<close> shows that it is not used up.
\<close>

section \<open>Operations\<close>

fun emptyLoop :: "nat \<Rightarrow> addr \<Rightarrow> 'e mem \<Rightarrow> c_fault + 'e mem" where
  "emptyLoop 0 node s = Inl OutOfFuel"
| "emptyLoop (Suc fuel) node s =
     (if node \<noteq> 0
      then bindE (derefNode s node) (\<lambda>nd.
           let nextNode = n_next nd
           in bindE (freePumaNode node s) (\<lambda>s1. emptyLoop fuel nextNode s1))
      else Inr s)"

declare emptyLoop.simps [simp del]

definition emptyThreadList :: "addr \<Rightarrow> 'e mem \<Rightarrow> c_fault + 'e mem" where
  "emptyThreadList t s = bindE (derefList s t) (\<lambda>l. emptyLoop (Suc (fcard (fmdom (nodes s)))) (tl_head l) s)"

section \<open>What it frees and what it leaves\<close>

lemma freePumaNode_head:
  assumes lk: "links (nodeAt s) 0 (n # ns) 0" and d: "distinct (n # ns)" "0 \<notin> set (n # ns)"
    and nd: "nodeAt s n = Some nd" "n_threadList nd = t" and l: "tlists s t = Some l" "tl_head l = n"
  obtains s' where "freePumaNode n s = Inr s'" "links (nodeAt s') 0 ns 0" "nodeAt s' n = None"
    "\<And>m. m \<noteq> n \<Longrightarrow> m \<notin> set ns \<Longrightarrow> nodeAt s' m = nodeAt s m"
    "\<And>m md. nodeAt s m = Some md \<Longrightarrow> m \<noteq> n \<Longrightarrow> \<exists>p. nodeAt s' m = Some (md\<lparr>n_prev := p\<rparr>)"
    "tlists s' = (tlists s)(t \<mapsto> l\<lparr>tl_head := firstOr ns 0, tl_tail := (if n = tl_tail l then 0 else tl_tail l)\<rparr>)"
    "cells s' = cells s"
proof -
  have p: "n_prev nd = 0" "n_next nd = firstOr ns 0" using lk nd(1) by auto
  let ?l = "l\<lparr>tl_tail := (if n = tl_tail l then 0 else tl_tail l), tl_head := firstOr ns 0\<rparr>"
  have le: "l\<lparr>tl_head := firstOr ns 0, tl_tail := (if n = tl_tail l then 0 else tl_tail l)\<rparr> = ?l" by simp
  show thesis
  proof (cases ns)
    case Nil
    have run: "freePumaNode n s = Inr (dropNode n (putList t ?l s))"
      using nd l p Nil by (simp add: freePumaNode_def mem_simps)
    have same: "\<exists>p. md = md\<lparr>n_prev := p\<rparr>" for md :: pumaNode by (rule exI[of _ "n_prev md"]) simp
    show thesis by (rule that[OF run]) (use Nil le same in \<open>auto simp: mem_simps\<close>)
  next
    case (Cons y ms)
    obtain ny where ny: "nodeAt s y = Some ny" "n_prev ny = n" "n_next ny = firstOr ms 0" and lm: "links (nodeAt s) y ms 0"
      using lk Cons by auto
    have yn: "y \<noteq> n" "y \<noteq> 0" "y \<notin> set ms" "n \<notin> set ms" using d Cons by auto
    let ?s' = "dropNode n (putNode y (ny\<lparr>n_prev := 0\<rparr>) (putList t ?l s))"
    have run: "freePumaNode n s = Inr ?s'"
      using nd l p Cons ny yn by (simp add: freePumaNode_def mem_simps)
    have "links (nodeAt ?s') y ms 0 = links (nodeAt s) y ms 0"
      by (rule links_frame) (use yn in \<open>auto simp: mem_simps\<close>)
    then have lk': "links (nodeAt ?s') 0 ns 0" using lm ny yn Cons by (simp add: mem_simps)
    have "\<exists>p. nodeAt ?s' m = Some (md\<lparr>n_prev := p\<rparr>)" if "nodeAt s m = Some md" "m \<noteq> n" for m md
      using that ny(1) by (cases "m = y") (auto simp: mem_simps intro: exI[of _ "n_prev md"])
    then show thesis by (intro that[OF run lk']) (use Cons le in \<open>auto simp: mem_simps\<close>)
  qed
qed

lemma emptyLoop_ok:
  assumes "links (nodeAt s) 0 ns 0" "distinct ns" "0 \<notin> set ns" "\<And>n. n \<in> set ns \<Longrightarrow> n_threadList (the (nodeAt s n)) = t"
    and "tlists s t = Some l" "tl_head l = firstOr ns 0" "length ns < fuel"
  shows "\<exists>s'. emptyLoop fuel (firstOr ns 0) s = Inr s' \<and> (\<forall>a. nodeAt s' a = (if a \<in> set ns then None else nodeAt s a))
    \<and> tlists s' = (tlists s)(t \<mapsto> l\<lparr>tl_head := 0, tl_tail := (if tl_tail l \<in> set ns then 0 else tl_tail l)\<rparr>)
    \<and> cells s' = cells s"
  using assms
proof (induction ns arbitrary: s l fuel)
  case Nil
  then have "l\<lparr>tl_head := 0\<rparr> = l" by (cases l) simp
  then show ?case using Nil.prems by (cases fuel) (auto simp: emptyLoop.simps fun_upd_idem)
next
  case (Cons n ns)
  note p = Cons.prems
  obtain f where f: "fuel = Suc f" using p(7) by (cases fuel) simp_all
  obtain nd where nd: "nodeAt s n = Some nd" "n_next nd = firstOr ns 0" using p(1) by auto
  have t: "n_threadList nd = t" using p(4)[of n] nd(1) by simp
  obtain s1 where s1: "freePumaNode n s = Inr s1" "links (nodeAt s1) 0 ns 0" "nodeAt s1 n = None"
    "\<And>m. m \<noteq> n \<Longrightarrow> m \<notin> set ns \<Longrightarrow> nodeAt s1 m = nodeAt s m"
    "\<And>m md. nodeAt s m = Some md \<Longrightarrow> m \<noteq> n \<Longrightarrow> \<exists>p. nodeAt s1 m = Some (md\<lparr>n_prev := p\<rparr>)"
    "tlists s1 = (tlists s)(t \<mapsto> l\<lparr>tl_head := firstOr ns 0, tl_tail := (if n = tl_tail l then 0 else tl_tail l)\<rparr>)"
    "cells s1 = cells s"
    by (rule freePumaNode_head[OF p(1,2,3) nd(1) t p(5)]) (use p(6) in auto)
  let ?l1 = "l\<lparr>tl_head := firstOr ns 0, tl_tail := (if n = tl_tail l then 0 else tl_tail l)\<rparr>"
  have th: "n_threadList (the (nodeAt s1 m)) = t" if m: "m \<in> set ns" for m
  proof -
    have "m \<noteq> n" using p(2) m by auto
    moreover obtain md where "nodeAt s m = Some md" using links_alloc[OF p(1), of m] m by auto
    ultimately show ?thesis using s1(5)[of m md] p(4)[of m] m by auto
  qed
  have d: "distinct ns" "0 \<notin> set ns" "n \<noteq> 0" "n \<notin> set ns" using p(2,3) by auto
  obtain s' where s': "emptyLoop f (firstOr ns 0) s1 = Inr s'"
    "\<And>a. nodeAt s' a = (if a \<in> set ns then None else nodeAt s1 a)"
    "tlists s' = (tlists s1)(t \<mapsto> ?l1\<lparr>tl_head := 0, tl_tail := (if tl_tail ?l1 \<in> set ns then 0 else tl_tail ?l1)\<rparr>)"
    "cells s' = cells s1"
  proof -
    have a: "tlists s1 t = Some ?l1" "tl_head ?l1 = firstOr ns 0" "length ns < f" using s1(6) p(7) f by simp_all
    show thesis using Cons.IH[OF s1(2) d(1,2) th a] that by blast
  qed
  have run: "emptyLoop fuel (firstOr (n # ns) 0) s = Inr s'"
    using f nd s1(1) s'(1) d(3) by (simp add: emptyLoop.simps mem_simps Let_def)
  have "nodeAt s' a = (if a \<in> set (n # ns) then None else nodeAt s a)" for a
    using s'(2)[of a] s1(3) s1(4)[of a] by (cases "a = n") auto
  moreover have "tlists s' = (tlists s)(t \<mapsto> l\<lparr>tl_head := 0, tl_tail := (if tl_tail l \<in> set (n # ns) then 0 else tl_tail l)\<rparr>)"
    using s'(3) s1(6) d(2) by auto
  ultimately show ?case using run s'(4) s1(7) by auto
qed

text \<open>Every node is freed, and the list has no head and tail; its counters are those of before.\<close>

theorem emptyThreadList_ok:
  assumes inv: "tl_inv s t xs ys" and l: "tlists s t = Some l"
  shows "\<exists>s'. emptyThreadList t s = Inr s' \<and> (\<forall>a. nodeAt s' a = (if a \<in> set xs \<union> set ys then None else nodeAt s a))
    \<and> tlists s' = (tlists s)(t \<mapsto> l\<lparr>tl_head := 0, tl_tail := 0\<rparr>) \<and> cells s' = cells s"
proof -
  from inv l have ok: "list_ok (nodeBytes s) t l (nodeAt s) xs ys" by (auto simp: tl_inv_def)
  note D = list_okD[OF ok]
  have nz: "0 \<notin> set (xs @ ys)" using list_ok_nz[OF ok, of 0] by auto
  have th: "n_threadList (the (nodeAt s n)) = t" if "n \<in> set (xs @ ys)" for n
    using node_okD[OF D(3)[of n]] that by simp
  have sub: "set (xs @ ys) \<subseteq> fset (fmdom (nodes s))"
    using links_alloc[OF D(2)] by (force simp: fmlookup_dom_iff)
  have "length (xs @ ys) = card (set (xs @ ys))" using distinct_card[OF D(1)] by simp
  also have "\<dots> \<le> fcard (fmdom (nodes s))" using card_mono[OF _ sub] by (simp add: fcard.rep_eq)
  finally have fuel: "length (xs @ ys) < Suc (fcard (fmdom (nodes s)))" by simp
  have tail: "tl_tail l = 0 \<or> tl_tail l \<in> set (xs @ ys)"
    unfolding D(9) using last_in_set[of xs] by (cases ys) auto
  then have tl: "(if tl_tail l \<in> set (xs @ ys) then 0 else tl_tail l) = 0" by auto
  show ?thesis
    using emptyLoop_ok[OF D(2,1) nz th l D(8) fuel] l unfolding tl
    by (auto simp: emptyThreadList_def mem_simps D(8))
qed

end
