(* ===== verification/Speeds.thy ===== *)
theory Speeds
  imports Complex_Main
begin

text \<open>
  The targets of a balancing step: the second loop of \<open>_autobalanceThreadLoad\<close> and the conversion to
  \<open>size_t\<close> (\<open>src/internal/pumabalance.c\<close>), over exact numbers. The list has the sums of the last run
  times of all lists. A quotient by 0 is no number; nor is a conversion of a negative number defined.
\<close>

definition sumRunTimes :: "real list \<Rightarrow> real" where
  "sumRunTimes lastN = foldl (\<lambda>acc t. acc + t) 0 lastN"

definition relativeSpeeds :: "nat \<Rightarrow> real list \<Rightarrow> real list option" where
  "relativeSpeeds numLists lastN =
     (let lastNRunTime = sumRunTimes lastN
      in if numLists = 0 \<or> lastNRunTime = 0 then None
         else Some (map (\<lambda>t. (real numLists + 1) / real numLists - t / lastNRunTime) lastN))"

definition targetNodes :: "real \<Rightarrow> nat \<Rightarrow> nat option" where
  "targetNodes relativeSpeed avgNodes =
     (let x = relativeSpeed * real avgNodes in if x < 0 then None else Some (nat \<lfloor>x\<rfloor>))"

lemma sumRunTimes_sum: "sumRunTimes ts = sum_list ts"
proof -
  have "foldl (\<lambda>acc t. acc + t) a ts = a + sum_list ts" for a by (induction ts arbitrary: a) simp_all
  then show ?thesis by (simp add: sumRunTimes_def)
qed

lemma sum_list_shares:
  fixes ts :: "real list"
  assumes "T \<noteq> 0"
  shows "sum_list (map (\<lambda>t. c - t / T) ts) = real (length ts) * c - sum_list ts / T"
  using assms by (induction ts) (simp_all add: algebra_simps add_divide_distrib)

text \<open>The relative speeds lie between \<open>1 / n\<close> and \<open>1 + 1 / n\<close>, and their sum is the number of lists.\<close>

lemma relativeSpeeds_ok:
  assumes n: "length ts = n" "0 < n" and t: "\<And>t. t \<in> set ts \<Longrightarrow> 0 \<le> t" and pos: "0 < sum_list ts"
  obtains sp where "relativeSpeeds n ts = Some sp" "length sp = n" "sum_list sp = real n"
    "\<And>x. x \<in> set sp \<Longrightarrow> 1 / real n \<le> x \<and> x \<le> 1 + 1 / real n"
proof -
  let ?f = "\<lambda>t. (real n + 1) / real n - t / sum_list ts"
  have c: "(real n + 1) / real n = 1 + 1 / real n" using n(2) by (simp add: field_simps)
  have "relativeSpeeds n ts = Some (map ?f ts)"
    using n(2) pos by (simp add: relativeSpeeds_def sumRunTimes_sum Let_def)
  moreover have "sum_list (map ?f ts) = real n"
    using sum_list_shares[of "sum_list ts" "(real n + 1) / real n" ts] pos n by (simp add: field_simps)
  moreover have "1 / real n \<le> ?f t \<and> ?f t \<le> 1 + 1 / real n" if "t \<in> set ts" for t
  proof -
    have "t \<le> sum_list ts" using member_le_sum_list[of t ts] that t by blast
    then have "t / sum_list ts \<le> 1" "0 \<le> t / sum_list ts" using pos t[OF that] by simp_all
    then show ?thesis unfolding c by linarith
  qed
  ultimately show thesis using that[of "map ?f ts"] n(1) by auto
qed

text \<open>No target exceeds twice the average, and together they are no more than there are nodes.\<close>

theorem targets_fit:
  assumes n: "length ts = n" "0 < n" and t: "\<And>t. t \<in> set ts \<Longrightarrow> 0 \<le> t" and pos: "0 < sum_list ts"
  shows "\<exists>sp targets. relativeSpeeds n ts = Some sp \<and> map (\<lambda>x. targetNodes x (allNodes div n)) sp = map Some targets
    \<and> length targets = n \<and> sum_list targets \<le> allNodes \<and> (\<forall>k \<in> set targets. k \<le> 2 * (allNodes div n))"
proof -
  obtain sp where sp: "relativeSpeeds n ts = Some sp" "length sp = n" "sum_list sp = real n"
    "\<And>x. x \<in> set sp \<Longrightarrow> 1 / real n \<le> x \<and> x \<le> 1 + 1 / real n" by (rule relativeSpeeds_ok[OF assms]) auto
  let ?avg = "allNodes div n" and ?t = "\<lambda>x. nat \<lfloor>x * real (allNodes div n)\<rfloor>"
  have nn: "0 \<le> x" "x \<le> 2" if "x \<in> set sp" for x
  proof -
    have "0 < 1 / real n" "1 / real n \<le> 1" using n(2) by simp_all
    then show "0 \<le> x" "x \<le> 2" using sp(4)[OF that] by linarith+
  qed
  have le: "real (?t x) \<le> x * real ?avg" if "x \<in> set sp" for x
  proof -
    have "0 \<le> x * real ?avg" using nn(1)[OF that] by simp
    then show ?thesis by simp
  qed
  have "real (sum_list (map ?t xs)) \<le> sum_list xs * real ?avg" if "set xs \<subseteq> set sp" for xs
    using that
  proof (induction xs)
    case (Cons x xs)
    then have "real (?t x) \<le> x * real ?avg" "real (sum_list (map ?t xs)) \<le> sum_list xs * real ?avg" using le by auto
    then show ?case by (simp add: distrib_right)
  qed simp
  then have "real (sum_list (map ?t sp)) \<le> real (n * ?avg)" using sp(3) by fastforce
  then have "sum_list (map ?t sp) \<le> n * ?avg" by (simp only: of_nat_le_iff)
  also have "\<dots> \<le> allNodes" by simp
  finally have sum: "sum_list (map ?t sp) \<le> allNodes" .
  have "?t x \<le> 2 * ?avg" if "x \<in> set sp" for x
  proof -
    have "x * real ?avg \<le> 2 * real ?avg" using nn(2)[OF that] by (intro mult_right_mono) simp_all
    then have "real (?t x) \<le> real (2 * ?avg)" using le[OF that] by simp
    then show ?thesis by (simp only: of_nat_le_iff)
  qed
  then have "\<forall>k \<in> set (map ?t sp). k \<le> 2 * ?avg" by simp
  moreover have "map (\<lambda>x. targetNodes x ?avg) sp = map Some (map ?t sp)"
  proof -
    have "targetNodes x ?avg = Some (?t x)" if "x \<in> set sp" for x
    proof -
      have "\<not> x * real ?avg < 0" using nn(1)[OF that] by (simp add: not_less)
      then show ?thesis unfolding targetNodes_def Let_def by (rule if_not_P)
    qed
    then show ?thesis by simp
  qed
  ultimately show ?thesis using sp(1,2) sum by (intro exI[of _ sp] exI[of _ "map ?t sp"]) simp
qed

text \<open>Before the first kernel has run the quotient is 0 by 0.\<close>

theorem no_speeds_at_first: "relativeSpeeds n (replicate n 0) = None"
  by (simp add: relativeSpeeds_def sumRunTimes_sum sum_list_replicate)

end
