(* ===== verification/Barrier.thy ===== *)
theory Barrier
  imports PumaPrelude
begin

text \<open>
  The replacement of \<open>pthread_barrier_t\<close> on macOS: \<open>include/internal/pthreadbarrier.h\<close>. The mutex makes
  a call of \<open>pthread_barrier_wait\<close> atomic up to its wait on the condition variable. POSIX lets such a
  wait end without a broadcast; whether it does is a parameter of the steps.
\<close>

section \<open>Operations\<close>

datatype barrierPc = Outside | Waiting | Signalled

text \<open>\<open>arrived\<close> and \<open>passed\<close> count the calls and the returns of \<open>pthread_barrier_wait\<close> by each thread.\<close>

record barrier =
  bcount :: int
  tripCount :: int
  threadAt :: "nat \<Rightarrow> barrierPc"
  arrived :: "nat \<Rightarrow> nat"
  passed :: "nat \<Rightarrow> nat"

text \<open>The status of the two initialisations is a parameter; \<open>unsigned int\<close> goes to \<open>int\<close>.\<close>

definition pthread_barrier_init :: "int \<Rightarrow> int \<Rightarrow> 32 word \<Rightarrow> int \<times> barrier option" where
  "pthread_barrier_init mutexStatus condStatus cnt =
     (if cnt = 0 then (- 1, None)
      else if mutexStatus < 0 then (- 1, None)
      else if condStatus < 0 then (- 1, None)
      else (0, Some \<lparr>bcount = 0, tripCount = sint cnt, threadAt = (\<lambda>_. Outside), arrived = (\<lambda>_. 0), passed = (\<lambda>_. 0)\<rparr>))"

text \<open>The two branches of \<open>pthread_barrier_wait\<close> up to the return or the wait.\<close>

definition lastArrives :: "nat \<Rightarrow> barrier \<Rightarrow> barrier" where
  "lastArrives t b = b\<lparr>bcount := 0, threadAt := (\<lambda>u. if threadAt b u = Waiting then Signalled else threadAt b u),
     arrived := (arrived b)(t := Suc (arrived b t)), passed := (passed b)(t := Suc (passed b t))\<rparr>"

definition startsWait :: "nat \<Rightarrow> barrier \<Rightarrow> barrier" where
  "startsWait t b = b\<lparr>bcount := bcount b + 1, threadAt := (threadAt b)(t := Waiting),
     arrived := (arrived b)(t := Suc (arrived b t))\<rparr>"

definition leaves :: "nat \<Rightarrow> barrier \<Rightarrow> barrier" where
  "leaves t b = b\<lparr>threadAt := (threadAt b)(t := Outside), passed := (passed b)(t := Suc (passed b t))\<rparr>"

inductive barrierStep :: "bool \<Rightarrow> nat \<Rightarrow> barrier \<Rightarrow> barrier \<Rightarrow> bool" for spurious N where
  bar_last: "t < N \<Longrightarrow> threadAt b t = Outside \<Longrightarrow> tripCount b \<le> bcount b + 1 \<Longrightarrow> barrierStep spurious N b (lastArrives t b)"
| bar_wait: "t < N \<Longrightarrow> threadAt b t = Outside \<Longrightarrow> \<not> tripCount b \<le> bcount b + 1 \<Longrightarrow> barrierStep spurious N b (startsWait t b)"
| bar_wake: "t < N \<Longrightarrow> threadAt b t = Signalled \<Longrightarrow> barrierStep spurious N b (leaves t b)"
| bar_spurious: "spurious \<Longrightarrow> t < N \<Longrightarrow> threadAt b t = Waiting \<Longrightarrow> barrierStep spurious N b (leaves t b)"

inductive barrierReachable :: "bool \<Rightarrow> nat \<Rightarrow> barrier \<Rightarrow> barrier \<Rightarrow> bool" for spurious N b0 where
  bar_start: "barrierReachable spurious N b0 b0"
| bar_step: "barrierReachable spurious N b0 b \<Longrightarrow> barrierStep spurious N b b' \<Longrightarrow> barrierReachable spurious N b0 b'"

section \<open>A barrier for as many threads as its count\<close>

text \<open>After \<open>r\<close> full rounds: a thread waits in round \<open>r + 1\<close>, or is to leave round \<open>r\<close>, or left it.\<close>

definition threadInRound :: "nat \<Rightarrow> barrier \<Rightarrow> nat \<Rightarrow> bool" where
  "threadInRound r b t \<longleftrightarrow> (case threadAt b t of
       Waiting \<Rightarrow> arrived b t = Suc r \<and> passed b t = r
     | Signalled \<Rightarrow> arrived b t = r \<and> Suc (passed b t) = r
     | Outside \<Rightarrow> arrived b t = r \<and> passed b t = r)"

definition barrierInv :: "nat \<Rightarrow> nat \<Rightarrow> barrier \<Rightarrow> bool" where
  "barrierInv N r b \<longleftrightarrow> tripCount b = int N \<and> bcount b = int (card {t. t < N \<and> threadAt b t = Waiting})
     \<and> bcount b < tripCount b \<and> (\<forall>t<N. threadInRound r b t)"

lemma waiting_others:
  assumes "t < N" "\<not> P t" "N \<le> card {u. u < N \<and> P u} + 1" "u < N" "u \<noteq> t"
  shows "P u"
proof (rule ccontr)
  assume "\<not> P u"
  then have "{v. v < N \<and> P v} \<subseteq> {..<N} - {t, u}" using assms(2) by auto
  then have "card {v. v < N \<and> P v} \<le> card ({..<N} - {t, u})" by (intro card_mono) auto
  also have "\<dots> = N - 2" using assms(1,4,5) by (subst card_Diff_subset) auto
  finally show False using assms(1,3-5) by linarith
qed

lemma barrierInv_step:
  assumes step: "barrierStep False N b b'" and inv: "barrierInv N r b"
  shows "\<exists>r'. barrierInv N r' b'"
  using step
proof cases
  case (bar_last t)
  have n: "N \<le> card {u. u < N \<and> threadAt b u = Waiting} + 1" using inv bar_last(4) by (simp add: barrierInv_def)
  have oth: "threadAt b u = Waiting" if "u < N" "u \<noteq> t" for u
    using waiting_others[of t N "\<lambda>u. threadAt b u = Waiting" u] bar_last(2,3) n that by simp
  have "threadInRound (Suc r) b' u" if "u < N" for u
    using inv bar_last(1,3) oth[OF that] that unfolding barrierInv_def threadInRound_def
    by (cases "u = t") (auto simp: lastArrives_def split: barrierPc.splits)
  moreover have "{u. u < N \<and> threadAt b' u = Waiting} = {}" using bar_last(1) by (auto simp: lastArrives_def)
  ultimately show ?thesis using inv bar_last(1,2) unfolding barrierInv_def by (intro exI[of _ "Suc r"]) (simp add: lastArrives_def)
next
  case (bar_wait t)
  have "{u. u < N \<and> threadAt b' u = Waiting} = insert t {u. u < N \<and> threadAt b u = Waiting}"
    using bar_wait(1,2) by (auto simp: startsWait_def)
  then have c: "card {u. u < N \<and> threadAt b' u = Waiting} = Suc (card {u. u < N \<and> threadAt b u = Waiting})"
    using bar_wait(3) by simp
  have "threadInRound r b' u" if "u < N" for u
    using inv bar_wait(1,3) that unfolding barrierInv_def threadInRound_def
    by (cases "u = t") (auto simp: startsWait_def split: barrierPc.splits)
  then show ?thesis using inv c bar_wait(1,4) unfolding barrierInv_def by (intro exI[of _ r]) (simp add: startsWait_def)
next
  case (bar_wake t)
  have "{u. u < N \<and> threadAt b' u = Waiting} = {u. u < N \<and> threadAt b u = Waiting}"
    using bar_wake(1,3) by (auto simp: leaves_def)
  moreover have "threadInRound r b' u" if "u < N" for u
    using inv bar_wake(1,3) that unfolding barrierInv_def threadInRound_def
    by (cases "u = t") (auto simp: leaves_def split: barrierPc.splits)
  ultimately show ?thesis using inv bar_wake(1) unfolding barrierInv_def by (intro exI[of _ r]) (simp add: leaves_def)
qed simp

lemma barrierInv_reachable:
  assumes "barrierReachable False N b0 b" "pthread_barrier_init m c (word_of_nat N) = (st, Some b0)" "N < 2 ^ 31"
  shows "\<exists>r. barrierInv N r b"
  using assms(1)
proof (induction rule: barrierReachable.induct)
  case bar_start
  have "sint (word_of_nat N :: 32 word) = int N" using assms(3) by (simp add: signed_of_nat signed_take_bit_int_eq_self)
  then have "barrierInv N 0 b0"
    using assms(2) by (cases "N = 0") (auto simp: pthread_barrier_init_def barrierInv_def threadInRound_def split: if_splits)
  then show ?case by blast
next
  case (bar_step b b')
  then show ?case using barrierInv_step by blast
qed

text \<open>The barrier separates rounds: no thread returns from its \<open>k\<close>-th wait before every thread has called it \<open>k\<close> times.\<close>

definition separates :: "nat \<Rightarrow> barrier \<Rightarrow> bool" where
  "separates N b \<longleftrightarrow> (\<forall>t<N. \<forall>u<N. passed b t \<le> arrived b u)"

lemma barrierInv_separates:
  assumes "barrierReachable False N b0 b" "pthread_barrier_init m c (word_of_nat N) = (st, Some b0)" "N < 2 ^ 31"
  shows "separates N b"
  unfolding separates_def
proof (intro allI impI)
  fix t u assume "t < N" "u < N"
  obtain r where "barrierInv N r b" using barrierInv_reachable[OF assms] by blast
  then have "threadInRound r b t" "threadInRound r b u" using \<open>t < N\<close> \<open>u < N\<close> by (auto simp: barrierInv_def)
  then show "passed b t \<le> arrived b u" unfolding threadInRound_def by (auto split: barrierPc.splits)
qed

section \<open>Waits that end without a broadcast\<close>

text \<open>What is left of the invariant: the count is never below the number of the threads that wait.\<close>

definition countInv :: "nat \<Rightarrow> barrier \<Rightarrow> bool" where
  "countInv N b \<longleftrightarrow> tripCount b = int N \<and> int (card {t. t < N \<and> threadAt b t = Waiting}) \<le> bcount b \<and> bcount b < tripCount b"

lemma countInv_step:
  assumes step: "barrierStep spurious N b b'" and inv: "countInv N b"
  shows "countInv N b'"
  using step
proof cases
  case (bar_last t)
  have "{u. u < N \<and> threadAt b' u = Waiting} = {}" using bar_last(1) by (auto simp: lastArrives_def)
  then show ?thesis using inv bar_last(1,2) by (simp add: countInv_def lastArrives_def)
next
  case (bar_wait t)
  have "{u. u < N \<and> threadAt b' u = Waiting} = insert t {u. u < N \<and> threadAt b u = Waiting}"
    using bar_wait(1,2) by (auto simp: startsWait_def)
  then have "card {u. u < N \<and> threadAt b' u = Waiting} = Suc (card {u. u < N \<and> threadAt b u = Waiting})"
    using bar_wait(3) by simp
  then show ?thesis using inv bar_wait(1,4) by (simp add: countInv_def startsWait_def)
next
  case (bar_wake t)
  have "{u. u < N \<and> threadAt b' u = Waiting} = {u. u < N \<and> threadAt b u = Waiting}"
    using bar_wake(1,3) by (auto simp: leaves_def)
  then show ?thesis using inv bar_wake(1) by (simp add: countInv_def leaves_def)
next
  case (bar_spurious t)
  have "card {u. u < N \<and> threadAt b' u = Waiting} \<le> card {u. u < N \<and> threadAt b u = Waiting}"
    by (rule card_mono) (auto simp: bar_spurious(1) leaves_def)
  then show ?thesis using inv bar_spurious(1) by (simp add: countInv_def leaves_def)
qed

text \<open>So some thread can always go on, and need not be woken up for it: not all of them wait.\<close>

lemma barrier_live:
  assumes "barrierReachable spurious N b0 b" "pthread_barrier_init m c (word_of_nat N) = (st, Some b0)" "N < 2 ^ 31"
  shows "\<exists>b'. barrierStep False N b b'"
proof -
  have inv: "countInv N b" using assms(1)
  proof (induction rule: barrierReachable.induct)
    case bar_start
    have "sint (word_of_nat N :: 32 word) = int N" using assms(3) by (simp add: signed_of_nat signed_take_bit_int_eq_self)
    then show ?case using assms(2) by (cases "N = 0") (auto simp: pthread_barrier_init_def countInv_def split: if_splits)
  next
    case (bar_step b b')
    then show ?case using countInv_step by blast
  qed
  have "\<exists>t<N. threadAt b t \<noteq> Waiting"
  proof (rule ccontr)
    assume "\<not> (\<exists>t<N. threadAt b t \<noteq> Waiting)"
    then have "{t. t < N \<and> threadAt b t = Waiting} = {..<N}" by auto
    then have "card {t. t < N \<and> threadAt b t = Waiting} = N" by (simp only: card_lessThan)
    then show False using inv unfolding countInv_def by linarith
  qed
  then obtain t where t: "t < N" "threadAt b t \<noteq> Waiting" by blast
  show ?thesis
  proof (cases "threadAt b t")
    case Outside
    then show ?thesis using bar_last[OF t(1)] bar_wait[OF t(1)] by (cases "tripCount b \<le> bcount b + 1") blast+
  next
    case Signalled
    then show ?thesis using bar_wake[OF t(1)] by blast
  qed (use t(2) in simp)
qed

text \<open>A wait that ends without a broadcast is taken for a return: the first thread passes alone.\<close>

lemma barrier_spurious:
  assumes "pthread_barrier_init m c (word_of_nat N) = (st, Some b0)" "2 \<le> N" "N < 2 ^ 31"
  shows "\<exists>b. barrierReachable True N b0 b \<and> passed b 0 = 1 \<and> arrived b 1 = 0"
proof -
  have "sint (word_of_nat N :: 32 word) = int N" using assms(3) by (simp add: signed_of_nat signed_take_bit_int_eq_self)
  moreover have "b0 = \<lparr>bcount = 0, tripCount = sint (word_of_nat N :: 32 word), threadAt = (\<lambda>_. Outside), arrived = (\<lambda>_. 0),
      passed = (\<lambda>_. 0)\<rparr>"
    using assms(1) by (simp add: pthread_barrier_init_def split: if_splits)
  ultimately have b0: "bcount b0 = 0" "tripCount b0 = int N" "threadAt b0 = (\<lambda>_. Outside)" "arrived b0 = (\<lambda>_. 0)" "passed b0 = (\<lambda>_. 0)"
    by simp_all
  have "barrierStep True N b0 (startsWait 0 b0)" by (rule bar_wait) (use assms(2) in \<open>simp_all add: b0\<close>)
  moreover have "barrierStep True N (startsWait 0 b0) (leaves 0 (startsWait 0 b0))"
    by (rule bar_spurious) (use assms(2) in \<open>simp_all add: startsWait_def\<close>)
  ultimately have "barrierReachable True N b0 (leaves 0 (startsWait 0 b0))" by (blast intro: bar_start bar_step)
  then show ?thesis by (intro exI[of _ "leaves 0 (startsWait 0 b0)"]) (simp add: leaves_def startsWait_def b0)
qed

lemma separates_iff:
  assumes "pthread_barrier_init m c (word_of_nat N) = (st, Some b0)" "2 \<le> N" "N < 2 ^ 31"
  shows "{b. barrierReachable spurious N b0 b} \<subseteq> {b. separates N b} \<longleftrightarrow> \<not> spurious"
proof (cases spurious)
  case True
  obtain b where b: "barrierReachable True N b0 b" "passed b 0 = 1" "arrived b 1 = 0" using barrier_spurious[OF assms] by blast
  have "\<not> separates N b"
  proof
    assume "separates N b"
    then have "passed b 0 \<le> arrived b 1" using assms(2) by (simp add: separates_def)
    then show False using b by simp
  qed
  then show ?thesis using b(1) True by auto
next
  case False
  then show ?thesis using barrierInv_separates[OF _ assms(1,3)] by auto
qed

section \<open>The barrier of the pool's model\<close>

text \<open>
  A barrier as \<open>ThreadPool\<close> has it: threads arrive, and when all are there they are let go at once.
  Every step of the barrier for macOS is none, one or two steps of it; a signalled thread is gone.
\<close>

inductive tripStep :: "nat \<Rightarrow> nat set \<Rightarrow> nat set \<Rightarrow> bool" for N where
  trip_arrive: "t < N \<Longrightarrow> t \<notin> W \<Longrightarrow> card W < N \<Longrightarrow> tripStep N W (insert t W)"
| trip_go: "card W = N \<Longrightarrow> tripStep N W {}"

definition waiters :: "nat \<Rightarrow> barrier \<Rightarrow> nat set" where
  "waiters N b = {t. t < N \<and> threadAt b t = Waiting}"

lemma barrierStep_trips:
  assumes step: "barrierStep False N b b'" and inv: "barrierInv N r b"
  shows "(tripStep N)\<^sup>*\<^sup>* (waiters N b) (waiters N b')"
  using step
proof cases
  case (bar_last t)
  have c: "tripCount b = int N" "bcount b = int (card (waiters N b))" "bcount b < int N"
    using inv by (auto simp: barrierInv_def waiters_def)
  have t: "t < N" "t \<notin> waiters N b" using bar_last by (auto simp: waiters_def)
  have less: "card (waiters N b) < N" using c(2,3) by simp
  have "tripStep N (waiters N b) (insert t (waiters N b))" by (rule trip_arrive[OF t less])
  moreover have "card (insert t (waiters N b)) = N"
  proof -
    have "finite (waiters N b)" by (simp add: waiters_def)
    then have "card (insert t (waiters N b)) = Suc (card (waiters N b))" using t(2) by simp
    then show ?thesis using less bar_last(4) c(1,2) by linarith
  qed
  then have "tripStep N (insert t (waiters N b)) {}" by (rule trip_go)
  moreover have "waiters N b' = {}" using bar_last(1) by (auto simp: lastArrives_def waiters_def)
  ultimately show ?thesis by (metis r_into_rtranclp rtranclp_trans)
next
  case (bar_wait t)
  have "waiters N b' = insert t (waiters N b)" using bar_wait(1,2) by (auto simp: startsWait_def waiters_def)
  moreover have "card (waiters N b) < N" using inv by (auto simp: barrierInv_def waiters_def)
  moreover have "t \<notin> waiters N b" using bar_wait(3) by (simp add: waiters_def)
  ultimately show ?thesis using trip_arrive[OF bar_wait(2)] by (simp add: r_into_rtranclp)
next
  case (bar_wake t)
  have "waiters N b' = waiters N b" using bar_wake(1,3) by (auto simp: leaves_def waiters_def)
  then show ?thesis by simp
qed simp

theorem barrier_trips:
  assumes "barrierReachable False N b0 b" "pthread_barrier_init m c (word_of_nat N) = (st, Some b0)" "N < 2 ^ 31"
  shows "{b'. barrierStep False N b b'} \<subseteq> {b'. (tripStep N)\<^sup>*\<^sup>* (waiters N b) (waiters N b')}"
  using barrierInv_reachable[OF assms] barrierStep_trips by blast

section \<open>A barrier for two threads\<close>

definition twoBarrier :: barrier where
  "twoBarrier = \<lparr>bcount = 0, tripCount = 2, threadAt = (\<lambda>_. Outside), arrived = (\<lambda>_. 0), passed = (\<lambda>_. 0)\<rparr>"

lemma twoBarrier_init: "pthread_barrier_init 0 0 (word_of_nat 2) = (0, Some twoBarrier)"
  by (simp add: pthread_barrier_init_def twoBarrier_def)

lemma twoBarrier_alone: "barrierReachable True 2 twoBarrier (leaves 0 (startsWait 0 twoBarrier))"
proof (rule bar_step[OF bar_step[OF bar_start]])
  show "barrierStep True 2 twoBarrier (startsWait 0 twoBarrier)" by (rule bar_wait) (simp_all add: twoBarrier_def)
  show "barrierStep True 2 (startsWait 0 twoBarrier) (leaves 0 (startsWait 0 twoBarrier))"
    by (rule bar_spurious) (simp_all add: startsWait_def)
qed

end
