(* ===== verification/RunTimes.thy ===== *)
theory RunTimes
  imports PumaPrelude
begin

text \<open>
  The run times that the library keeps: the ring of the last kernel runs of a thread list
  (\<open>_runKernelThread\<close>, \<open>getLastMaxKernelRuntime\<close> and \<open>getLastKernelRuntimes\<close> of \<open>src/pumakernel.c\<close>) and
  the time of a call on the pool (\<open>_max\<close> and \<open>executeOnThreadPool\<close> of \<open>src/pumathreadpool.c\<close>). The type
  of the times and the rounding sum and difference are parameters; a comparison is exact for doubles
  that are numbers.
\<close>

section \<open>Operations\<close>

definition NUM_KERNEL_RUNTIMES :: nat where
  "NUM_KERNEL_RUNTIMES = 5"

text \<open>The fields of \<open>struct pumaThreadList\<close> that only hold times.\<close>

record 't listTimes =
  latestRunTime :: 't
  lastNRunTime :: 't
  nextRunTimeSlot :: nat
  kernelRunTimes :: "'t list"

definition noTimes :: "'t::zero listTimes" where
  "noTimes = \<lparr>latestRunTime = 0, lastNRunTime = 0, nextRunTimeSlot = 0,
     kernelRunTimes = replicate NUM_KERNEL_RUNTIMES 0\<rparr>"

definition recordRunTime ::
  "('t \<Rightarrow> 't \<Rightarrow> 't) \<Rightarrow> ('t \<Rightarrow> 't \<Rightarrow> 't) \<Rightarrow> 't \<Rightarrow> 't listTimes \<Rightarrow> c_fault + 't listTimes" where
  "recordRunTime fadd fsub elapsed l =
     (let slot = nextRunTimeSlot l
      in if slot < length (kernelRunTimes l)
         then let l1 = l\<lparr>lastNRunTime := fsub (lastNRunTime l) (kernelRunTimes l ! slot)\<rparr>;
                  l2 = l1\<lparr>kernelRunTimes := (kernelRunTimes l1)[slot := elapsed]\<rparr>;
                  l3 = l2\<lparr>lastNRunTime := fadd (lastNRunTime l2) (kernelRunTimes l2 ! slot)\<rparr>;
                  l4 = l3\<lparr>latestRunTime := kernelRunTimes l3 ! slot\<rparr>
              in Inr (l4\<lparr>nextRunTimeSlot := sz_add slot 1 mod NUM_KERNEL_RUNTIMES\<rparr>)
         else Inl (OutOfBounds slot))"

fun recordRunTimes ::
  "('t \<Rightarrow> 't \<Rightarrow> 't) \<Rightarrow> ('t \<Rightarrow> 't \<Rightarrow> 't) \<Rightarrow> 't list \<Rightarrow> 't listTimes \<Rightarrow> c_fault + 't listTimes" where
  "recordRunTimes fadd fsub [] l = Inr l"
| "recordRunTimes fadd fsub (e # es) l = bindE (recordRunTime fadd fsub e l) (recordRunTimes fadd fsub es)"

text \<open>Both queries walk over the lists of the threads.\<close>

fun maxRunTime :: "'t::linorder \<Rightarrow> 't listTimes list \<Rightarrow> 't" where
  "maxRunTime m [] = m"
| "maxRunTime m (l # ls) = maxRunTime (if latestRunTime l > m then latestRunTime l else m) ls"

definition getLastMaxKernelRuntime :: "'t::{linorder,zero} listTimes list \<Rightarrow> 't" where
  "getLastMaxKernelRuntime ls = maxRunTime 0 ls"

definition getLastKernelRuntimes :: "'t listTimes list \<Rightarrow> 't list" where
  "getLastKernelRuntimes ls = map latestRunTime ls"

text \<open>\<open>_max\<close> without a branch, and the loop of \<open>executeOnThreadPool\<close> over the workers' times.\<close>

definition maxByProduct :: "'t::linordered_idom \<Rightarrow> 't \<Rightarrow> 't" where
  "maxByProduct a b = of_bool (a > b) * a + of_bool (a \<le> b) * b"

definition timeOfCall :: "'t::linordered_idom list \<Rightarrow> 't" where
  "timeOfCall workerTimes = foldl (\<lambda>t w. maxByProduct w t) 0 workerTimes"

section \<open>What they hold\<close>

text \<open>
  \<open>paddedTimes es\<close>: the times of all runs, behind the zeroes of a new list. After the runs \<open>es\<close> the ring
  has the last five of them; each run has taken the time that it overwrote off the sum and added its
  own, with whatever rounding \<open>fadd\<close> and \<open>fsub\<close> do.
\<close>

definition paddedTimes :: "'t::zero list \<Rightarrow> 't list" where
  "paddedTimes es = replicate NUM_KERNEL_RUNTIMES 0 @ es"

definition runningSum :: "('t \<Rightarrow> 't \<Rightarrow> 't) \<Rightarrow> ('t \<Rightarrow> 't \<Rightarrow> 't) \<Rightarrow> 't::zero list \<Rightarrow> 't" where
  "runningSum fadd fsub es = foldl (\<lambda>t (old, new). fadd (fsub t old) new) 0 (zip (paddedTimes es) es)"

definition timesOf :: "('t \<Rightarrow> 't \<Rightarrow> 't) \<Rightarrow> ('t \<Rightarrow> 't \<Rightarrow> 't) \<Rightarrow> 't::zero list \<Rightarrow> 't listTimes \<Rightarrow> bool" where
  "timesOf fadd fsub es l \<longleftrightarrow> length (kernelRunTimes l) = 5 \<and> nextRunTimeSlot l = length es mod 5
     \<and> (\<forall>j. length es \<le> j \<and> j < length es + 5 \<longrightarrow> kernelRunTimes l ! (j mod 5) = paddedTimes es ! j)
     \<and> lastNRunTime l = runningSum fadd fsub es \<and> latestRunTime l = last (0 # es)"

lemma paddedTimes_simps [simp]:
  "length (paddedTimes es) = length es + 5" "paddedTimes (es @ fs) = paddedTimes es @ fs"
  by (simp_all add: paddedTimes_def NUM_KERNEL_RUNTIMES_def)

lemma timesOf_start: "timesOf fadd fsub [] noTimes"
  by (simp add: timesOf_def noTimes_def NUM_KERNEL_RUNTIMES_def paddedTimes_def runningSum_def)

lemma near_mod5: "j < n \<Longrightarrow> n < j + 5 \<Longrightarrow> j mod 5 \<noteq> (n mod 5 :: nat)"
proof
  assume a: "j < n" "n < j + 5" "j mod 5 = n mod 5"
  then have "5 dvd n - j" by (metis mod_eq_dvd_iff_nat less_imp_le)
  then show False using a by (auto dest: dvd_imp_le)
qed

lemma runningSum_snoc:
  "runningSum fadd fsub (es @ [e]) = fadd (fsub (runningSum fadd fsub es) (paddedTimes es ! length es)) e"
proof -
  let ?A = "take (length es) (paddedTimes es)" and ?x = "paddedTimes es ! length es" and ?D = "drop (Suc (length es)) (paddedTimes es)"
  have p: "paddedTimes es = ?A @ ?x # ?D" by (rule id_take_nth_drop) simp
  have "zip (paddedTimes es @ [e]) (es @ [e]) = zip (?A @ ?x # ?D @ [e]) (es @ [e])" by (subst p) (simp only: append_assoc append_Cons)
  also have "\<dots> = zip ?A es @ [(?x, e)]" by simp
  also have "zip ?A es = zip (paddedTimes es) es" by (rule nth_equalityI) simp_all
  finally have "zip (paddedTimes es @ [e]) (es @ [e]) = zip (paddedTimes es) es @ [(?x, e)]" .
  then show ?thesis by (simp add: runningSum_def)
qed

lemma recordRunTime_ok:
  assumes l: "timesOf fadd fsub es l"
  shows "\<exists>l'. recordRunTime fadd fsub e l = Inr l' \<and> timesOf fadd fsub (es @ [e]) l'"
proof -
  let ?n = "length es" and ?K = "kernelRunTimes l" and ?slot = "length es mod 5"
  have L: "length ?K = 5" "nextRunTimeSlot l = ?slot"
    "\<And>j. ?n \<le> j \<Longrightarrow> j < ?n + 5 \<Longrightarrow> ?K ! (j mod 5) = paddedTimes es ! j" "lastNRunTime l = runningSum fadd fsub es"
    using l by (auto simp: timesOf_def)
  have slot: "?slot < 5" by simp
  let ?l' = "\<lparr>latestRunTime = e, lastNRunTime = fadd (fsub (lastNRunTime l) (?K ! ?slot)) e, nextRunTimeSlot = Suc ?n mod 5,
    kernelRunTimes = ?K[?slot := e]\<rparr>"
  have "sz_add ?slot 1 mod NUM_KERNEL_RUNTIMES = Suc ?n mod 5"
    using slot by (simp add: sz_add_def NUM_KERNEL_RUNTIMES_def mod_Suc_eq)
  then have run: "recordRunTime fadd fsub e l = Inr ?l'"
    using L(1,2) slot by (simp add: recordRunTime_def Let_def)
  have ring: "?K[?slot := e] ! (j mod 5) = (paddedTimes es @ [e]) ! j" if "Suc ?n \<le> j" "j < Suc ?n + 5" for j
  proof (cases "j = ?n + 5")
    case True
    then show ?thesis using L(1) slot by (simp add: nth_append)
  next
    case False
    then have "?n mod 5 \<noteq> j mod 5" "?K ! (j mod 5) = paddedTimes es ! j" using near_mod5[of ?n j] L(3)[of j] that by auto
    then show ?thesis using False that by (simp add: nth_append)
  qed
  have "?K ! ?slot = paddedTimes es ! ?n" using L(3)[of ?n] by simp
  then have "timesOf fadd fsub (es @ [e]) ?l'" unfolding timesOf_def using L(1,4) ring by (simp add: runningSum_snoc)
  with run show ?thesis by blast
qed

theorem recordRunTimes_ok:
  "timesOf fadd fsub ds l \<Longrightarrow> \<exists>l'. recordRunTimes fadd fsub es l = Inr l' \<and> timesOf fadd fsub (ds @ es) l'"
proof (induction es arbitrary: ds l)
  case (Cons e es)
  obtain l1 where l1: "recordRunTime fadd fsub e l = Inr l1" "timesOf fadd fsub (ds @ [e]) l1" using recordRunTime_ok[OF Cons.prems] by blast
  obtain l' where "recordRunTimes fadd fsub es l1 = Inr l'" "timesOf fadd fsub ((ds @ [e]) @ es) l'" using Cons.IH[OF l1(2)] by blast
  then show ?case using l1(1) by simp
qed simp

text \<open>The ring, read from the next slot on: the last five of the padded times, the oldest first.\<close>

lemma timesOf_ring:
  assumes "timesOf fadd fsub es l"
  shows "rotate (nextRunTimeSlot l) (kernelRunTimes l) = drop (length es) (paddedTimes es)"
proof (rule nth_equalityI)
  show "length (rotate (nextRunTimeSlot l) (kernelRunTimes l)) = length (drop (length es) (paddedTimes es))"
    using assms by (simp add: timesOf_def)
  fix i assume "i < length (rotate (nextRunTimeSlot l) (kernelRunTimes l))"
  then have i: "i < 5" using assms by (simp add: timesOf_def)
  have "rotate (nextRunTimeSlot l) (kernelRunTimes l) ! i = kernelRunTimes l ! ((length es + i) mod 5)"
    using assms i by (simp add: timesOf_def nth_rotate mod_add_left_eq)
  also have "\<dots> = paddedTimes es ! (length es + i)" using assms i by (simp add: timesOf_def)
  finally show "rotate (nextRunTimeSlot l) (kernelRunTimes l) ! i = drop (length es) (paddedTimes es) ! i" using i by simp
qed

text \<open>From the zeroed fields of a new list.\<close>

lemma recordRunTimes_noTimes:
  "\<exists>l. recordRunTimes fadd fsub es noTimes = Inr l \<and> nextRunTimeSlot l = length es mod 5
    \<and> rotate (nextRunTimeSlot l) (kernelRunTimes l) = drop (length es) (paddedTimes es)
    \<and> lastNRunTime l = runningSum fadd fsub es \<and> latestRunTime l = last (0 # es)"
proof -
  obtain l where "recordRunTimes fadd fsub es noTimes = Inr l" "timesOf fadd fsub es l"
    using recordRunTimes_ok[OF timesOf_start, of fadd fsub es] by auto
  then show ?thesis using timesOf_ring[of fadd fsub es l] by (auto simp: timesOf_def)
qed

text \<open>Without rounding the running sum is the sum of the last five.\<close>

lemma runningSum_exact:
  fixes es :: "'t::ab_group_add list"
  shows "runningSum (+) (-) es = sum_list (drop (length es) (paddedTimes es))"
proof (induction es rule: rev_induct)
  case Nil
  show ?case by (simp add: runningSum_def paddedTimes_def NUM_KERNEL_RUNTIMES_def numeral_eq_Suc)
next
  case (snoc e es)
  have "drop (length es) (paddedTimes es) = paddedTimes es ! length es # drop (Suc (length es)) (paddedTimes es)"
    by (rule Cons_nth_drop_Suc[symmetric]) simp
  then show ?case by (simp add: runningSum_snoc snoc.IH)
qed

lemma maxRunTime_Max: "maxRunTime m ls = Max (insert m (set (map latestRunTime ls)))"
proof (induction ls arbitrary: m)
  case (Cons l ls)
  have "Max (insert m (set (map latestRunTime (l # ls)))) = max (max m (latestRunTime l)) (Max (insert m (set (map latestRunTime ls))))"
    by (cases "ls = []") (simp_all add: max.assoc max.commute max.left_commute)
  then show ?case unfolding maxRunTime.simps Cons.IH by (cases "ls = []") (auto simp: max_def not_less)
qed simp

theorem getLastMaxKernelRuntime_Max: "getLastMaxKernelRuntime ls = Max (insert 0 (set (getLastKernelRuntimes ls)))"
  by (simp add: getLastMaxKernelRuntime_def getLastKernelRuntimes_def maxRunTime_Max)

lemma maxByProduct_max: "maxByProduct a b = max a b"
  by (simp add: maxByProduct_def max_def)

theorem timeOfCall_Max: "timeOfCall ts = Max (insert 0 (set ts))"
proof -
  have "foldl (\<lambda>t w. maxByProduct w t) m ts = Max (insert m (set ts))" for m
  proof (induction ts arbitrary: m)
    case (Cons a ts)
    show ?case
      using Cons.IH[of "max a m"] by (cases "ts = []") (simp_all add: maxByProduct_max max.assoc max.commute max.left_commute)
  qed simp
  then show ?thesis by (simp add: timeOfCall_def)
qed

end
