(* ===== verification/PoolTime.thy ===== *)
theory PoolTime
  imports RunTimes
begin

text \<open>
  The clocks: elapsed times as \<open>include/internal/profiling.h\<close> computes them from the two readings of
  a thread's clock, and the time that a thread has waited for pools (\<open>_makeTimeKey\<close>, the end of
  \<open>executeOnThreadPool\<close>, \<open>pumaGetTimeWaitedForPool\<close> of \<open>src/pumathreadpool.c\<close>), and the two put
  together around a profiled block (\<open>PROFILE\<close>). Sums and quotients are exact here; the readings are
  parameters.
\<close>

section \<open>Elapsed time\<close>

text \<open>Seconds and nanoseconds of a \<open>struct timespec\<close>; seconds and microseconds of a Mach thread.\<close>

definition elapsedPosix :: "int \<times> int \<Rightarrow> int \<times> int \<Rightarrow> 'a::field_char_0 \<Rightarrow> 'a \<Rightarrow> 'a" where
  "elapsedPosix t0 t1 startOffset endOffset =
     of_int (fst t1 - fst t0) + of_int (snd t1 - snd t0) / 1000000000 + (endOffset - startOffset)"

definition elapsedMach :: "int \<times> int \<Rightarrow> int \<times> int \<Rightarrow> 'a::field_char_0 \<Rightarrow> 'a \<Rightarrow> 'a" where
  "elapsedMach t0 t1 startOffset endOffset =
     of_int (fst t1 - fst t0) + of_int ((snd t1 + 1000000 - snd t0) mod 1000000) / 1000000
       + (endOffset - startOffset)"

text \<open>What a reading with \<open>u\<close> units to a second stands for.\<close>

definition secondsOf :: "int \<Rightarrow> int \<times> int \<Rightarrow> 'a::field_char_0" where
  "secondsOf u t = of_int (fst t) + of_int (snd t) / of_int u"

lemma elapsedPosix_exact:
  "elapsedPosix t0 t1 a b = secondsOf 1000000000 t1 - secondsOf 1000000000 t0 + (b - a)"
  by (simp add: elapsedPosix_def secondsOf_def diff_divide_distrib)

text \<open>On macOS a second is not borrowed: an interval over the start of a second is one too long.\<close>

theorem elapsedMach_borrow:
  assumes "0 \<le> snd t0" "snd t0 < 1000000" "0 \<le> snd t1" "snd t1 < 1000000"
  shows "elapsedMach t0 t1 a b = secondsOf 1000000 t1 - secondsOf 1000000 t0 + (b - a) + of_bool (snd t1 < snd t0)"
proof -
  have m: "(snd t1 + 1000000 - snd t0) mod 1000000 = snd t1 - snd t0 + (if snd t1 < snd t0 then 1000000 else 0)"
  proof (cases "snd t1 < snd t0")
    case True
    then show ?thesis using assms by (intro trans[OF mod_pos_pos_trivial]) simp_all
  next
    case False
    have e: "snd t1 + 1000000 - snd t0 = (snd t1 - snd t0) + 1000000" by simp
    show ?thesis unfolding e mod_add_self2 using False assms by (simp add: mod_pos_pos_trivial)
  qed
  show ?thesis unfolding elapsedMach_def secondsOf_def m by (simp add: diff_divide_distrib add_divide_distrib)
qed

section \<open>The time waited for pools\<close>

text \<open>
  The key is made once; the cells are those of the key in each thread. A key that is not made is 0,
  the number of whichever key came first: \<open>key0\<close> is what a thread finds there.
\<close>

record 't timeKey =
  keyMade :: bool
  timeOffset :: "nat \<Rightarrow> 't option"

definition noTimeKey :: "'t timeKey" where
  "noTimeKey = \<lparr>keyMade = False, timeOffset = (\<lambda>_. None)\<rparr>"

definition makeTimeKey :: "nat \<Rightarrow> 't::zero timeKey" where
  "makeTimeKey th = \<lparr>keyMade = True, timeOffset = (\<lambda>_. None)(th := Some 0)\<rparr>"

text \<open>The end of a call of \<open>executeOnThreadPool\<close> by thread \<open>th\<close>, from the workers' times on.\<close>

definition endOfCall :: "nat \<Rightarrow> 't::linordered_idom list \<Rightarrow> 't timeKey \<Rightarrow> c_fault + ('t \<times> 't timeKey)" where
  "endOfCall th workerTimes k =
     (let timeSeconds = timeOfCall workerTimes;
          k1 = (if keyMade k then k else makeTimeKey th)
      in case timeOffset k1 th of
           None \<Rightarrow> Inl NullDeref
         | Some t \<Rightarrow> Inr (timeSeconds, k1\<lparr>timeOffset := (timeOffset k1)(th := Some (t + timeSeconds))\<rparr>))"

fun endOfCalls :: "nat \<Rightarrow> 't::linordered_idom list list \<Rightarrow> 't timeKey \<Rightarrow> c_fault + 't timeKey" where
  "endOfCalls th [] k = Inr k"
| "endOfCalls th (ts # tss) k = bindE (endOfCall th ts k) (\<lambda>(_, k1). endOfCalls th tss k1)"

definition pumaGetTimeWaitedForPool :: "(nat \<Rightarrow> 't::zero option) \<Rightarrow> nat \<Rightarrow> 't timeKey \<Rightarrow> 't" where
  "pumaGetTimeWaitedForPool key0 th k =
     (case (if keyMade k then timeOffset k th else key0 th) of Some t \<Rightarrow> t | None \<Rightarrow> 0)"

lemma endOfCalls_made:
  assumes "keyMade k" "timeOffset k th = Some t" "\<forall>u. u \<noteq> th \<longrightarrow> timeOffset k u = None"
  shows "\<exists>k'. endOfCalls th tss k = Inr k' \<and> keyMade k' \<and> timeOffset k' th = Some (t + sum_list (map timeOfCall tss))
    \<and> (\<forall>u. u \<noteq> th \<longrightarrow> timeOffset k' u = None)"
  using assms
proof (induction tss arbitrary: k t)
  case (Cons ts tss)
  let ?k1 = "k\<lparr>timeOffset := (timeOffset k)(th := Some (t + timeOfCall ts))\<rparr>"
  have "endOfCall th ts k = Inr (timeOfCall ts, ?k1)" using Cons.prems by (simp add: endOfCall_def Let_def)
  moreover have "keyMade ?k1" "timeOffset ?k1 th = Some (t + timeOfCall ts)" "\<forall>u. u \<noteq> th \<longrightarrow> timeOffset ?k1 u = None"
    using Cons.prems by simp_all
  from Cons.IH[OF this] obtain k' where "endOfCalls th tss ?k1 = Inr k'" "keyMade k'"
    "timeOffset k' th = Some (t + timeOfCall ts + sum_list (map timeOfCall tss))"
    "\<forall>u. u \<noteq> th \<longrightarrow> timeOffset k' u = None" by blast
  ultimately show ?case by (simp add: add.assoc)
qed simp

text \<open>
  The thread that calls first has its times added up. No other thread has a cell: its first call on
  any pool dereferences a null pointer.
\<close>

theorem pool_time_one_caller:
  fixes tss :: "'a::linordered_idom list list"
  assumes "tss \<noteq> []"
  shows "\<exists>k. endOfCalls th tss noTimeKey = Inr k
    \<and> pumaGetTimeWaitedForPool key0 th k = sum_list (map (\<lambda>ts. Max (insert 0 (set ts))) tss)
    \<and> (\<forall>u ts. u \<noteq> th \<longrightarrow> endOfCall u ts k = Inl NullDeref)"
proof -
  obtain ts rest where tss: "tss = ts # rest" using assms by (cases tss) auto
  have "endOfCalls th tss noTimeKey = endOfCalls th tss (makeTimeKey th)"
    by (simp add: tss endOfCall_def noTimeKey_def makeTimeKey_def)
  moreover obtain k where "endOfCalls th tss (makeTimeKey th) = Inr k" "keyMade k"
    "timeOffset k th = Some (0 + sum_list (map timeOfCall tss))" "\<forall>u. u \<noteq> th \<longrightarrow> timeOffset k u = None"
    using endOfCalls_made[of "makeTimeKey th" th 0 tss] by (auto simp: makeTimeKey_def)
  moreover have "timeOfCall = (\<lambda>ts :: 'a list. Max (insert 0 (set ts)))" by (rule ext, rule timeOfCall_Max)
  ultimately show ?thesis
    by (intro exI[of _ k]) (simp add: pumaGetTimeWaitedForPool_def endOfCall_def Let_def)
qed

section \<open>Profiled blocks\<close>

text \<open>
  \<open>PROFILE\<close> around a block that takes a thread's world \<open>w\<close> to the next: the variables that
  \<open>PROFILING_DECLS\<close> declares, filled in by the prefix and the suffix. With POSIX timers a reading always
  succeeds; on macOS \<open>thread_info\<close> may fail, which only an assertion notices. Without profiling
  (\<open>NPROFILE\<close>) the block is run alone and every elapsed time is 0.
\<close>

record 't profile =
  pr_StartOffset :: 't
  pr_Start :: "int \<times> int"
  pr_End :: "int \<times> int"
  pr_EndOffset :: 't

definition profilePosix ::
  "('w \<Rightarrow> int \<times> int) \<Rightarrow> ('w \<Rightarrow> 't) \<Rightarrow> ('w \<Rightarrow> c_fault + 'w) \<Rightarrow> 'w \<Rightarrow> c_fault + 't profile \<times> 'w" where
  "profilePosix clock waited block w =
     (let startOffset = waited w;
          start = clock w
      in bindE (block w) (\<lambda>w'. Inr (\<lparr>pr_StartOffset = startOffset, pr_Start = start, pr_End = clock w',
           pr_EndOffset = waited w'\<rparr>, w')))"

definition profileMach ::
  "('w \<Rightarrow> (int \<times> int) option) \<Rightarrow> ('w \<Rightarrow> 't) \<Rightarrow> ('w \<Rightarrow> c_fault + 'w) \<Rightarrow> 'w \<Rightarrow> c_fault + 't profile \<times> 'w" where
  "profileMach threadInfo waited block w =
     (let startOffset = waited w
      in case threadInfo w of
           None \<Rightarrow> Inl AssertFailed
         | Some start \<Rightarrow> bindE (block w) (\<lambda>w'.
             case threadInfo w' of
               None \<Rightarrow> Inl AssertFailed
             | Some stop \<Rightarrow> Inr (\<lparr>pr_StartOffset = startOffset, pr_Start = start, pr_End = stop,
                 pr_EndOffset = waited w'\<rparr>, w')))"

definition getElapsedPosix :: "'t::field_char_0 profile \<Rightarrow> 't" where
  "getElapsedPosix r = elapsedPosix (pr_Start r) (pr_End r) (pr_StartOffset r) (pr_EndOffset r)"

definition getElapsedMach :: "'t::field_char_0 profile \<Rightarrow> 't" where
  "getElapsedMach r = elapsedMach (pr_Start r) (pr_End r) (pr_StartOffset r) (pr_EndOffset r)"

definition profileNone :: "('w \<Rightarrow> c_fault + 'w) \<Rightarrow> 'w \<Rightarrow> c_fault + 't::zero \<times> 'w" where
  "profileNone block w = bindE (block w) (\<lambda>w'. Inr (0, w'))"

text \<open>
  The elapsed time of any block, without rounding: what the thread's clock has gone on by, and what has
  been added to the time that the thread has waited for pools.
\<close>

lemma profilePosix_elapsed:
  assumes "block w = Inr w'"
  shows "\<exists>r. profilePosix cpuTime waited block w = Inr (r, w')
    \<and> getElapsedPosix r = secondsOf 1000000000 (cpuTime w') - secondsOf 1000000000 (cpuTime w) + (waited w' - waited w)"
  using assms by (simp add: profilePosix_def getElapsedPosix_def elapsedPosix_exact)

end
