(* ===== verification/PoolBuilds.thy ===== *)
theory PoolBuilds
  imports ThreadPool Autobalance
begin

text \<open>
  The other builds of \<open>src/pumathreadpool.c\<close>: the one on OpenMP, where the pool has no threads of its
  own, and the one with a single pool for the whole program (\<open>STATIC_THREADPOOL\<close>). Last, what becomes
  of a set (\<open>createPumaSet\<close> of \<open>src/pumaset.c\<close>) whose number of workers is not that of its pool.
\<close>

section \<open>OpenMP\<close>

text \<open>
  \<open>team n\<close> is the number of threads that the OpenMP runtime gives to a region for \<open>n\<close>, at most \<open>n\<close>.
  Creating the pool binds the threads of one region to CPUs; the handles in \<open>threads\<close> stay zero.
\<close>

definition team_spec :: "(nat \<Rightarrow> nat) \<Rightarrow> bool" where
  "team_spec team \<longleftrightarrow> (\<forall>n. team n \<le> n \<and> (0 < n \<longrightarrow> 0 < team n))"

definition createThreadPoolOmp :: "(nat \<Rightarrow> nat) \<Rightarrow> nat \<Rightarrow> nat \<Rightarrow> threadPool \<times> cpu_set list" where
  "createThreadPoolOmp team nProcs nThreads =
     (let n = (if nThreads \<noteq> 0 then nThreads else nProcs)
      in (\<lparr>tp_numThreads = n, tp_workers = [], tp_barrierCount = 0\<rparr>, map (\<lambda>i. CPU_SET i 0) [0..<team n]))"

text \<open>A call runs the work once on every thread of a team, here one after the other, in \<open>order\<close>.\<close>

definition executeOnThreadPoolOmp ::
  "(nat \<Rightarrow> nat) \<Rightarrow> (nat \<Rightarrow> nat list) \<Rightarrow> threadPool \<Rightarrow> (nat \<Rightarrow> 's \<Rightarrow> c_fault + 's) \<Rightarrow> 's \<Rightarrow> c_fault + 's" where
  "executeOnThreadPoolOmp team order pool work s = forEach work (order (team (tp_numThreads pool))) s"

text \<open>The number of a thread is its CPU number too; \<open>maxThreads\<close> is \<open>omp_get_max_threads()\<close>.\<close>

definition pumaGetThreadNumOmp :: "nat \<Rightarrow> nat" where
  "pumaGetThreadNumOmp omp_thread_num = omp_thread_num"

definition pumaGetCPUNumOmp :: "nat \<Rightarrow> nat" where
  "pumaGetCPUNumOmp omp_thread_num = omp_thread_num"

definition pumaGetNumThreadsOmp :: "nat \<Rightarrow> threadPool option \<Rightarrow> nat" where
  "pumaGetNumThreadsOmp maxThreads pool = (case pool of None \<Rightarrow> maxThreads | Some p \<Rightarrow> tp_numThreads p)"

text \<open>Every thread of a team is bound to the CPU of its number, as long as that is below 1024.\<close>

lemma omp_threads_bound:
  assumes "team_spec team" "i < team (tp_numThreads (fst (createThreadPoolOmp team nProcs n)))" "i < 1024"
  shows "CPU_ISSET c (snd (createThreadPoolOmp team nProcs n) ! pumaGetThreadNumOmp i) \<longleftrightarrow> c = pumaGetCPUNumOmp i"
  using assms
  by (auto simp: createThreadPoolOmp_def Let_def pumaGetThreadNumOmp_def pumaGetCPUNumOmp_def CPU_ISSET_def bit_CPU_SET)

text \<open>The pool is freed by cancelling the threads of the handles, none of which was created.\<close>

lemma omp_free:
  assumes "n \<noteq> 0 \<or> nProcs \<noteq> 0"
  shows "freeThreadPool (fst (createThreadPoolOmp team nProcs n)) = Inl NullDeref"
  using assms by (auto simp: freeThreadPool_eq createThreadPoolOmp_def Let_def)

section \<open>One pool for the program\<close>

text \<open>The static variables \<open>_setupComplete\<close> and \<open>threadPool\<close>; \<open>None\<close> in the latter is \<open>NULL\<close>.\<close>

record staticPool =
  setupComplete :: bool
  thePool :: "threadPool option"

definition noStaticPool :: staticPool where
  "noStaticPool = \<lparr>setupComplete = False, thePool = None\<rparr>"

definition setupThreadPool :: "nat \<Rightarrow> nat \<Rightarrow> string option \<Rightarrow> staticPool \<Rightarrow> (c_fault + staticPool) option" where
  "setupThreadPool nProcs nThreads affinityStr st =
     (if setupComplete st then Some (Inr st)
      else map_option (map_sum id (\<lambda>pool. st\<lparr>thePool := Some pool, setupComplete := True\<rparr>))
             (createThreadPool nProcs nThreads affinityStr))"

text \<open>The message to \<open>stderr\<close> is the flag of the result.\<close>

definition getThreadPool :: "staticPool \<Rightarrow> bool \<times> threadPool option" where
  "getThreadPool st = (\<not> setupComplete st, thePool st)"

text \<open>The first call decides; later ones do not even look at their arguments.\<close>

lemma static_pool_first:
  assumes "setupThreadPool nProcs n aff noStaticPool = Some (Inr st)"
  shows "\<exists>pool. createThreadPool nProcs n aff = Some (Inr pool) \<and> getThreadPool st = (False, Some pool)
    \<and> setupThreadPool nProcs' n' aff' st = Some (Inr st)"
proof -
  obtain pool where "createThreadPool nProcs n aff = Some (Inr pool)" "st = \<lparr>setupComplete = True, thePool = Some pool\<rparr>"
    using assms by (cases "createThreadPool nProcs n aff")
      (auto simp: setupThreadPool_def noStaticPool_def map_sum_def split: sum.splits)
  then show ?thesis by (simp add: setupThreadPool_def getThreadPool_def)
qed

section \<open>A set and its pool\<close>

text \<open>
  \<open>createPumaSet\<close> has an entry of \<open>tidToThreadList\<close> for each of the workers it is asked for, and every
  thread of the pool writes the entry of its number.
\<close>

lemma setup_length:
  assumes "setupThreadListsWorker P tid (ps, s) = Inr (ps', s')"
  shows "tid < length (tidToThreadList ps)" "length (tidToThreadList ps') = length (tidToThreadList ps)"
    "numThreads ps' = numThreads ps" "\<And>j. j \<noteq> tid \<Longrightarrow> tidToThreadList ps' ! j = tidToThreadList ps ! j"
  using assms by (auto simp: setupThreadListsWorker_def bindE_eq_Inr split: if_splits)

lemma setups_length:
  "forEach (setupThreadListsWorker P) order (ps, s) = Inr (ps', s')
   \<Longrightarrow> set order \<subseteq> {..<length (tidToThreadList ps)} \<and> length (tidToThreadList ps') = length (tidToThreadList ps)
     \<and> numThreads ps' = numThreads ps \<and> (\<forall>j. j \<notin> set order \<longrightarrow> tidToThreadList ps' ! j = tidToThreadList ps ! j)"
proof (induction order arbitrary: ps s)
  case (Cons tid order)
  obtain ps1 s1 where s1: "setupThreadListsWorker P tid (ps, s) = Inr (ps1, s1)"
    "forEach (setupThreadListsWorker P) order (ps1, s1) = Inr (ps', s')"
    using Cons.prems by (cases "setupThreadListsWorker P tid (ps, s)") auto
  then show ?case using setup_length[OF s1(1)] Cons.IH[OF s1(2)] by auto
qed simp

lemma create_entries:
  fixes ps :: "('b, 'd) pumaSet"
  assumes "createPumaSet na P order es n s = Inr (ps, s')"
  shows "set order \<subseteq> {..<n}" "length (tidToThreadList ps) = n" "numThreads ps = n"
    "\<And>j. j < n \<Longrightarrow> j \<notin> set order \<Longrightarrow> tidToThreadList ps ! j = 0"
proof -
  obtain ps0 :: "('b, 'd) pumaSet" and s2 where "forEach (setupThreadListsWorker P) order (ps0, s2) = Inr (ps, s')"
    "tidToThreadList ps0 = replicate n 0" "numThreads ps0 = n"
    using assms by (fastforce simp: createPumaSet_def Let_def bindE_eq_Inr)
  from setups_length[OF this(1)] this(2,3) show "set order \<subseteq> {..<n}" "length (tidToThreadList ps) = n" "numThreads ps = n"
    "\<And>j. j < n \<Longrightarrow> j \<notin> set order \<Longrightarrow> tidToThreadList ps ! j = 0" by auto
qed

lemma nodeTotals_null:
  "0 \<in> set ts \<Longrightarrow> tlists s 0 = None \<Longrightarrow> \<exists>e. nodeTotals s ts acc = Inl e"
proof (induction ts arbitrary: acc)
  case (Cons t ts)
  obtain a b where acc: "acc = (a, b)" by (cases acc)
  show ?case
  proof (cases "tlists s t")
    case None
    then show ?thesis by (simp add: acc deref_simps)
  next
    case (Some l)
    then show ?thesis using Cons by (auto simp: acc deref_simps)
  qed
qed simp

lemma pool_set_sizes:
  fixes ps :: "('b, 'd) pumaSet"
  assumes "createPumaSet na P order es n s = Inr (ps, s')" "set order = {..<m}" "m \<noteq> n" "tlists s' 0 = None"
  shows "m < n" "\<exists>e. autobalanceThreadLoad speed ps s' = Inl e"
proof -
  note E = create_entries[OF assms(1)]
  show m: "m < n" using E(1) assms(3) unfolding assms(2) lessThan_subset_iff by simp
  have "tidToThreadList ps ! m = 0" using E(4)[of m] m assms(2) by simp
  then have "0 \<in> set (take (numThreads ps) (tidToThreadList ps))" using E(2,3) m by (auto simp: in_set_conv_nth)
  then obtain e where "nodeTotals s' (take (numThreads ps) (tidToThreadList ps)) (0, 0) = Inl e"
    using nodeTotals_null[OF _ assms(4)] by blast
  then show "\<exists>e. autobalanceThreadLoad speed ps s' = Inl e" by (simp add: autobalanceThreadLoad_def)
qed

text \<open>
  So a set that asks for 0 workers, which its pool takes for all online CPUs, is never created; and
  with a static pool a set is usable only with the number of workers of the first.
\<close>

lemma no_empty_set:
  assumes "createThreadPool nProcs 0 None = Some (Inr pool)" "0 < nProcs" "set order = set (map wi_threadNum (tp_workers pool))"
  shows "\<exists>e. (createPumaSet na P order es 0 s :: c_fault + ('b, 'd) pumaSet \<times> 'e mem) = Inl e"
proof -
  have "map wi_threadNum (tp_workers pool) = [0..<nProcs]" using createThreadPool_default[of 0 nProcs] assms(1,2) by auto
  then have "set order = {..<nProcs}" unfolding assms(3) by (simp only: set_upt atLeast0LessThan)
  then have "\<not> set order \<subseteq> {..<0}" using assms(2) by auto
  then have "createPumaSet na P order es 0 s \<noteq> Inr r" for r :: "('b, 'd) pumaSet \<times> 'e mem"
    using create_entries(1)[of na P order es 0 s "fst r" "snd r"] by (cases r) auto
  then show ?thesis by (metis sum.exhaust)
qed

end
