(* ===== verification/LogFormat.thy ===== *)
theory LogFormat
  imports PumaPrelude
begin

text \<open>
  Strings of \<open>src/internal/pumalog.c\<close>, and \<open>_getBiggestCacheSize\<close> of \<open>src/internal/pumanode.c\<close>. A C
  string is the list of its characters before the terminating zero; a buffer has a size. Writing
  behind the end of a buffer is a fault. What \<open>vfprintf\<close> makes of the format is not modelled.
\<close>

section \<open>The format of a message\<close>

definition c_strcpy :: "nat \<Rightarrow> string \<Rightarrow> c_fault + string" where
  "c_strcpy bufSize src = (if Suc (length src) \<le> bufSize then Inr src else Inl (OutOfBounds bufSize))"

definition c_strncat :: "nat \<Rightarrow> string \<Rightarrow> string \<Rightarrow> nat \<Rightarrow> c_fault + string" where
  "c_strncat bufSize dst src n =
     (let piece = take n src
      in if Suc (length dst + length piece) \<le> bufSize then Inr (dst @ piece) else Inl (OutOfBounds bufSize))"

definition logFormat :: "string \<Rightarrow> string \<Rightarrow> c_fault + string" where
  "logFormat prefix format =
     (let formatLen = length format;
          len = sz_add formatLen (Suc (length prefix))
      in bindE (c_strcpy len prefix) (\<lambda>buf. c_strncat len buf format formatLen))"

datatype logStream = Stdout | Stderr

definition pumalogf :: "string \<Rightarrow> c_fault + (logStream \<times> string)" where
  "pumalogf format = bindE (logFormat ''[PUMA LOG] '' format) (\<lambda>f. Inr (Stdout, f))"

definition pumawarnf :: "string \<Rightarrow> c_fault + (logStream \<times> string)" where
  "pumawarnf format = bindE (logFormat ''[PUMA WARNING] '' format) (\<lambda>f. Inr (Stdout, f))"

definition pumaerrorf :: "string \<Rightarrow> c_fault + (logStream \<times> string)" where
  "pumaerrorf format = bindE (logFormat ''[PUMA ERROR] '' format) (\<lambda>f. Inr (Stderr, f))"

text \<open>The buffer is just large enough, and the prefix adds no conversion to the format.\<close>

lemma logFormat_ok:
  "length format + Suc (length prefix) < 2 ^ 64 \<Longrightarrow> logFormat prefix format = Inr (prefix @ format)"
  by (simp add: logFormat_def c_strcpy_def c_strncat_def sz_add_exact Let_def)

theorem log_formats:
  assumes "length format + 16 < 2 ^ 64"
  shows "pumalogf format = Inr (Stdout, ''[PUMA LOG] '' @ format)"
    "pumawarnf format = Inr (Stdout, ''[PUMA WARNING] '' @ format)"
    "pumaerrorf format = Inr (Stderr, ''[PUMA ERROR] '' @ format)"
    "filter (\<lambda>c. c = CHR ''%'') (''[PUMA WARNING] '' @ format) = filter (\<lambda>c. c = CHR ''%'') format"
  using assms by (simp_all add: pumalogf_def pumawarnf_def pumaerrorf_def logFormat_ok)

section \<open>The biggest cache\<close>

text \<open>\<open>names\<close> has the four \<open>sysconf\<close> names, 0 for those the platform does not define.\<close>

definition cacheStats :: "int option \<Rightarrow> int option \<Rightarrow> int option \<Rightarrow> int option \<Rightarrow> int list" where
  "cacheStats l4 l3 l2 l1 = map (case_option 0 (\<lambda>c. c)) [l4, l3, l2, l1]"

fun cacheLoop :: "(int \<Rightarrow> int) \<Rightarrow> int list \<Rightarrow> nat \<Rightarrow> nat" where
  "cacheLoop sysconf [] cacheSize = cacheSize"
| "cacheLoop sysconf (c # cs) cacheSize =
     (if cacheSize \<le> 0 then cacheLoop sysconf cs (nat (sysconf c mod 2 ^ 64)) else cacheSize)"

definition getBiggestCacheSize :: "(int \<Rightarrow> int) \<Rightarrow> int list \<Rightarrow> nat" where
  "getBiggestCacheSize sysconf stats = cacheLoop sysconf stats 0"

lemma cacheLoop_found: "0 < cacheSize \<Longrightarrow> cacheLoop sysconf cs cacheSize = cacheSize"
  by (cases cs) simp_all

text \<open>The first answer that is not 0 is taken; the \<open>-1\<close> of an unknown name becomes the largest size.\<close>

theorem getBiggestCacheSize_first:
  assumes "\<forall>c \<in> set stats. - 1 \<le> sysconf c \<and> sysconf c < 2 ^ 63"
  shows "getBiggestCacheSize sysconf stats =
    (case find (\<lambda>c. sysconf c \<noteq> 0) stats of None \<Rightarrow> 0
     | Some c \<Rightarrow> if sysconf c = - 1 then SIZE_MAX else nat (sysconf c))"
  unfolding getBiggestCacheSize_def using assms
proof (induction stats)
  case (Cons c cs)
  show ?case
  proof (cases "sysconf c = 0")
    case True
    then show ?thesis using Cons by simp
  next
    case False
    have v: "nat (sysconf c mod 2 ^ 64) = (if sysconf c = - 1 then SIZE_MAX else nat (sysconf c))"
    proof (cases "sysconf c = - 1")
      case True
      then show ?thesis by (simp add: SIZE_MAX_def)
    next
      case neg: False
      then have "0 \<le> sysconf c" "sysconf c < 2 ^ 64" using Cons.prems by (auto simp: less_le)
      then show ?thesis using neg by simp
    qed
    then have "0 < nat (sysconf c mod 2 ^ 64)" using False Cons.prems by (auto simp: SIZE_MAX_def)
    then show ?thesis using False v by (simp add: cacheLoop_found)
  qed
qed simp

end
