(* ===== verification/Spec2Isabelle.thy ===== *)
theory Spec2Isabelle
  imports SetDemo Numa StaticVar ManyCallers Stranded EmptyList Speeds Barrier PoolTime PoolBuilds LogFormat
begin

text \<open>
  PUMA, a library for parallel kernels over unordered sets of elements in NUMA-local memory.

  A set (\<open>struct pumaSet\<close>) has a pool of worker threads and, for each, a thread list: a doubly linked
  list of page-aligned blocks (nodes) that hold the elements of the set in slots, with a bit mask of
  the free ones. Elements are allocated on the list of a worker, freed by address, and visited by
  kernels, which every worker runs over its own list. Freeing leaves holes; a node with holes is
  dirty and is compacted before a kernel runs over it, with elements from the end of the list. Nodes
  that become empty at the end of a list stay linked as inactive nodes for later use. Before a kernel,
  whole nodes are moved between the lists of a set.

  Theories, and the code under \<open>src/\<close> and \<open>include/\<close> they model:
  \<^item> \<open>PumaPrelude\<close>: \<open>size_t\<close> arithmetic (\<open>sz_add\<close>, \<open>sz_sub\<close>, \<open>sz_mul\<close> wrap modulo \<open>2 ^ 64\<close>),
    what the code can run into instead of returning (\<open>c_fault\<close>), and \<open>bindE\<close>, which stops at a fault.
  \<^item> \<open>Bitmask\<close> (\<open>internal/bitmask.c\<close>): the mask in words of 64 bits. Setting, getting and the two
    searches are proved against the bits, the searches equal to linear ones; the layout of mask and
    elements in one block is proved to fit and, but for one case, to be the largest. The locale
    \<open>occupancy_mask\<close> is what the nodes rely on; it is interpreted on the mask.
  \<^item> \<open>PumaMemory\<close>: the memory: a finite map from addresses to nodes, a map from addresses to thread
    lists, the value of every element, the page size. Access to an address that holds no node or list
    is a fault. Here too: element addresses (\<open>internal/pumautil.c\<close>), with their round trip.
  \<^item> \<open>ThreadList\<close>: the invariant \<open>tl_inv s t xs ys\<close>: list \<open>t\<close> has the active nodes \<open>xs\<close> and the
    inactive ones \<open>ys\<close>, linked both ways, numbered, counted, every node with its mask and its counter
    in agreement; \<open>contents\<close> is the bag of the list's live elements; \<open>framed\<close> says that a step changed
    nothing outside the list.
  \<^item> \<open>PumaAlloc\<close> (\<open>internal/alloc.c\<close>, \<open>internal/free.c\<close>, \<open>_freePumaNode\<close>), \<open>PumaUtil\<close>
    (\<open>_getLastElement\<close>), \<open>PumaNode\<close> (\<open>_cleanupNode\<close>, \<open>_appendPumaNode\<close>), \<open>Pumalloc\<close>
    (\<open>pumalloc.c\<close> on one list), \<open>Kernel\<close> (\<open>_runKernelOnNode\<close>, \<open>_runKernelThread\<close>): each operation with
    the lemma that it keeps \<open>tl_inv\<close> and what it does to the bag.
  \<^item> \<open>Balance\<close> (\<open>_transferNNodes\<close>, \<open>_countNodes\<close> and their loops) and \<open>Autobalance\<close>
    (\<open>_autobalanceThreadLoad\<close>) of \<open>internal/pumabalance.c\<close>; \<open>Speeds\<close> has the targets of the lists,
    computed from run times over exact numbers. \<open>PagePlacement\<close> has the build for NUMA, in which a
    transfer also asks the kernel to move pages (\<open>_moveNodeDomains\<close>).
  \<^item> \<open>DebugBuild\<close>: the operations once more with their assertions and, in a build for NUMA, with the
    writes to the pages of a node and the assertions on where the kernel has put them (both places in
    \<open>_appendPumaNode\<close>), and when they do what they do without.
  \<^item> \<open>PumaDomain\<close> (\<open>internal/pumadomain.c\<close>) and \<open>PumaSet\<close> (\<open>pumaset.c\<close>): where a worker's list lies,
    creation, size and destruction of a set, the invariant \<open>set_inv P ps L s\<close> (every worker has a
    list of its own with nodes \<open>L tid\<close>) and the locale \<open>list_step\<close>, by which a step on one list keeps
    the invariant of the whole set; \<open>SetOps\<close> interprets it for allocation, release and kernels.
  \<^item> \<open>SetSeq\<close>: the abstract specification of a set, a bag of elements (\<open>bagStep\<close>), and the proof that
    every sequence of safe operations refines it. \<open>SetKernel\<close> with \<open>ExtraData\<close> (\<open>extradata.c\<close>):
    \<open>runKernelList\<close>, \<open>runKernel\<close>, \<open>runKernelCurrentThread\<close> of \<open>pumakernel.c\<close>.
  \<^item> \<open>Numa\<close> (\<open>internal/numa.c\<close>): the request made to the kernel for the memory of a domain.
  \<^item> \<open>StaticVar\<close> (\<open>pumastaticvar.c\<close>): thread-local static memory, one thread's chain of blocks.
  \<^item> \<open>Affinity\<close> and \<open>ThreadPool\<close> (\<open>pumathreadpool.c\<close>, the build without OpenMP): the affinity string
    and the placement of workers; the protocol of \<open>executeOnThreadPool\<close> and \<open>_threadPoolWorker\<close>
    as a step relation over all interleavings, with its invariant, progress and termination measure.
    \<open>ManyCallers\<close> has the same steps for several callers of one pool, and a deadlock of two.
    \<open>PoolBuilds\<close>: the builds of the pool with OpenMP and with one static pool, and what becomes of
    a set whose number of workers is not that of its pool.
  \<^item> \<open>Stranded\<close>: the allocation that \<open>tailSafe\<close> excludes, after which kernels do not see an element.
  \<^item> \<open>EmptyList\<close>: \<open>_emptyThreadList\<close> of \<open>internal/pumathreadlist.c\<close>; its nodes are freed and its
    counters left as they were.
  \<^item> \<open>Barrier\<close> (\<open>include/internal/pthreadbarrier.h\<close>): the barrier for macOS, with its rounds if waits
    end only by a broadcast, and what a wake-up without one does to it.
  \<^item> \<open>RunTimes\<close>: the run times of kernels (\<open>pumakernel.c\<close>), for any rounding of sums and differences.
    \<open>PoolTime\<close>: the times of calls on a pool (\<open>pumathreadpool.c\<close>), elapsed times and profiled blocks
    (\<open>include/internal/profiling.h\<close>), over exact numbers. The readings of the clocks are parameters.
  \<^item> \<open>LogFormat\<close>: the formats of \<open>internal/pumalog.c\<close>, and \<open>_getBiggestCacheSize\<close>.
  \<^item> \<open>Demo\<close>, \<open>SetDemo\<close>: concrete memories, sets and allocators on which the properties below are
    instantiated.

  Parameters. \<open>posix_memalign\<close> (\<open>memalign\<close>, \<open>numalloc\<close>, \<open>staticAlloc\<close>), libnuma and \<open>sysconf\<close>
  (record \<open>platform\<close>; a node can be -1 and node numbers can have gaps), what the kernel of the system
  does with pages (record \<open>debugKernel\<close>), kernels, the functions of a descriptor of extra data and the
  relative speeds of the lists (the product \<open>relativeSpeed * avgNodes\<close>, floating point in the code) are
  arguments of the definitions; what is assumed of them is stated in \<open>memalign_spec\<close>,
  \<open>numalloc_spec\<close>, \<open>static_alloc_spec\<close>, \<open>platform_ok\<close> and \<open>pagesOk\<close>. The workers of one \<open>executeOnThreadPool\<close> are run one after
  the other, in an order that is an argument: they work on lists and array entries of their own.
  That every worker runs the work exactly once is proved in \<open>ThreadPool\<close>.

  Bounds. Loops over linked nodes have fuel, started with one more than the number of nodes of the
  memory; the lemmas show that a list under the invariant never uses it up, so that no theorem about
  a result is about an exhausted run. The transfers of a balancing step have the sum of the two
  stacks as fuel, each transfer removing an entry. A deletion of static data needs three units. The
  inner loop of a kernel terminates by \<open>loopRank\<close>, although the index is not advanced at a hole:
  the count of skipped elements is, and it wraps. The range loop of the affinity string is a partial
  function, since it can run for ever.

  Assumptions of use. Page size and \<open>PUMA_NODEPAGES\<close> make a block of a power of two
  bytes (\<open>cfg_ok\<close>); a list has fewer than \<open>2 ^ 31\<close> nodes when it grows (the new index goes through an
  \<open>int\<close>); an element fits a node (\<open>elementFits\<close>); the tail is not due for compaction while it and its
  predecessor are empty (\<open>tailSafe\<close>).

  Not modelled: valgrind annotations, the counters of Intel PCM, what \<open>vfprintf\<close> prints, the
  rounding of doubles in \<open>Speeds\<close> and \<open>PoolTime\<close>, failures of \<open>malloc\<close> and \<open>calloc\<close>. Fields that
  \<open>createPumaSet\<close> does not initialise are \<open>None\<close>. In a release build it has no effect on the program
  whether the kernel grants a request for pages.
\<close>

section \<open>Running kernels\<close>

text \<open>C1: a kernel run over a thread list that satisfies the list invariant ends without a fault,
  keeps the invariant, and applies the kernel exactly once to every live element: the contents
  before are the elements fed to the kernel, the contents after are its results, the extra data
  being threaded through the applications.\<close>

theorem kernel_applied_once:
  assumes "tl_inv s t xs ys"
  shows "\<exists>x' s' xs' ys' es es'. runKernelThread k t x s = Inr (x', s') \<and> tl_inv s' t xs' ys'
    \<and> feed k es x = (es', x') \<and> mset es = contents (nodeAt s) (cells s) xs
    \<and> mset es' = contents (nodeAt s') (cells s') xs'"
  using runKernelThread_ok[OF assms, of k x] unfolding kernelDone_def by metis

theorem kernel_applied_once_witness:
  "\<exists>x' s' xs' ys' es es'. runKernelThread (\<lambda>v n. (v + 1, n + 1 :: nat)) listAddr 0 mem2 = Inr (x', s')
    \<and> tl_inv s' listAddr xs' ys' \<and> feed (\<lambda>v n. (v + 1, n + 1)) es 0 = (es', x')
    \<and> mset es = contents (nodeAt mem2) (cells mem2) [8192, 16384] \<and> mset es' = contents (nodeAt s') (cells s') xs'"
  by (rule kernel_applied_once[OF mem2_inv])

section \<open>Allocating and freeing elements\<close>

text \<open>C2: an allocation on a thread list whose tail is safe ends with a new live element and the
  invariant; the contents of the others are kept, other lists are not touched. It fails only when
  a new block is needed and the allocator has none.\<close>

theorem pumalloc_adds_element:
  assumes "memalign_spec ma" "tl_inv s t xs ys" "tlists s t = Some l"
    and "elementFits s (tl_elementSize l)" "length xs < 2 ^ 31" "tailSafe (nodeAt s) xs"
  shows "(\<exists>e s' xs' ys'. pumallocOnThreadList ma t s = Inr (e, s') \<and> tl_inv s' t xs' ys'
        \<and> e \<in> liveAddrs (nodeAt s') xs'
        \<and> contents (nodeAt s') (cells s') xs' = add_mset (cells s' e) (contents (nodeAt s) (cells s) xs)
        \<and> framed t (set xs \<union> set ys \<union> {a. nodeAt s a = None}) s s')
    \<or> pumallocOnThreadList ma t s = Inl OutOfMemory \<and> ys = [] \<and> ma (fmdom (nodes s)) (nodeBytes s) = None"
  using pumallocOnThreadList_ok[OF assms] unfolding allocated_def by blast

theorem pumalloc_adds_element_witness:
  "(\<exists>e s' xs' ys'. pumallocOnThreadList firstFit listAddr mem2 = Inr (e, s') \<and> tl_inv s' listAddr xs' ys'
        \<and> e \<in> liveAddrs (nodeAt s') xs'
        \<and> contents (nodeAt s') (cells s') xs'
            = add_mset (cells s' e) (contents (nodeAt mem2) (cells mem2) [8192, 16384])
        \<and> framed listAddr (set [8192, 16384] \<union> set [] \<union> {a. nodeAt mem2 a = None}) mem2 s')
    \<or> pumallocOnThreadList firstFit listAddr mem2 = Inl OutOfMemory \<and> ([] :: addr list) = []
        \<and> firstFit (fmdom (nodes mem2)) (nodeBytes mem2) = None"
proof (rule pumalloc_adds_element[OF firstFit_spec mem2_inv])
  show "tlists mem2 listAddr = Some (emptyList\<lparr>tl_head := nodeA, tl_tail := nodeB, tl_numElements := 3, tl_numNodes := 2\<rparr>)"
    by (simp add: mem2_def)
  show "elementFits mem2 (tl_elementSize (emptyList\<lparr>tl_head := nodeA, tl_tail := nodeB, tl_numElements := 3, tl_numNodes := 2\<rparr>))"
    by (simp add: elementFits_def emptyList_def sizeof_pumaNode_def)
  show "tailSafe (nodeAt mem2) [8192, 16384]"
    by (simp add: tailSafe_def mem2_nodes demoNode_def)
qed simp

text \<open>C3: freeing a live element ends without a fault, keeps the invariant and removes exactly
  that element; the others stay where they are.\<close>

theorem pufree_removes_element:
  assumes "tl_inv s t xs ys" "e \<in> liveAddrs (nodeAt s) xs"
  shows "\<exists>s' ys'. pufree e s = Inr s' \<and> tl_inv s' t xs ys' \<and> (ys' = ys \<or> ys' = [])
    \<and> liveAddrs (nodeAt s') xs = liveAddrs (nodeAt s) xs - {e} \<and> cells s' = cells s
    \<and> framed t (set xs \<union> set ys) s s'"
  using pufree_ok[OF assms] unfolding freed_def by blast

theorem pufree_removes_element_witness:
  "\<exists>s' ys'. pufree 8352 mem2 = Inr s' \<and> tl_inv s' listAddr [8192, 16384] ys' \<and> (ys' = [] \<or> ys' = [])
    \<and> liveAddrs (nodeAt s') [8192, 16384] = liveAddrs (nodeAt mem2) [8192, 16384] - {8352}
    \<and> cells s' = cells mem2 \<and> framed listAddr (set [8192, 16384] \<union> set []) mem2 s'"
  by (rule pufree_removes_element[OF mem2_inv]) (simp add: mem2_live del: liveAddrs_simps)

section \<open>A set as a bag of elements\<close>

text \<open>C4: every sequence of safe operations of a set (allocations, frees, kernel runs of a worker,
  balancing) is simulated by the same sequence on the bag of its live elements, from any state that
  represents a bag; the number of elements is what was there plus the allocations less the frees.\<close>

theorem set_refines_bag:
  assumes "setSteps P ma ps ops s s'" "memalign_spec ma" "0 < numThreads ps" "numThreads ps < 2 ^ 64"
    and "represents P ps s M"
  shows "\<exists>M'. bagSteps ops M M' \<and> represents P ps s' M' \<and> size M' + frees ops = size M + allocs ops"
  using setSteps_refine[OF assms] bagSteps_size by blast

theorem set_refines_bag_witness:
  "\<exists>s' M'. setSteps demoPlatform firstFit demoSet [Free 8352 :: (nat, nat) setOp] memS s'
    \<and> bagSteps [Free 8352 :: (nat, nat) setOp] (setContents demoSet layoutS memS) M'
    \<and> represents demoPlatform demoSet s' M'
    \<and> size M' + frees [Free 8352 :: (nat, nat) setOp]
        = size (setContents demoSet layoutS memS) + allocs [Free 8352 :: (nat, nat) setOp]"
proof -
  let ?ops = "[Free 8352] :: (nat, nat) setOp list"
  have live: "8352 \<in> liveAddrs (nodeAt memS) (nodeList listAddr memS)"
    unfolding nodeList_ok[OF memS_inv0] memS_live by simp
  obtain s' where s': "pufree 8352 memS = Inr s'"
    using pufree_ok[OF memS_inv0, of 8352] unfolding memS_live by auto
  have safe: "opSafe demoSet memS (Free 8352 :: (nat, nat) setOp)"
    using live by (auto intro!: exI[of _ 0])
  have "setSteps demoPlatform firstFit demoSet ([] @ ?ops) memS s'"
    by (rule steps_snoc[OF steps_nil safe]) (simp add: s')
  then have st: "setSteps demoPlatform firstFit demoSet ?ops memS s'" by simp
  from set_refines_bag[OF st firstFit_spec _ _ memS_represents] st show ?thesis by auto
qed

text \<open>C5: one safe operation on a set that represents a bag does not fault: it returns, the new
  state represents the bag that the abstract operation gives; only an allocation may fail instead,
  and then for want of memory.\<close>

theorem safe_operation_refines:
  assumes "represents P ps s M" "opSafe ps s op" "memalign_spec ma" "0 < numThreads ps" "numThreads ps < 2 ^ 64"
  shows "(\<exists>s' M'. runOp P ma ps op s = Inr s' \<and> bagStep op M M' \<and> represents P ps s' M')
    \<or> (\<exists>tid v. op = Alloc tid v) \<and> runOp P ma ps op s = Inl OutOfMemory"
  by (rule runOp_refines[OF assms])

theorem safe_operation_refines_witness:
  "(\<exists>s' M'. runOp demoPlatform firstFit demoSet (Alloc 0 7 :: (nat, nat) setOp) memS = Inr s'
      \<and> bagStep (Alloc 0 7 :: (nat, nat) setOp) (setContents demoSet layoutS memS) M' \<and> represents demoPlatform demoSet s' M')
    \<or> (\<exists>tid v. (Alloc 0 7 :: (nat, nat) setOp) = Alloc tid v)
      \<and> runOp demoPlatform firstFit demoSet (Alloc 0 7 :: (nat, nat) setOp) memS = Inl OutOfMemory"
proof (rule safe_operation_refines[OF memS_represents _ firstFit_spec])
  show "opSafe demoSet memS (Alloc 0 7 :: (nat, nat) setOp)"
    using memS_canAlloc nodeList_ok[OF memS_inv0] by simp
qed simp_all

section \<open>Kernels over a set\<close>

text \<open>C6: a kernel run over a whole set, whose kernel writes \<open>g e\<close> over an element \<open>e\<close> whatever
  the extra data is, maps \<open>g\<close> over the bag of elements: no element is missed, none is seen twice,
  in whatever order the workers run and however the balancer moves nodes before.\<close>

theorem run_kernel_maps:
  assumes "set_inv P ps L s" "0 < numThreads ps" "numThreads ps < 2 ^ 32" "\<forall>a k. speed a k + 1 < 2 ^ 64"
    and "distinct order" "set order = {..<numThreads ps}" "set order' \<subseteq> {..<numThreads ps}"
  shows "\<exists>w' s' L'. runKernel P speed order order' ps (\<lambda>e x. (g e, h e x)) details w s = Inr (w', s')
    \<and> set_inv P ps L' s' \<and> setContents ps L' s' = image_mset g (setContents ps L s)"
  by (rule runKernel_map[OF assms(1-3) _ assms(5-7)]) (use assms(4) in blast)

theorem run_kernel_maps_witness:
  "\<exists>w' s' L'. runKernel demoPlatform demoSpeeds [1, 0] [0, 1] demoSet (\<lambda>e (x :: unit option). (e + 1, x))
      (None :: (unit, unit, unit, nat) pumaExtraKernelData option) 0 memS = Inr (w', s')
    \<and> set_inv demoPlatform demoSet L' s' \<and> setContents demoSet L' s' = image_mset (\<lambda>e. e + 1) (setContents demoSet layoutS memS)"
  by (rule run_kernel_maps[OF memS_set_inv]) (use demoSpeeds_ok in auto)

text \<open>C7: in a run of a list of kernels, worker after worker, the constructor gives the worker's extra
  data, which are threaded through the kernels with the worker's live elements (as the balancer left
  them), each element once per kernel, and what the per-thread reduction makes of them is the
  worker's entry; then all entries are reduced together and destroyed in turn. Each of these calls
  starts in the world that the one before has left, so none is missing. A missing descriptor stands
  for the empty one.\<close>

theorem run_kernel_list_workers:
  assumes "set_inv P ps L s" "0 < numThreads ps" "numThreads ps < 2 ^ 32" "\<forall>a k. speed a k + 1 < 2 ^ 64"
    and "distinct order" "set order = {..<numThreads ps}" "set order' \<subseteq> {..<numThreads ps}"
    and "ed = (case details of None \<Rightarrow> emptyKernelData | Some d \<Rightarrow> d)"
  shows "\<exists>w1 s' s1 L1 L' ext. runKernelList P speed order order' ps ks details w s
        = Inr (fold (\<lambda>i. extraDataDestructor ed (ext ! i)) order' (extraDataReduce ed (retValue ed) ext (numThreads ps) w1), s')
    \<and> balanceThreadLoad speed ps s = Inr s1 \<and> rebalanced P ps L s L1 s1 \<and> set_inv P ps L' s' \<and> length ext = numThreads ps
    \<and> workersRan ed ks (bagOf L1 s1) (bagOf L' s') ((!) ext) order w w1"
  by (rule runKernelList_ok[OF assms(1-3) _ assms(5-8)]) (use assms(4) in blast)

theorem run_kernel_list_workers_witness:
  "\<exists>w1 s' s1 L1 L' ext. runKernelList demoPlatform demoSpeeds [0, 1] [1, 0] demoSet [\<lambda>e x. (e + 1, map_option Suc x)] (Some demoExtra) [] memS
        = Inr (fold (\<lambda>i. extraDataDestructor demoExtra (ext ! i)) [1, 0]
            (extraDataReduce demoExtra (retValue demoExtra) ext (numThreads demoSet) w1), s')
    \<and> balanceThreadLoad demoSpeeds demoSet memS = Inr s1 \<and> rebalanced demoPlatform demoSet layoutS memS L1 s1
    \<and> set_inv demoPlatform demoSet L' s' \<and> length ext = numThreads demoSet
    \<and> workersRan demoExtra [\<lambda>e x. (e + 1, map_option Suc x)] (bagOf L1 s1) (bagOf L' s') ((!) ext) [0, 1] [] w1"
  by (rule run_kernel_list_workers[OF memS_set_inv]) (use demoSpeeds_ok in auto)

section \<open>The life of a set\<close>

text \<open>C8: creating a set for \<open>n\<close> workers whose list slots are apart gives an empty set that
  satisfies the set invariant, with the given element size and automatic balancing on; it fails
  only when the allocator has no memory for the array of a domain.\<close>

theorem create_set_establishes_invariant:
  assumes "numalloc_spec na" "(if pumaPageSize s = 0 then PAGESIZE P else pumaPageSize s) = 2 ^ k" "k < 64"
    and "\<forall>d<getNumDomains P. getNumCPUsInDomain P (int d) * sizeof_pumaThreadList + 2 ^ k < 2 ^ 64"
    and "cfg_ok (sz_mul (2 ^ k) (PUMA_NODEPAGES s))" "slots_ok P n" "distinct order" "set order = {..<n}"
  shows "(\<exists>(ps :: ('b, 'd) pumaSet) s'. createPumaSet na P order es n s = Inr (ps, s') \<and> set_inv P ps (\<lambda>_. ([], [])) s'
        \<and> numThreads ps = n \<and> ps_elementSize ps = es \<and> autoBalance ps \<and> nodes s' = nodes s \<and> cells s' = cells s)
    \<or> (createPumaSet na P order es n s :: c_fault + ('b, 'd) pumaSet \<times> 'e mem) = Inl OutOfMemory
        \<and> (\<exists>d s1 sz. na d s1 sz = None)"
  by (rule createPumaSet_ok[OF assms(1-3) _ assms(5-8)]) (use assms(4) in blast)

theorem create_set_establishes_invariant_witness:
  "(\<exists>(ps :: (nat, nat) pumaSet) s'. createPumaSet demoNuma demoPlatform [1, 0] 4000 2 (mem0\<lparr>tlists := \<lambda>_. None\<rparr>) = Inr (ps, s')
        \<and> set_inv demoPlatform ps (\<lambda>_. ([], [])) s' \<and> numThreads ps = 2 \<and> ps_elementSize ps = 4000 \<and> autoBalance ps
        \<and> nodes s' = nodes (mem0\<lparr>tlists := \<lambda>_. None\<rparr>) \<and> cells s' = cells (mem0\<lparr>tlists := \<lambda>_. None\<rparr>))
    \<or> (createPumaSet demoNuma demoPlatform [1, 0] 4000 2 (mem0\<lparr>tlists := \<lambda>_. None\<rparr>) :: c_fault + (nat, nat) pumaSet \<times> nat mem)
        = Inl OutOfMemory \<and> (\<exists>d s1 sz. demoNuma d s1 sz = None)"
proof (rule create_set_establishes_invariant[where k = 12, OF demoNuma_spec _ _ _ _ demo_slots])
  show "cfg_ok (sz_mul (2 ^ 12) (PUMA_NODEPAGES (mem0\<lparr>tlists := \<lambda>_. None\<rparr>)))"
    using demo_cfg by (simp add: mem0_def sz_mul_def)
  show "\<forall>d<getNumDomains demoPlatform. getNumCPUsInDomain demoPlatform (int d) * sizeof_pumaThreadList + 2 ^ 12 < 2 ^ 64"
    by (simp add: getNumCPUsInDomain_def getNumCPUs_def demoPlatform_def sizeof_pumaThreadList_def)
qed (auto simp: mem0_def)

text \<open>C9: the number of elements that a set reports, added up over its workers in any order, is
  the size of the bag of its live elements.\<close>

theorem num_elements_exact:
  assumes "set_inv P ps L s" "distinct order" "set order = {..<numThreads ps}"
  shows "getNumElements P order ps s = Inr (size (setContents ps L s))"
  by (rule getNumElements_ok[OF assms])

theorem num_elements_exact_witness:
  "getNumElements demoPlatform [1, 0] demoSet memS = Inr (size (setContents demoSet layoutS memS))"
  by (rule num_elements_exact[OF memS_set_inv]) auto

text \<open>C10: destroying a set frees exactly the nodes of its workers, active and inactive, each once
  and none after it was freed, and the lists of its domains; other nodes and lists stay.\<close>

theorem destroy_set_frees_all:
  assumes "set_inv P ps L s" "distinct order" "set order = {..<numThreads ps}"
  shows "\<exists>s'. destroyPumaSet P order ps s = Inr s' \<and> cells s' = cells s
    \<and> (\<forall>m. nodeAt s' m = (if m \<in> (\<Union>tid<numThreads ps. nodesOf L tid) then None else nodeAt s m))
    \<and> (\<forall>a. tlists s' a = (if a \<in> set (allSlots ps) then None else tlists s a))"
  by (rule destroyPumaSet_ok[OF assms])

theorem destroy_set_frees_all_witness:
  "\<exists>s'. destroyPumaSet demoPlatform [0, 1] demoSet memS = Inr s' \<and> cells s' = cells memS
    \<and> (\<forall>m. nodeAt s' m = (if m \<in> (\<Union>tid<numThreads demoSet. nodesOf layoutS tid) then None else nodeAt memS m))
    \<and> (\<forall>a. tlists s' a = (if a \<in> set (allSlots demoSet) then None else tlists memS a))"
  by (rule destroy_set_frees_all[OF memS_set_inv]) auto

section \<open>Balancing\<close>

text \<open>C11: automatic balancing, whatever targets the lists have, ends without a fault, keeps the set
  invariant and the elements, and balances: no list is left with more than one node above its target,
  or none below it.\<close>

theorem autobalance_balances:
  assumes "set_inv P ps L s" "0 < numThreads ps" "numThreads ps < 2 ^ 64" "\<forall>a k. speed a k + 1 < 2 ^ 64"
  shows "\<exists>s' L'. autobalanceThreadLoad speed ps s = Inr s' \<and> set_inv P ps L' s'
    \<and> setContents ps L' s' = setContents ps L s \<and> cells s' = cells s \<and> balanced speed (avgOf ps L) ps L'"
proof -
  obtain s' L' where "autobalanceThreadLoad speed ps s = Inr s'" "rebalanced P ps L s L' s'" "balanced speed (avgOf ps L) ps L'"
    using autobalanceThreadLoad_ok[OF assms(1-3), of speed] assms(4) by blast
  then show ?thesis unfolding rebalanced_def by blast
qed

theorem autobalance_balances_witness:
  "\<exists>s' L'. autobalanceThreadLoad demoSpeeds demoSet memS = Inr s' \<and> set_inv demoPlatform demoSet L' s'
    \<and> setContents demoSet L' s' = setContents demoSet layoutS memS \<and> cells s' = cells memS
    \<and> balanced demoSpeeds (avgOf demoSet layoutS) demoSet L'"
  by (rule autobalance_balances[OF memS_set_inv]) (use demoSpeeds_ok in auto)

text \<open>C12: the targets that the run times give, over exact numbers, are defined, are together no more
  than there are nodes, and none exceeds twice the average. Before the first kernel has run, all
  times are 0 and the targets are not defined.\<close>

theorem measured_targets:
  assumes "length ts = n" "0 < n" "\<forall>t \<in> set ts. 0 \<le> t" "0 < sum_list ts"
  shows "(\<exists>sp targets. relativeSpeeds n ts = Some sp \<and> map (\<lambda>x. targetNodes x (allNodes div n)) sp = map Some targets
      \<and> length targets = n \<and> sum_list targets \<le> allNodes \<and> (\<forall>k \<in> set targets. k \<le> 2 * (allNodes div n)))
    \<and> relativeSpeeds n (replicate n 0) = None"
  by (intro conjI targets_fit no_speeds_at_first) (use assms in simp_all)

theorem measured_targets_witness:
  "(\<exists>sp targets. relativeSpeeds 2 [1, 3] = Some sp \<and> map (\<lambda>x. targetNodes x (11 div 2)) sp = map Some targets
      \<and> length targets = 2 \<and> sum_list targets \<le> 11 \<and> (\<forall>k \<in> set targets. k \<le> 2 * (11 div 2)))
    \<and> relativeSpeeds 2 (replicate 2 0) = None"
  by (rule measured_targets) simp_all

text \<open>C13: a transfer of \<open>n\<close> nodes takes exactly the last \<open>n\<close> active nodes of the source list and
  puts them, in their order, behind the active nodes of the other list, before its inactive ones;
  both lists keep their invariants (links, indices, owners, counters) and every element stays where
  it is.\<close>

theorem transfer_moves_last_nodes:
  assumes "tl_inv s src (xs1 @ xs2) ysf" "tl_inv s dst zs yst" "src \<noteq> dst" "xs2 \<noteq> []" "n = length xs2"
    and "map_option tl_elementSize (tlists s src) = map_option tl_elementSize (tlists s dst)"
  shows "\<exists>s'. transferNNodes n src dst s = Inr s' \<and> tl_inv s' src xs1 ysf \<and> tl_inv s' dst (zs @ xs2) yst
    \<and> betweenLists src dst (set (xs1 @ xs2 @ ysf @ zs @ yst)) s s'"
  using transferNNodes_ok[OF assms(1-4,6)] unfolding assms(5) by blast

theorem transfer_moves_last_nodes_witness:
  "\<exists>s'. transferNNodes 1 listAddr listAddr1 memS = Inr s' \<and> tl_inv s' listAddr [8192] []
    \<and> tl_inv s' listAddr1 ([] @ [16384]) []
    \<and> betweenLists listAddr listAddr1 (set ([8192] @ [16384] @ [] @ [] @ [])) memS s'"
proof (rule transfer_moves_last_nodes[OF _ memS_inv1])
  show "tl_inv memS listAddr ([8192] @ [16384]) []" using memS_inv0 by simp
  show "map_option tl_elementSize (tlists memS listAddr) = map_option tl_elementSize (tlists memS listAddr1)"
    by (simp add: mem2_def emptyList_def)
qed (simp_all add: listAddr_def listAddr1_def)

text \<open>C14: in a build for NUMA a transfer does to the lists what it does without, and for each of the
  moved nodes, in their order, it asks the kernel to move all of its pages to the domain of the other
  list; when the domains are the same, it asks for nothing.\<close>

theorem transfer_moves_pages:
  assumes "tl_inv s src (xs1 @ xs2) ysf" "tl_inv s dst zs yst" "src \<noteq> dst" "xs2 \<noteq> []"
    and "tlists s src = Some lf" "tlists s dst = Some lt" "tl_elementSize lf = tl_elementSize lt"
    and "0 < pageSize" "k * pageSize = nodeBytes s" "\<forall>m\<in>set xs2. n_numPages (the (nodeAt s m)) = k"
  shows "\<exists>s'. transferNNodes (length xs2) src dst s = Inr s'
    \<and> transferNNodesNuma nnuma pageSize (length xs2) src dst s
        = Inr (s', if nnuma \<or> tl_numaDomain lt = tl_numaDomain lf then []
                   else map (requestFor pageSize k (tl_numaDomain lt)) xs2)"
  by (rule transferNNodesNuma_ok[OF assms(1-9)]) (use assms(10) in blast)

theorem transfer_moves_pages_witness:
  "\<exists>s'. transferNNodes 1 listAddr listAddr1 memD = Inr s'
    \<and> transferNNodesNuma False 4096 1 listAddr listAddr1 memD
        = Inr (s', [\<lparr>mr_pages = [16384, 20480], mr_nodes = [1, 1]\<rparr>])"
proof -
  have "\<exists>s'. transferNNodes (length [16384 :: addr]) listAddr listAddr1 memD = Inr s'
    \<and> transferNNodesNuma False 4096 (length [16384 :: addr]) listAddr listAddr1 memD
        = Inr (s', if False \<or> tl_numaDomain (emptyList\<lparr>tl_tid := 1, tl_numaDomain := 1\<rparr>)
              = tl_numaDomain (emptyList\<lparr>tl_head := nodeA, tl_tail := nodeB, tl_numElements := 3, tl_numNodes := 2\<rparr>)
            then [] else map (requestFor 4096 2 (tl_numaDomain (emptyList\<lparr>tl_tid := 1, tl_numaDomain := 1\<rparr>))) [16384])"
    by (rule transfer_moves_pages[OF memD_inv])
      (simp_all add: demo_list mem2_nodes, simp_all add: emptyList_def demoNode_def listAddr_def listAddr1_def)
  then show ?thesis by (simp add: emptyList_def requestFor_def upt_rec numeral_2_eq_2)
qed

section \<open>Nodes of a list\<close>

text \<open>C15: the compaction of a dirty node ends with its elements in its first slots and the dirty
  mark gone; the bag of the list's elements is the same, nodes left empty at the end of the list are
  given back, nodes of other lists are not touched.\<close>

theorem cleanup_compacts:
  assumes "tl_inv s t xs ys" "cur \<in> set xs" "nodeAt s cur = Some nd" "n_dirty nd"
  shows "\<exists>s' xs' ys' nd'. cleanupNode cur t s = Inr s' \<and> tl_inv s' t xs' ys' \<and> (\<exists>ws. xs = xs' @ ws)
    \<and> nodeAt s' cur = Some nd' \<and> \<not> n_dirty nd' \<and> used nd' = {..<n_numElements nd'} \<and> n_firstKnownFree nd' = n_numElements nd'
    \<and> contents (nodeAt s') (cells s') xs' = contents (nodeAt s) (cells s) xs
    \<and> framed t (set xs \<union> set ys) s s'"
proof -
  obtain s' xs' ys' nd' where "cleanupNode cur t s = Inr s'" "cleaned t cur s s' xs ys xs' ys' nd nd'"
    using cleanupNode_ok[OF assms(1) _ assms(3,4)] assms(2) by blast
  then show ?thesis unfolding cleaned_def by blast
qed

theorem cleanup_compacts_witness:
  "\<exists>s' xs' ys' nd'. cleanupNode 16384 listAddr mem2 = Inr s' \<and> tl_inv s' listAddr xs' ys' \<and> (\<exists>ws. [8192, 16384] = xs' @ ws)
    \<and> nodeAt s' 16384 = Some nd' \<and> \<not> n_dirty nd' \<and> used nd' = {..<n_numElements nd'} \<and> n_firstKnownFree nd' = n_numElements nd'
    \<and> contents (nodeAt s') (cells s') xs' = contents (nodeAt mem2) (cells mem2) [8192, 16384]
    \<and> framed listAddr (set [8192, 16384] \<union> set []) mem2 s'"
  by (rule cleanup_compacts[OF mem2_inv _ mem2_nodes(2)]) (simp_all add: demoNode_def)

text \<open>C16: when both nodes of a list are empty and the tail is due for compaction, an allocation
  returns an element that kernels do not see: the compaction gives both nodes back and only the tail
  becomes active again, so that every kernel stops at the inactive head, with one element counted.\<close>

theorem stranded_element:
  fixes s :: "'e mem"
  assumes "tl_inv s t [b, n] ys" "nodeAt s n = Some nd"
    and "n_numElements (the (nodeAt s b)) = 0" "n_numElements nd = 0" "n_capacity nd \<le> n_firstKnownFree nd"
  shows "\<exists>s' l'. pumallocOnThreadList ma t s = Inr (slotAddr nd 0, s') \<and> tlists s' t = Some l'
    \<and> tl_numElements l' = 1 \<and> slotAddr nd 0 \<in> liveOf (the (nodeAt s' n))
    \<and> (\<forall>(k :: ('e, 'x) kernel) x. runKernelThread k t x s' = Inr (x, s'))"
  by (rule stranded_after_pumalloc[OF assms])

theorem stranded_element_witness:
  "\<exists>s' l'. pumallocOnThreadList firstFit listAddr memE = Inr (slotAddr emptyB 0, s') \<and> tlists s' listAddr = Some l'
    \<and> tl_numElements l' = 1 \<and> slotAddr emptyB 0 \<in> liveOf (the (nodeAt s' 16384))
    \<and> (\<forall>(k :: (nat, nat) kernel) x. runKernelThread k listAddr x s' = Inr (x, s'))"
  by (rule stranded_element[OF memE_inv]) (simp_all add: memE_nodes, simp_all add: demoNode_def)

section \<open>The free mask\<close>

text \<open>C17: the first and the last index of a value, found word by word with the skip tests, are the
  results of the linear searches over the bits, from the start and from the end.\<close>

theorem index_searches_are_linear:
  assumes "bm_wf bm" "0 < bm_numElements bm"
  shows "pumaFirstIndexOfValue bm (bitVal b) = Inr (indexResult (find (\<lambda>i. maskBit bm i = b) [0..<bm_numElements bm]))
    \<and> pumaLastIndexOfValue bm (bitVal b) = Inr (indexResult (find (\<lambda>i. maskBit bm i = b) (rev [0..<bm_numElements bm])))"
  using pumaFirstIndexOfValue_find[OF assms] pumaLastIndexOfValue_find[OF assms(1)]
  by (simp add: findFirst_def findLast_def)

theorem index_searches_are_linear_witness:
  "pumaFirstIndexOfValue demoMask (bitVal True)
     = Inr (indexResult (find (\<lambda>i. maskBit demoMask i = True) [0..<bm_numElements demoMask]))
   \<and> pumaLastIndexOfValue demoMask (bitVal True)
     = Inr (indexResult (find (\<lambda>i. maskBit demoMask i = True) (rev [0..<bm_numElements demoMask])))"
  by (rule index_searches_are_linear[OF demoMask_wf]) (simp add: demoMask_def)

text \<open>C18: a mask and an array of elements laid out in \<open>a\<close> bytes fit: the mask words come first,
  then as many elements as the mask has bits, all inside the array; every bit has the initial value.
  The number of elements is the largest that fits, but for one size of the rest: when exactly one
  element and one mask word are left over, they are not used. The comparison with \<open>elemSize + 8\<close> is
  strict.\<close>

theorem elem_array_layout:
  assumes "0 < e" "e \<le> a" "a < 2 ^ 57" "array + a \<le> 2 ^ 64"
  shows "\<exists>bm start n. createPumaBitmaskForElemArray array a (bitVal b) e = Inr (bm, start, n)
    \<and> bm_wf bm \<and> bm_numElements bm = n \<and> (\<forall>i<n. maskBit bm i = b)
    \<and> array + 8 * length (buckets bm) = start \<and> start + n * e \<le> array + a
    \<and> elemArrayCount a e = Inr n \<and> (layoutBytes (Suc n) e \<le> a \<longleftrightarrow> a mod (64 * e + 8) = e + 8)"
proof -
  obtain bm where bm: "createPumaBitmaskForElemArray array a (bitVal b) e
      = Inr (bm, array + (elemCount a e + 63) div 64 * 8, elemCount a e)"
    "bm_wf bm" "bm_numElements bm = elemCount a e" "\<forall>i<elemCount a e. maskBit bm i = b"
    using createPumaBitmaskForElemArray_layout[OF assms] by blast
  moreover have "length (buckets bm) = (elemCount a e + 63) div 64" using bm(2,3) by (simp add: bm_wf_def)
  ultimately show ?thesis
    using elemCount_fits[OF assms(1), of a] elemArrayCount_eq[OF assms(3,1,2)] elemCount_maximal[OF assms(1)]
    by (auto simp: layoutBytes_def)
qed

theorem elem_array_layout_witness:
  "\<exists>bm start n. createPumaBitmaskForElemArray 8352 8032 (bitVal True) 4000 = Inr (bm, start, n)
    \<and> bm_wf bm \<and> bm_numElements bm = n \<and> (\<forall>i<n. maskBit bm i = True)
    \<and> 8352 + 8 * length (buckets bm) = start \<and> start + n * 4000 \<le> 8352 + 8032
    \<and> elemArrayCount 8032 4000 = Inr n
    \<and> (layoutBytes (Suc n) 4000 \<le> 8032 \<longleftrightarrow> 8032 mod (64 * 4000 + 8) = 4000 + (8 :: nat))"
  by (rule elem_array_layout) simp_all

text \<open>C19: a debug build for NUMA, which writes to the first byte of every page of a new node, marks
  slots as used when a page begins in the mask: of the eight slots of the byte written, all but the
  last. No slot is lost whose mask bit is in the first page.\<close>

theorem debug_page_writes:
  assumes "node_mask_ok nd" "used nd = {}"
  shows "used (touchPages pageSize nd)
      = {i. i < n_capacity nd \<and> (\<exists>p. 1 \<le> p \<and> p < n_numPages nd \<and> clears (p * pageSize - sizeof_pumaNode) i)}
    \<and> used (touchPages pageSize nd) \<subseteq> {i. pageSize \<le> sizeof_pumaNode + (8 * (i div 64) + 7)}"
  using touch_used[OF assms, of pageSize] touch_beyond[OF assms, of pageSize] by simp

theorem debug_page_writes_witness:
  "used (touchPages 4096 wideNode)
      = {i. i < n_capacity wideNode \<and> (\<exists>p. 1 \<le> p \<and> p < n_numPages wideNode \<and> clears (p * 4096 - sizeof_pumaNode) i)}
    \<and> used (touchPages 4096 wideNode) \<subseteq> {i. 4096 \<le> sizeof_pumaNode + (8 * (i div 64) + 7)}
    \<and> {31608..31614} \<subseteq> used (touchPages 4096 wideNode)"
proof -
  note written = debug_page_writes[OF wideNode_ok(1) wideNode_empty, of 4096]
  have "i \<in> used (touchPages 4096 wideNode)" if "i \<in> {31608..31614}" for i
  proof -
    have "i div 64 = 493" using that by auto
    moreover from this have "i mod 64 = i - 31552" using minus_div_mult_eq_mod[of i 64] by simp
    ultimately have "clears (1 * 4096 - sizeof_pumaNode) i" using that by (auto simp: clears_def sizeof_pumaNode_def)
    then show ?thesis using written that by (auto intro!: exI[of _ 1])
  qed
  then show ?thesis using written by blast
qed

section \<open>Addresses of elements\<close>

text \<open>C20: from an element's address the code recovers its node by masking and its index by
  division: both are those that gave the address.\<close>

theorem element_address_roundtrip:
  assumes "cfg_ok (nodeBytes s)" "node_geom (nodeBytes s) a nd" "i < n_capacity nd"
  shows "getNodeForElement s (getElement nd i) = a \<and> getIndexOfElementOnNode (getElement nd i) nd = Inr i"
  using node_of_slot[OF assms] index_of_slot[OF assms(2,3)] getElement_slot[OF assms(2,3)] by simp

theorem element_address_roundtrip_witness:
  "getNodeForElement mem2 (getElement demoB 1) = 16384 \<and> getIndexOfElementOnNode (getElement demoB 1) demoB = Inr 1"
  by (rule element_address_roundtrip) (simp_all add: demo_cfg demo_geom, simp add: demoNode_def)

section \<open>Where a worker's list is\<close>

text \<open>C21: with NUMA, workers bound to different CPUs find different list slots, each inside the array
  of its domain, exactly when the nodes of their CPUs are numbered below the number of nodes: a CPU
  that does not exist has node -1, and node numbers may have gaps, and then the array of domains is
  left. Without NUMA support the slots are the thread numbers and there is one per online CPU: a set
  with more workers than that has workers whose list is outside the array.\<close>

theorem workers_own_slots:
  assumes "platform_ok P" "\<not> NNUMA P" "\<forall>i<n. cpuNum P i < cpumaskSize P" "inj_on (cpuNum P) {..<n}"
  shows "(slots_ok P n \<longleftrightarrow> (\<lambda>i. numa_node_of_cpu P (cpuNum P i)) ` {..<n} \<subseteq> {0..<int (numa_num_configured_nodes P)})
    \<and> (slots_ok (P\<lparr>NNUMA := True\<rparr>) k \<longleftrightarrow> k \<le> NPROCESSORS_ONLN P)"
  using slots_ok_NUMA[OF assms(1,2) _ assms(4)] assms(3) slots_ok_NNUMA[of "P\<lparr>NNUMA := True\<rparr>" k] by simp

theorem workers_own_slots_witness:
  "(slots_ok sparsePlatform 2
      \<longleftrightarrow> (\<lambda>i. numa_node_of_cpu sparsePlatform (cpuNum sparsePlatform i)) ` {..<2} \<subseteq> {0..<int (numa_num_configured_nodes sparsePlatform)})
    \<and> (slots_ok (sparsePlatform\<lparr>NNUMA := True\<rparr>) 3 \<longleftrightarrow> 3 \<le> NPROCESSORS_ONLN sparsePlatform)
    \<and> \<not> slots_ok sparsePlatform 2 \<and> slots_ok sparsePlatform 1"
proof -
  have p: "\<not> NNUMA sparsePlatform" "\<forall>i<n. cpuNum sparsePlatform i < cpumaskSize sparsePlatform"
    "inj_on (cpuNum sparsePlatform) {..<n}" if "n \<le> 2" for n
    using that by (auto simp: sparsePlatform_def demoPlatform_def)
  note w = workers_own_slots[OF sparsePlatform_ok p(1)[OF order_refl] p(2,3)]
  have "\<not> slots_ok sparsePlatform 2" "slots_ok sparsePlatform 1"
    using w[of 2] w[of 1] by (simp_all add: sparsePlatform_def demoPlatform_def demo_threads lessThan_Suc)
  then show ?thesis by (intro conjI conjunct1[OF w[OF order_refl order_refl]] conjunct2[OF w[OF order_refl order_refl]])
qed

section \<open>Entry points\<close>

text \<open>C22: \<open>pumallocAutoBalancing\<close> never allocates: no list is ever chosen, because a candidate must
  be compared with a list chosen before, and the null pointer is dereferenced.\<close>

theorem auto_balancing_alloc_faults:
  assumes "set_inv P ps L s" "tlists s 0 = None"
  shows "pumallocAutoBalancing ma ps s = Inl NullDeref"
  by (rule pumallocAutoBalancing_null[OF assms])

theorem auto_balancing_alloc_faults_witness: "pumallocAutoBalancing firstFit demoSet memS = Inl NullDeref"
  by (rule auto_balancing_alloc_faults[OF memS_set_inv memS_null])

text \<open>C23: on a well-formed set no assertion fails that is about the set. A debug build allocates as
  the release build does from a memory in which only slots without an element may hold other values;
  an allocator without memory it catches. It runs kernels and frees elements as the release build
  does, and refuses to free an element twice. The element size has to pass the assertion of the mask,
  and in a build for NUMA, which writes to the pages of an appended node, the mask has to lie in the
  first page and the kernel has to put the pages where they are asked for. Without NUMA no value is
  another.\<close>

theorem debug_build_agrees:
  assumes "set_inv P ps L s" "tid < numThreads ps" "memalign_spec ma" "length (fst (L tid)) < 2 ^ 31"
    and "elementFits s (ps_elementSize ps)" "maskAssertOk (nodeBytes s) (ps_elementSize ps)"
    and "pagesOk P K (getCurrentNumaDomain P tid) (ps_elementSize ps) s"
    and "e \<in> liveAddrs (nodeAt s) (fst (L tid))"
  shows "(\<exists>c. (\<forall>j<numThreads ps. \<forall>x\<in>liveAddrs (nodeAt s) (fst (L j)). c x = cells s x) \<and> (NNUMA P \<longrightarrow> c = cells s)
      \<and> sameButMemory (pumalloc P ma ps tid (s\<lparr>cells := c\<rparr>)) (pumallocDbg P K ma ps tid s))
    \<and> runKernelOnWorkerDbg P ps k tid x s = runKernelOnWorker P ps k tid x s
    \<and> pufreeDbg e s = pufree e s \<and> bindE (pufree e s) (pufreeDbg e) = Inl AssertFailed"
proof -
  note inv = set_invD(8)[OF assms(1,2)]
  obtain s' where "pufree e s = Inr s'" using pufree_ok[OF inv assms(8)] by blast
  then show ?thesis
    using pumalloc_dbg[OF assms(1,2,3,5,6,4,7)] runKernelOnWorker_dbg[OF assms(1,2)] pufree_dbg[OF inv assms(8)]
      pufree_twice_dbg[OF inv assms(8)] by simp
qed

theorem debug_build_agrees_witness:
  "(\<exists>c. (\<forall>j<numThreads demoSet. \<forall>x\<in>liveAddrs (nodeAt memS) (fst (layoutS j)). c x = cells memS x)
      \<and> (NNUMA (demoPlatform\<lparr>NNUMA := False\<rparr>) \<longrightarrow> c = cells memS)
      \<and> sameButMemory (pumalloc (demoPlatform\<lparr>NNUMA := False\<rparr>) firstFit demoSet 0 (memS\<lparr>cells := c\<rparr>))
          (pumallocDbg (demoPlatform\<lparr>NNUMA := False\<rparr>) demoKernel firstFit demoSet 0 memS))
    \<and> runKernelOnWorkerDbg (demoPlatform\<lparr>NNUMA := False\<rparr>) demoSet (\<lambda>v n. (v + 1, n + 1 :: nat)) 0 0 memS
        = runKernelOnWorker (demoPlatform\<lparr>NNUMA := False\<rparr>) demoSet (\<lambda>v n. (v + 1, n + 1)) 0 0 memS
    \<and> pufreeDbg 8352 memS = pufree 8352 memS \<and> bindE (pufree 8352 memS) (pufreeDbg 8352) = Inl AssertFailed"
  by (rule debug_build_agrees[OF memS_set_inv_any _ firstFit_spec _ _ memS_mask_assert demoKernel_pages])
    (use memS_fits memS_live in \<open>simp_all del: liveAddrs_simps\<close>)

section \<open>NUMA nodes and thread-local static memory\<close>

text \<open>C24: the memory of a domain is bound to exactly that domain as long as its number is below 8;
  from 8 on the request names another node or none, because the number is divided by the bytes of a
  word, not its bits.\<close>

theorem numa_request_nodes:
  assumes "domain \<le> maxnode" "ma pageSize psize = Some ret"
  shows "\<exists>r. numalloc_on_node ma False maxnode pageSize psize domain = Inr (ret, Some r) \<and> mb_start r = ret \<and> mb_len r = psize
    \<and> requestedNodes r = {d. d \<le> maxnode \<and> d = 64 * (domain div 8) + domain mod 8}
    \<and> (requestedNodes r = {domain} \<longleftrightarrow> domain < 8)"
proof -
  obtain r where r: "bindToDomain False maxnode psize domain ret = Inr (ret, Some r)" "mb_start r = ret" "mb_len r = psize"
    "requestedNodes r = {d. d \<le> maxnode \<and> d = 64 * (domain div 8) + domain mod 8}"
    using bindToDomain_nodes[OF assms(1)] by blast
  have "requestedNodes r = {domain} \<longleftrightarrow> 64 * (domain div 8) + domain mod 8 = domain"
    unfolding r(4) by (rule only_node[OF assms(1)])
  then show ?thesis using r assms(2) selected_is_domain by (simp add: numalloc_on_node_def)
qed

theorem numa_request_nodes_witness:
  "\<exists>r. numalloc_on_node (\<lambda>a n. Some 4096) False 9 4096 8192 8 = Inr (4096, Some r) \<and> mb_start r = 4096 \<and> mb_len r = 8192
    \<and> requestedNodes r = {d. d \<le> 9 \<and> d = 64 * (8 div 8) + 8 mod 8} \<and> (requestedNodes r = {8} \<longleftrightarrow> 8 < (8 :: nat))"
  by (rule numa_request_nodes) simp_all

text \<open>C25: an allocation of thread-local static memory gives the bytes behind those handed out of the
  same block before, accounts for them and keeps the chain of blocks well-formed; it fails only when
  a new block is needed and there is none.\<close>

theorem static_alloc_pieces:
  fixes m :: "'e mem"
  assumes "static_inv st" "static_alloc_spec na" "pumaPageSize m = 2 ^ k" "sz + 2 ^ k < 2 ^ 63"
  shows "(\<exists>a ret st'. pumallocStaticLocal na m sz st = Inr (ret, st') \<and> static_inv st'
      \<and> ret = a + sizeof_pumaStaticNode + usedIn st a
      \<and> (\<forall>b. usedIn st' b = (if b = a then usedIn st a + sz else usedIn st b)))
    \<or> pumallocStaticLocal na m sz st = Inl OutOfMemory \<and> na st (roundedUp k sz + sizeof_pumaStaticNode) = None"
  using pumallocStaticLocal_ok[OF assms] unfolding gavePiece_def by blast

theorem static_alloc_pieces_witness:
  "(\<exists>a ret st'. pumallocStaticLocal demoBlocks mem2 100 emptyStatic = Inr (ret, st') \<and> static_inv st'
      \<and> ret = a + sizeof_pumaStaticNode + usedIn emptyStatic a
      \<and> (\<forall>b. usedIn st' b = (if b = a then usedIn emptyStatic a + 100 else usedIn emptyStatic b)))
    \<or> pumallocStaticLocal demoBlocks mem2 100 emptyStatic = Inl OutOfMemory
      \<and> demoBlocks emptyStatic (roundedUp 12 100 + sizeof_pumaStaticNode) = None"
  by (rule static_alloc_pieces[OF emptyStatic_inv demoBlocks_spec]) simp_all

text \<open>C26: the room of a static block is counted with its header: after a page-sized piece filled
  the block, a further small piece is given out that starts exactly at the block's end.\<close>

theorem static_block_overrun:
  fixes m :: "'e mem"
  assumes "static_inv st" "staticHead st = 0" "static_alloc_spec na" "na st (2 ^ k + sizeof_pumaStaticNode) = Some a"
    and "pumaPageSize m = 2 ^ k" "6 \<le> k" "2 ^ k + 2 ^ k < (2 :: nat) ^ 63" "sz \<le> sizeof_pumaStaticNode"
  shows "\<exists>st1 st2. pumallocStaticLocal na m (2 ^ k) st = Inr (a + sizeof_pumaStaticNode, st1)
    \<and> pumallocStaticLocal na m sz st1 = Inr (a + (2 ^ k + sizeof_pumaStaticNode), st2)
    \<and> map_option sn_blockSize (staticNodes st2 a) = Some (2 ^ k + sizeof_pumaStaticNode)"
  by (rule pumallocStaticLocal_overrun[OF assms])

theorem static_block_overrun_witness:
  "\<exists>st1 st2. pumallocStaticLocal demoBlocks mem2 (2 ^ 12) emptyStatic = Inr (65536 + sizeof_pumaStaticNode, st1)
    \<and> pumallocStaticLocal demoBlocks mem2 16 st1 = Inr (65536 + (2 ^ 12 + sizeof_pumaStaticNode), st2)
    \<and> map_option sn_blockSize (staticNodes st2 65536) = Some (2 ^ 12 + sizeof_pumaStaticNode)"
  by (rule static_block_overrun[OF emptyStatic_inv _ demoBlocks_spec])
    (simp_all add: emptyStatic_def demoBlocks_def sizeof_pumaStaticNode_def)

text \<open>C27: the deletion of a thread's static data ends and frees the first block and the one it links,
  each once, and no other: a block appended before the last one stays allocated.\<close>

theorem static_delete_frees:
  assumes "static_inv st" "3 \<le> fuel"
  shows "\<exists>st'. pumaDeleteStaticData fuel st = Inr st' \<and> static_inv st' \<and> staticHead st' = 0
    \<and> (\<forall>a. staticNodes st' a = (if a \<in> chainBlocks st then None else staticNodes st a))"
  by (rule pumaDeleteStaticData_ok[OF assms])

theorem static_delete_frees_witness:
  "\<exists>st'. pumaDeleteStaticData 3 emptyStatic = Inr st' \<and> static_inv st' \<and> staticHead st' = 0
    \<and> (\<forall>a. staticNodes st' a = (if a \<in> chainBlocks emptyStatic then None else staticNodes emptyStatic a))"
  by (rule static_delete_frees[OF emptyStatic_inv]) simp

section \<open>The thread pool\<close>

text \<open>C28: an affinity string of numbers and ranges, printed as the documentation shows it, is parsed
  to the set of exactly the CPUs below 1024 that its entries cover.\<close>

theorem affinity_roundtrip:
  assumes "\<forall>r\<in>set rs. rangeOk r"
  shows "\<exists>s. parseAffinityStr (showAffinity rs) = Some (Inr s)
    \<and> (\<forall>c. CPU_ISSET c s \<longleftrightarrow> c < 1024 \<and> (\<exists>r\<in>set rs. covers r c))"
  by (rule parse_showAffinity[OF assms])

theorem affinity_roundtrip_witness:
  "\<exists>s. parseAffinityStr (showAffinity [Upto 0 3, One 6, One 10]) = Some (Inr s)
    \<and> (\<forall>c. CPU_ISSET c s \<longleftrightarrow> c < 1024 \<and> (\<exists>r\<in>set [Upto 0 3, One 6, One 10]. covers r c))"
  by (rule affinity_roundtrip) simp

text \<open>C29: parsing a range that ends at the largest \<open>unsigned int\<close> does not return.\<close>

theorem affinity_max_hangs:
  assumes "a < 2 ^ 32"
  shows "parseAffinityStr (showRange (Upto a (2 ^ 32 - 1))) = None"
  by (rule parse_UINT_MAX[OF assms])

theorem affinity_max_hangs_witness: "parseAffinityStr (showRange (Upto 0 (2 ^ 32 - 1))) = None"
  by (rule affinity_max_hangs) simp

text \<open>C30: for the affinity \<open>a-b\<close> a pool creates workers on the CPUs from \<open>a\<close> up to the number of
  chosen CPUs only: fewer than asked for as soon as \<open>a\<close> is not 0, and none when \<open>a\<close> is not below
  \<open>b - a + 1\<close>.\<close>

theorem range_affinity_workers:
  assumes "a \<le> b" "b < 1024" "n \<noteq> 0"
  shows "\<exists>pool. createThreadPool nProcs n (Some (showRange (Upto a b))) = Some (Inr pool) \<and> tp_numThreads pool = n
    \<and> map wi_cpu (tp_workers pool) = take n [a..<Suc b - a]"
  by (rule createThreadPool_range[OF assms])

theorem range_affinity_workers_witness:
  "\<exists>pool. createThreadPool 8 4 (Some (showRange (Upto 4 7))) = Some (Inr pool) \<and> tp_numThreads pool = 4
    \<and> map wi_cpu (tp_workers pool) = take 4 [4..<Suc 7 - 4]"
  by (rule range_affinity_workers) simp_all

text \<open>C31: whenever the caller is outside \<open>executeOnThreadPool\<close>, in any interleaving of its threads,
  every worker has run exactly the jobs that were executed, each once and in their order, and none
  is running.\<close>

theorem pool_jobs_run_once:
  assumes "poolReachable N C s" "C \<le> N" "callerAt s = MIdle" "w < C"
  shows "hasRun s w = map Some (calls s) \<and> workerAt s w \<in> {WStart, WAtWork}"
  using pool_runs_once[OF assms] by blast

theorem pool_jobs_run_once_witness:
  "\<exists>s. poolReachable 2 2 s \<and> calls s = [7 :: nat] \<and> hasRun s 0 = map Some (calls s) \<and> workerAt s 0 \<in> {WStart, WAtWork}"
proof -
  let ?c = "startPool\<lparr>callerAt := MWantLock, request := Some 7, calls := calls startPool @ [7 :: nat]\<rparr>"
  have c: "poolReachable 2 2 ?c"
    by (rule pool_step[OF pool_start poolStep.call]) (simp add: startPool_def)
  obtain s where s: "poolReachable 2 2 s" "callerAt s = MIdle" "calls s = calls ?c"
    using callReturns_reaches[OF pool_call_returns[OF c] c] by blast
  from pool_jobs_run_once[OF s(1) _ s(2), of 0] s show ?thesis by (auto simp: startPool_def)
qed

text \<open>C32: with all its threads created, a call of \<open>executeOnThreadPool\<close> returns whatever the
  scheduler does: no reachable state is stuck inside a call, and no run stays inside one for ever.\<close>

theorem pool_calls_return:
  assumes "poolReachable N N s"
  shows "callReturns N N s"
  by (rule pool_call_returns[OF assms])

theorem pool_calls_return_witness:
  "callReturns 2 2 (startPool\<lparr>callerAt := MWantLock, request := Some (7 :: nat), calls := calls startPool @ [7]\<rparr>)"
  by (rule pool_calls_return, rule pool_step[OF pool_start poolStep.call]) (simp add: startPool_def)

text \<open>C33: with fewer threads than the pool's number, the first call never returns and no worker
  ever runs anything.\<close>

theorem short_pool_hangs:
  assumes "poolReachable N C s" "C < N"
  shows "hasRun s w = [] \<and> (calls s = [] \<longleftrightarrow> callerAt s = MIdle) \<and> length (calls s) \<le> 1"
  using pool_call_hangs[OF assms] by blast

theorem short_pool_hangs_witness:
  "hasRun (startPool :: nat poolState) 0 = []
    \<and> (calls (startPool :: nat poolState) = [] \<longleftrightarrow> callerAt (startPool :: nat poolState) = MIdle)
    \<and> length (calls (startPool :: nat poolState)) \<le> 1"
  by (rule short_pool_hangs[OF pool_start, of 0 4]) simp

text \<open>C34: two threads that call \<open>executeOnThreadPool\<close> on one pool can deadlock, whatever its number of
  workers: the second caller holds the write lock in the first barrier while the workers, whom the
  first caller awaits in the second barrier, wait for the read lock. Nothing has been run.\<close>

theorem two_callers_deadlock:
  assumes "0 < N"
  shows "\<exists>s. callersReachable N 2 s \<and> callersAt s 0 = MAtDone \<and> callersAt s 1 = MAtWork \<and> writeLockedBy s = Some 1
    \<and> (\<forall>w. w < N \<longrightarrow> poolWorkerAt s w = WLock \<and> workerRan s w = []) \<and> requests s 0 = Some i \<and> requests s 1 = Some j
    \<and> (\<forall>s'. \<not> callersStep N 2 s s')"
  using two_callers_stuck[OF assms, of i j] unfolding stuckCallers_def by metis

theorem two_callers_deadlock_witness:
  "\<exists>s. callersReachable 4 2 s \<and> callersAt s 0 = MAtDone \<and> callersAt s 1 = MAtWork \<and> writeLockedBy s = Some 1
    \<and> (\<forall>w. w < 4 \<longrightarrow> poolWorkerAt s w = WLock \<and> workerRan s w = []) \<and> requests s 0 = Some True
    \<and> requests s 1 = Some False \<and> (\<forall>s'. \<not> callersStep 4 2 s s')"
  by (rule two_callers_deadlock) simp

text \<open>C35: the workers of a pool created without affinity report their own number as thread and CPU
  number, and on a machine with NUMA and that many CPUs they find lists of their own exactly when all
  these CPUs are on nodes below the number of nodes.\<close>

theorem default_pool_own_lists:
  assumes "createThreadPool nProcs n None = Some (Inr pool)" "platform_ok P" "\<not> NNUMA P"
    and "\<forall>i<tp_numThreads pool. cpuNum P i = pumaGetCPUNum (workerKeys pool (tp_workers pool ! i))"
    and "tp_numThreads pool \<le> cpumaskSize P"
  shows "(\<forall>i<tp_numThreads pool. pumaGetThreadNum (workerKeys pool (tp_workers pool ! i)) = i)
    \<and> (slots_ok P (tp_numThreads pool)
        \<longleftrightarrow> numa_node_of_cpu P ` {..<tp_numThreads pool} \<subseteq> {0..<int (numa_num_configured_nodes P)})"
proof -
  have c: "cpuNum P i = i" if "i < tp_numThreads pool" for i
    using default_pool_keys(2)[OF assms(1) that] assms(4) that by simp
  then have "inj_on (cpuNum P) {..<tp_numThreads pool}" by (simp add: inj_on_def)
  moreover have "(\<lambda>i. numa_node_of_cpu P (cpuNum P i)) ` {..<tp_numThreads pool} = numa_node_of_cpu P ` {..<tp_numThreads pool}"
    using c by (intro image_cong) simp_all
  ultimately show ?thesis using slots_ok_NUMA[OF assms(2,3)] c assms(5) default_pool_keys(1)[OF assms(1)] by simp
qed

theorem default_pool_own_lists_witness:
  "\<exists>pool. createThreadPool 8 2 None = Some (Inr pool) \<and> tp_numThreads pool = 2
    \<and> (\<forall>i<tp_numThreads pool. pumaGetThreadNum (workerKeys pool (tp_workers pool ! i)) = i)
    \<and> slots_ok (demoPlatform\<lparr>NNUMA := False\<rparr>) (tp_numThreads pool) \<and> \<not> slots_ok sparsePlatform (tp_numThreads pool)"
proof -
  obtain pool where p: "createThreadPool 8 2 None = Some (Inr pool)" "tp_numThreads pool = 2"
    using createThreadPool_default[of 2 8] by auto
  have "\<forall>i<tp_numThreads pool. cpuNum Q i = pumaGetCPUNum (workerKeys pool (tp_workers pool ! i))" if "cpuNum Q = id" for Q
    using default_pool_keys(2)[OF p(1)] that by simp
  note d = default_pool_own_lists[OF p(1) _ _ this]
  have "slots_ok (demoPlatform\<lparr>NNUMA := False\<rparr>) 2"
    using d[OF demoPlatform_NUMA] p(2) by (simp add: demoPlatform_def demo_threads)
  moreover have "\<not> slots_ok sparsePlatform 2"
    using d[OF sparsePlatform_ok] p(2) by (simp add: sparsePlatform_def demoPlatform_def demo_threads)
  moreover have "\<forall>i<tp_numThreads pool. pumaGetThreadNum (workerKeys pool (tp_workers pool ! i)) = i"
    using d[OF demoPlatform_NUMA] p(2) by (simp add: demoPlatform_def)
  ultimately show ?thesis using p by auto
qed

text \<open>C36: a set whose pool has another number of threads than the set was created for, as the static
  pool of the first set may, is created only if the pool has fewer; balancing it faults, on the list
  of the first thread that the pool does not have.\<close>

theorem pool_set_mismatch:
  fixes ps :: "('b, 'd) pumaSet"
  assumes "createPumaSet na P order es n s = Inr (ps, s')" "set order = {..<m}" "m \<noteq> n" "tlists s' 0 = None"
  shows "m < n \<and> tidToThreadList ps ! m = 0 \<and> (\<exists>e. autobalanceThreadLoad speed ps s' = Inl e)"
proof (intro conjI pool_set_sizes[OF assms])
  show "tidToThreadList ps ! m = 0"
    by (rule create_entries(4)[OF assms(1) pool_set_sizes(1)[OF assms]]) (simp add: assms(2))
qed

theorem pool_set_mismatch_witness:
  "\<exists>ps s'. (createPumaSet demoNuma demoPlatform [0] 4000 2 (mem0\<lparr>tlists := \<lambda>_. None\<rparr>) :: c_fault + (nat, nat) pumaSet \<times> nat mem)
      = Inr (ps, s')
    \<and> 1 < (2 :: nat) \<and> tidToThreadList ps ! 1 = 0 \<and> (\<exists>e. autobalanceThreadLoad demoSpeeds ps s' = Inl e)"
proof -
  obtain ps s' where c: "(createPumaSet demoNuma demoPlatform [0] 4000 2 (mem0\<lparr>tlists := \<lambda>_. None\<rparr>)
      :: c_fault + (nat, nat) pumaSet \<times> nat mem) = Inr (ps, s')" "tlists s' 0 = None"
    by (rule oneWorkerOfTwo)
  have "set [0 :: nat] = {..<1}" by auto
  from pool_set_mismatch[OF c(1) this _ c(2)] c(1) show ?thesis by auto
qed

section \<open>Barriers and times\<close>

text \<open>C37: in every reachable state of the barrier for macOS some thread can go on. The barrier separates
  rounds, no thread returning from it more often than any other has called it, exactly when a wait
  never ends without a broadcast. POSIX lets it end so, and the code does not wait again: then a
  thread passes before the others have come.\<close>

theorem barrier_separates_iff:
  assumes "pthread_barrier_init m c (word_of_nat N) = (st, Some b0)" "2 \<le> N" "N < 2 ^ 31" "barrierReachable spurious N b0 b"
  shows "(\<exists>b'. barrierStep False N b b')
    \<and> ({b. barrierReachable spurious N b0 b} \<subseteq> {b. \<forall>t<N. \<forall>u<N. passed b t \<le> arrived b u} \<longleftrightarrow> \<not> spurious)"
  using barrier_live[OF assms(4,1,3)] separates_iff[OF assms(1-3)] by (simp add: separates_def)

theorem barrier_separates_iff_witness:
  "(\<exists>b'. barrierStep False 2 (leaves 0 (startsWait 0 twoBarrier)) b')
    \<and> ({b. barrierReachable True 2 twoBarrier b} \<subseteq> {b. \<forall>t<2. \<forall>u<2. passed b t \<le> arrived b u} \<longleftrightarrow> \<not> True)"
  by (rule barrier_separates_iff[OF twoBarrier_init _ _ twoBarrier_alone]) simp_all

text \<open>C38: after any number of kernel runs the ring of a list, read from the next slot on, holds the
  times of its last five, the oldest first, with zeroes for runs there have not been. Its sum has been
  run along: each run took the time that it overwrote off and added its own, with the rounding sum
  and difference \<open>fadd\<close> and \<open>fsub\<close>. The latest time is that of the last run, and the maximum over the
  lists is that of their latest times, and no less than 0.\<close>

theorem run_times_ring:
  fixes es :: "'t::{linorder,zero} list" and ls :: "'t listTimes list"
  shows "(\<exists>l. recordRunTimes fadd fsub es noTimes = Inr l \<and> nextRunTimeSlot l = length es mod 5
      \<and> rotate (nextRunTimeSlot l) (kernelRunTimes l) = drop (length es) (replicate 5 0 @ es)
      \<and> lastNRunTime l = foldl (\<lambda>t (old, new). fadd (fsub t old) new) 0 (zip (replicate 5 0 @ es) es)
      \<and> latestRunTime l = last (0 # es))
    \<and> getLastMaxKernelRuntime ls = Max (insert 0 (set (getLastKernelRuntimes ls)))"
  using recordRunTimes_noTimes[of fadd fsub es] getLastMaxKernelRuntime_Max[of ls]
  by (simp add: runningSum_def paddedTimes_def NUM_KERNEL_RUNTIMES_def)

theorem run_times_ring_witness:
  "\<exists>l. recordRunTimes (+) (-) [3, 1, 4, 1, 5, 9, 2 :: int] noTimes = Inr l \<and> nextRunTimeSlot l = 2
    \<and> rotate 2 (kernelRunTimes l) = [4, 1, 5, 9, 2] \<and> lastNRunTime l = 21 \<and> latestRunTime l = 2"
proof -
  have r: "replicate 5 (0 :: int) = [0, 0, 0, 0, 0]" by (simp add: numeral_eq_Suc)
  obtain l where "recordRunTimes (+) (-) [3, 1, 4, 1, 5, 9, 2 :: int] noTimes = Inr l" "nextRunTimeSlot l = 2"
    "rotate (nextRunTimeSlot l) (kernelRunTimes l) = [4, 1, 5, 9, 2]" "lastNRunTime l = 21" "latestRunTime l = 2"
    using run_times_ring[of "(+)" "(-)" "[3, 1, 4, 1, 5, 9, 2 :: int]" "[]", unfolded r] by auto
  then show ?thesis by auto
qed

text \<open>C39: the thread that makes the first call on a pool has the times of its calls added up, each
  call as long as its longest worker; the first call by any other thread dereferences a null pointer.\<close>

theorem pool_time_first_caller:
  fixes tss :: "'t::linordered_idom list list"
  assumes "tss \<noteq> []"
  shows "\<exists>k. endOfCalls th tss noTimeKey = Inr k
    \<and> pumaGetTimeWaitedForPool key0 th k = sum_list (map (\<lambda>ts. Max (insert 0 (set ts))) tss)
    \<and> (\<forall>u ts. u \<noteq> th \<longrightarrow> endOfCall u ts k = Inl NullDeref)"
  by (rule pool_time_one_caller[OF assms])

theorem pool_time_first_caller_witness:
  "\<exists>k. endOfCalls 0 [[3, 5], [2, 1 :: int]] noTimeKey = Inr k
    \<and> pumaGetTimeWaitedForPool (\<lambda>_. None) 0 k = sum_list (map (\<lambda>ts. Max (insert 0 (set ts))) [[3, 5], [2, 1]])
    \<and> (\<forall>u ts. u \<noteq> 0 \<longrightarrow> endOfCall u ts k = Inl NullDeref)"
  by (rule pool_time_first_caller) simp

section \<open>Growing a list\<close>

text \<open>C40: appending a node takes the first inactive node again or a new block, makes it the last
  active node of the list and adds no element; without an inactive node and without memory it fails.\<close>

theorem append_node:
  assumes "memalign_spec ma" "tl_inv s t xs ys" "tlists s t = Some l" "elementFits s (tl_elementSize l)" "length xs < 2 ^ 31"
  shows "(\<exists>a s' ys'. appendPumaNode ma t (tl_elementSize l) s = Inr (a, s') \<and> tl_inv s' t (xs @ [a]) ys'
        \<and> (ys = a # ys' \<or> ys = [] \<and> ys' = [] \<and> nodeAt s a = None)
        \<and> liveAddrs (nodeAt s') (xs @ [a]) = liveAddrs (nodeAt s) xs \<and> cells s' = cells s
        \<and> framed t (insert a (set xs)) s s')
    \<or> appendPumaNode ma t (tl_elementSize l) s = Inl OutOfMemory \<and> ys = [] \<and> ma (fmdom (nodes s)) (nodeBytes s) = None"
  by (rule appendPumaNode_ok[OF assms]) (unfold appended_def, blast+)

theorem append_node_witness:
  "(\<exists>a s' ys'. appendPumaNode firstFit listAddr (tl_elementSize emptyList) mem0 = Inr (a, s') \<and> tl_inv s' listAddr ([] @ [a]) ys'
        \<and> (([] :: addr list) = a # ys' \<or> ([] :: addr list) = [] \<and> ys' = [] \<and> nodeAt mem0 a = None)
        \<and> liveAddrs (nodeAt s') ([] @ [a]) = liveAddrs (nodeAt mem0) [] \<and> cells s' = cells mem0
        \<and> framed listAddr (insert a (set [])) mem0 s')
    \<or> appendPumaNode firstFit listAddr (tl_elementSize emptyList) mem0 = Inl OutOfMemory \<and> ([] :: addr list) = []
        \<and> firstFit (fmdom (nodes mem0)) (nodeBytes mem0) = None"
  by (rule append_node[OF firstFit_spec mem0_inv]) (simp_all add: mem0_def emptyList_def elementFits_def sizeof_pumaNode_def nodeBytes_def sz_mul_def)

end
